(* ===== verification/Prelude.thy ===== *)
theory Prelude
  imports Complex_Main "HOL-Library.Word"
begin

text \<open>
  Shared vocabulary of the development: the fixed-width integer types of the C++ sources, the
  big-endian byte helpers that every protocol codec uses, the sum type of fallible results, and
  generic lemmas on lists that the component theories rely on.

  The collection \<^verbatim>\<open>byte_simps\<close> gathers the rules that evaluate and invert byte-level code;
  \<^verbatim>\<open>component_defs\<close> gathers the definitions of constants and small guards.
\<close>

unbundle bit_operations_syntax

named_theorems byte_simps "rules that evaluate and invert byte-level code"
named_theorems component_defs "definitions of named constants and small guards"

type_synonym u8 = "8 word"
type_synonym u16 = "16 word"
type_synonym bytes = "8 word list"

text \<open>A fallible computation: \<^verbatim>\<open>Inl\<close> carries the error.\<close>

type_synonym ('e, 'a) result = "'e + 'a"

definition bind_result :: "('e, 'a) result \<Rightarrow> ('a \<Rightarrow> ('e, 'b) result) \<Rightarrow> ('e, 'b) result" where
  "bind_result r f = (case r of Inl e \<Rightarrow> Inl e | Inr x \<Rightarrow> f x)"

lemma bind_result_simps [simp]: "bind_result (Inl e) f = Inl e" "bind_result (Inr x) f = f x"
  by (simp_all add: bind_result_def)

lemma bind_result_Inr: "bind_result r f = Inr y \<longleftrightarrow> (\<exists>x. r = Inr x \<and> f x = Inr y)"
  by (cases r) simp_all

lemma bind_result_Inl: "bind_result r f = Inl e \<longleftrightarrow> r = Inl e \<or> (\<exists>x. r = Inr x \<and> f x = Inl e)"
  by (cases r) auto


section \<open>Big-endian 16-bit fields\<close>

text \<open>
  C++ writes \<^verbatim>\<open>(hi << 8) | lo\<close> on bytes promoted to \<^verbatim>\<open>int\<close> and stores the result in a
  \<^verbatim>\<open>uint16_t\<close>; both bytes fit, so computing at 16 bits gives the same value.
  The converse are \<^verbatim>\<open>w >> 8\<close> and \<^verbatim>\<open>w & 0xFF\<close> stored in a \<^verbatim>\<open>uint8_t\<close>.
\<close>

definition be16 :: "u8 \<Rightarrow> u8 \<Rightarrow> u16" where
  "be16 hi lo = (push_bit 8 (ucast hi) OR ucast lo)"

definition hi8 :: "u16 \<Rightarrow> u8" where
  "hi8 w = ucast (drop_bit 8 w)"

definition lo8 :: "u16 \<Rightarrow> u8" where
  "lo8 w = ucast (w AND 0xFF)"

lemma bit_be16:
  "bit (be16 hi lo) n \<longleftrightarrow> (if n < 8 then bit lo n else n < 16 \<and> bit hi (n - 8))"
  by (auto simp: be16_def bit_simps dest: bit_imp_le_length)

lemma lo8_mask: "lo8 w = ucast (w AND mask 8)"
  by (simp add: lo8_def mask_eq_exp_minus_1)

lemma bit_lo8: "bit (lo8 w) n \<longleftrightarrow> n < 8 \<and> bit w n"
  by (auto simp: lo8_mask bit_simps dest: bit_imp_le_length)

lemma bit_hi8: "bit (hi8 w) n \<longleftrightarrow> n < 8 \<and> bit w (n + 8)"
  by (auto simp: hi8_def bit_simps add.commute)

lemma be16_split [byte_simps]: "be16 (hi8 w) (lo8 w) = w"
  by (rule bit_eqI) (auto simp: bit_be16 bit_hi8 bit_lo8)

lemma hi8_be16 [byte_simps]: "hi8 (be16 hi lo) = hi"
  by (rule bit_eqI) (auto simp: bit_be16 bit_hi8 dest: bit_imp_le_length)

lemma lo8_be16 [byte_simps]: "lo8 (be16 hi lo) = lo"
  by (rule bit_eqI) (auto simp: bit_be16 bit_lo8 dest: bit_imp_le_length)

lemma be16_inject: "be16 a b = be16 c d \<longleftrightarrow> a = c \<and> b = d"
  by (metis hi8_be16 lo8_be16)

section \<open>Lists\<close>

text \<open>A vector of known small length is the list of its elements.\<close>

lemma nth_append_length_plus: "(xs @ ys) ! (length xs + n) = ys ! n"
  by (simp add: nth_append)

lemma filter_dropWhile_sorted:
  assumes "sorted (map f xs)"
  shows "dropWhile (\<lambda>x. f x < (t::'b::linorder)) xs = filter (\<lambda>x. t \<le> f x) xs"
  using assms
proof (induction xs)
  case (Cons x xs)
  show ?case
  proof (cases "f x < t")
    case True
    with Cons show ?thesis by simp
  next
    case False
    with Cons.prems have "\<forall>y \<in> set xs. t \<le> f y"
      by auto
    with False show ?thesis
      by (simp add: filter_id_conv)
  qed
qed simp

lemma distinct_singleton: "distinct xs \<Longrightarrow> set xs = {x} \<Longrightarrow> xs = [x]"
proof (cases xs)
  case (Cons y ys)
  assume "distinct xs" and "set xs = {x}"
  with Cons have "y = x" "set ys \<subseteq> {x}" "x \<notin> set ys"
    by auto
  with Cons show ?thesis
    by (cases ys) auto
qed simp

lemma filter_filter_imp: "(\<And>x. P x \<Longrightarrow> Q x) \<Longrightarrow> filter P (filter Q xs) = filter P xs"
  by (induction xs) auto

lemma sorted_map_filter: "sorted (map f xs) \<Longrightarrow> sorted (map f (filter P xs))"
  by (induction xs) auto

lemma map_filter_append: "List.map_filter f (xs @ ys) = List.map_filter f xs @ List.map_filter f ys"
  by (simp add: List.map_filter_def)

lemma map_filter_snoc: "List.map_filter f (xs @ [x]) = List.map_filter f xs @ (case f x of None \<Rightarrow> [] | Some y \<Rightarrow> [y])"
  by (simp add: List.map_filter_def split: option.split)

section \<open>Codecs\<close>

text \<open>A message format: an encoder and a decoder that recovers every encoded message.\<close>

locale codec =
  fixes enc :: "'m \<Rightarrow> bytes"
    and dec :: "bytes \<Rightarrow> 'm"
  assumes dec_enc: "dec (enc m) = m"
begin

lemma enc_inject: "enc m = enc m' \<longleftrightarrow> m = m'"
  by (metis dec_enc)

lemma dec_surj: "\<exists>b. dec b = m"
  using dec_enc by blast

end

section \<open>Latches\<close>

text \<open>
  Several components keep a flag that, once set, no operation clears. The locale \<^verbatim>\<open>latch\<close> has one
  operation driven by inputs, a predicate on states, and the law that the operation keeps it; its
  lemmas speak of whole input sequences. Each such component interprets it.
\<close>

locale latch =
  fixes op :: "'i \<Rightarrow> 's \<Rightarrow> 's"
    and held :: "'s \<Rightarrow> bool"
  assumes keep: "held s \<Longrightarrow> held (op i s)"
begin

lemma held_fold: "held s \<Longrightarrow> held (fold op is s)"
  by (induction "is" arbitrary: s) (simp_all add: keep)

lemma held_prefix: "\<not> held (fold op (is @ js) s) \<Longrightarrow> \<not> held (fold op is s)"
  using held_fold by auto

text \<open>A latch that is set at the end of a run was set initially or at exactly one point.\<close>

lemma first_held:
  "held (fold op is s) \<longleftrightarrow>
    held s \<or> (\<exists>xs i ys. is = xs @ i # ys \<and> \<not> held (fold op xs s) \<and> held (op i (fold op xs s)))"
proof (induction "is" rule: rev_induct)
  case (snoc i "is")
  show ?case
  proof (cases "held (fold op is s)")
    case True
    then have "held (fold op (is @ [i]) s)"
      by (simp add: keep)
    moreover have "held s \<or> (\<exists>xs j ys. is @ [i] = xs @ j # ys \<and> \<not> held (fold op xs s) \<and> held (op j (fold op xs s)))"
      using True snoc.IH by (metis append.assoc append_Cons)
    ultimately show ?thesis
      by blast
  next
    case False
    show ?thesis
    proof
      assume "held (fold op (is @ [i]) s)"
      with False show "held s \<or> (\<exists>xs j ys. is @ [i] = xs @ j # ys \<and> \<not> held (fold op xs s) \<and> held (op j (fold op xs s)))"
        by auto
    next
      assume r: "held s \<or> (\<exists>xs j ys. is @ [i] = xs @ j # ys \<and> \<not> held (fold op xs s) \<and> held (op j (fold op xs s)))"
      then obtain xs j ys where e: "is @ [i] = xs @ j # ys" "held (op j (fold op xs s))"
        using False held_fold by blast
      then have "held (fold op ys (op j (fold op xs s)))"
        using held_fold by blast
      then show "held (fold op (is @ [i]) s)"
        unfolding e(1) by simp
    qed
  qed
qed simp

end

end
