(* ===== verification/Double.thy ===== *)
theory Double
  imports Prelude
begin

text \<open>
  The C++ type \<^verbatim>\<open>double\<close>. A value is the real number it denotes; every arithmetic operation
  computes the exact real result and rounds it once to the nearest IEEE-754 binary64 value,
  ties to even, gradual underflow included (\<^verbatim>\<open>rnd64\<close>). Overflow to infinity and NaN have no
  counterpart: the program never reaches them, because its divisors are positive and its values
  are small. The functions of \<^verbatim>\<open><cmath>\<close> are taken to be correctly rounded.

  The laws a numerical client needs are the locale \<^verbatim>\<open>rounding\<close>: rounding is monotone, idempotent, and
  leaves every dyadic number with a 53-bit significand unchanged. Bounds on computed values
  follow by comparing with such dyadic numbers. The locale is interpreted on \<^verbatim>\<open>rnd64\<close>.
\<close>

section \<open>Rounding to an integer, ties to even\<close>

definition rne :: "real \<Rightarrow> int" where
  "rne x = (let n = \<lfloor>x\<rfloor>; d = x - of_int n
            in if d < 1/2 then n else if 1/2 < d then n + 1 else if even n then n else n + 1)"

lemma rne_of_int [simp]: "rne (of_int n) = n"
  by (simp add: rne_def)

lemma rne_bounds: "\<lfloor>x\<rfloor> \<le> rne x \<and> rne x \<le> \<lfloor>x\<rfloor> + 1"
  by (simp add: rne_def Let_def)

lemma rne_mono: "x \<le> y \<Longrightarrow> rne x \<le> rne y"
proof -
  assume le: "x \<le> y"
  then have fl: "\<lfloor>x\<rfloor> \<le> \<lfloor>y\<rfloor>"
    by (rule floor_mono)
  show ?thesis
  proof (cases "\<lfloor>x\<rfloor> = \<lfloor>y\<rfloor>")
    case True
    with le show ?thesis
      by (auto simp: rne_def Let_def)
  next
    case False
    with fl rne_bounds[of x] rne_bounds[of y] show ?thesis
      by linarith
  qed
qed

lemma rne_minus: "rne (- x) = - rne x"
proof (cases "x = of_int \<lfloor>x\<rfloor>")
  case True
  then show ?thesis
    by (metis of_int_minus rne_of_int)
next
  case False
  define n where "n = \<lfloor>x\<rfloor>"
  have n: "of_int n < x" "x < of_int n + 1"
    using False of_int_floor_le[of x] floor_correct[of x] unfolding n_def by linarith+
  have fm: "\<lfloor>- x\<rfloor> = - n - 1"
    using n by (intro floor_unique) auto
  show ?thesis
    unfolding rne_def Let_def fm n_def[symmetric] by auto
qed

section \<open>Rounding to binary64\<close>

text \<open>The weight of the last place of a nonzero value: 53 significant bits, exponent at least -1074.\<close>

definition last_place :: "real \<Rightarrow> int" where
  "last_place x = max (\<lfloor>log 2 \<bar>x\<bar>\<rfloor> - 52) (- 1074)"

definition rnd64 :: "real \<Rightarrow> real" where
  "rnd64 x = (if x = 0 then 0
     else of_int (rne (x / 2 powr of_int (last_place x))) * 2 powr of_int (last_place x))"

lemma rnd64_0 [simp]: "rnd64 0 = 0"
  by (simp add: rnd64_def)

lemma rnd64_minus: "rnd64 (- x) = - rnd64 x"
  by (simp add: rnd64_def last_place_def rne_minus)

lemma last_place_mono: "0 < x \<Longrightarrow> x \<le> y \<Longrightarrow> last_place x \<le> last_place y"
  unfolding last_place_def by (intro max.mono diff_right_mono floor_mono) auto

lemma last_place_upper:
  assumes "0 < x" shows "x < 2 powr of_int (last_place x + 53)"
proof -
  have "log 2 x < of_int (\<lfloor>log 2 x\<rfloor> + 1)"
    by linarith
  also have "\<dots> \<le> of_int (last_place x + 53)"
    using assms by (simp add: last_place_def)
  finally show ?thesis
    using assms by (simp add: log_less_iff)
qed

lemma last_place_lower:
  assumes "0 < x" and "- 1074 < last_place x" shows "2 powr of_int (last_place x + 52) \<le> x"
proof -
  have "of_int (last_place x + 52) \<le> log 2 x"
    using assms by (auto simp: last_place_def max_def split: if_splits)
  then show ?thesis
    using assms(1) by (simp add: le_log_iff)
qed

lemma rne_le_of_int: "x \<le> of_int n \<Longrightarrow> rne x \<le> n"
  using rne_mono[of x "of_int n"] by simp

lemma rne_ge_of_int: "of_int n \<le> x \<Longrightarrow> n \<le> rne x"
  using rne_mono[of "of_int n" x] by simp

lemma rnd64_nonneg: "0 \<le> x \<Longrightarrow> 0 \<le> rnd64 x"
  using rne_ge_of_int[of 0 "x / 2 powr of_int (last_place x)"] by (simp add: rnd64_def)

lemma rnd64_pos_le:
  assumes "0 < x" shows "rnd64 x \<le> 2 powr of_int (last_place x + 53)"
proof -
  let ?u = "2 powr real_of_int (last_place x)"
  have "x / ?u \<le> of_int (2 ^ 53)"
    using last_place_upper[OF assms] by (simp add: powr_add field_simps)
  then have "real_of_int (rne (x / ?u)) \<le> 2 ^ 53"
    using rne_le_of_int by (metis of_int_le_iff of_int_numeral of_int_power)
  then have "of_int (rne (x / ?u)) * ?u \<le> 2 ^ 53 * ?u"
    by (intro mult_right_mono) auto
  with assms show ?thesis
    by (simp add: rnd64_def powr_add)
qed

lemma rnd64_pos_ge:
  assumes "0 < x" and "- 1074 < last_place x" shows "2 powr of_int (last_place x + 52) \<le> rnd64 x"
proof -
  let ?u = "2 powr real_of_int (last_place x)"
  have "of_int (2 ^ 52) \<le> x / ?u"
    using last_place_lower[OF assms] by (simp add: powr_add field_simps)
  then have "2 ^ 52 \<le> real_of_int (rne (x / ?u))"
    using rne_ge_of_int by (metis of_int_le_iff of_int_numeral of_int_power)
  then have "2 ^ 52 * ?u \<le> of_int (rne (x / ?u)) * ?u"
    by (intro mult_right_mono) auto
  with assms show ?thesis
    by (simp add: rnd64_def powr_add)
qed

lemma rnd64_mono_pos:
  assumes "0 < x" and "x \<le> y" shows "rnd64 x \<le> rnd64 y"
proof (cases "last_place x = last_place y")
  case True
  with assms have "rne (x / 2 powr of_int (last_place x)) \<le> rne (y / 2 powr of_int (last_place x))"
    by (intro rne_mono divide_right_mono) auto
  with assms True show ?thesis
    by (simp add: rnd64_def)
next
  case False
  with last_place_mono[OF assms] have lt: "last_place x < last_place y"
    by simp
  then have y: "- 1074 < last_place y"
    by (simp add: last_place_def)
  have "rnd64 x \<le> 2 powr of_int (last_place x + 53)"
    using assms(1) by (rule rnd64_pos_le)
  also have "\<dots> \<le> 2 powr of_int (last_place y + 52)"
    using lt by simp
  also have "\<dots> \<le> rnd64 y"
    using assms y by (intro rnd64_pos_ge) auto
  finally show ?thesis .
qed

lemma rnd64_mono: "x \<le> y \<Longrightarrow> rnd64 x \<le> rnd64 y"
proof -
  assume le: "x \<le> y"
  consider "0 < x" | "y < 0" | "x \<le> 0" "0 \<le> y"
    using le by linarith
  then show ?thesis
  proof cases
    case 1
    then show ?thesis using le by (rule rnd64_mono_pos)
  next
    case 2
    with le have "rnd64 (- y) \<le> rnd64 (- x)"
      by (intro rnd64_mono_pos) auto
    then show ?thesis by (simp add: rnd64_minus)
  next
    case 3
    with rnd64_nonneg[of "- x"] rnd64_nonneg[of y] show ?thesis
      by (simp add: rnd64_minus)
  qed
qed

lemma rnd64_scaled_int:
  assumes "\<bar>m\<bar> < 2 ^ 53" and "- 1074 \<le> e"
  shows "rnd64 (of_int m * 2 powr of_int e) = of_int m * 2 powr of_int e" (is "rnd64 ?x = ?x")
proof (cases "m = 0")
  case False
  have "\<bar>real_of_int m\<bar> < 2 ^ 53"
    using assms(1) by (metis of_int_abs of_int_less_iff of_int_numeral of_int_power)
  then have "\<bar>?x\<bar> < 2 powr (53 + of_int e)"
    by (simp add: abs_mult powr_add)
  with False have "log 2 \<bar>?x\<bar> < of_int (53 + e)"
    by (simp add: log_less_iff)
  then have "\<lfloor>log 2 \<bar>?x\<bar>\<rfloor> < 53 + e"
    by (simp add: floor_less_iff)
  with assms(2) have le: "last_place ?x \<le> e"
    by (simp add: last_place_def)
  define l where "l = last_place ?x"
  define d where "d = nat (e - l)"
  have e: "real_of_int e = of_int l + real d"
    using le by (simp add: d_def l_def)
  have x: "?x = of_int (m * 2 ^ d) * 2 powr of_int l"
    unfolding e by (simp add: powr_add powr_realpow)
  have "?x / 2 powr of_int l = of_int (m * 2 ^ d)"
    unfolding x by simp
  then have "rne (?x / 2 powr of_int l) = m * 2 ^ d"
    by (simp only: rne_of_int)
  then have "rnd64 ?x = of_int (m * 2 ^ d) * 2 powr of_int l"
    using False by (simp add: rnd64_def l_def[symmetric])
  also have "\<dots> = ?x"
    using x by (rule sym)
  finally show ?thesis .
qed simp

lemma rnd64_dyadic:
  assumes "\<bar>m\<bar> < 2 ^ 53" and "k \<le> 1074"
  shows "rnd64 (of_int m / 2 ^ k) = of_int m / 2 ^ k"
  using rnd64_scaled_int[OF assms(1), of "- int k"] assms(2)
  by (simp add: powr_minus powr_realpow divide_inverse)

text \<open>A significand of exactly \<^verbatim>\<open>2 ^ 53\<close> is the smallest one of the next binade.\<close>

lemma rnd64_scaled_int_le:
  assumes "\<bar>m\<bar> \<le> 2 ^ 53" and "- 1074 \<le> e"
  shows "rnd64 (of_int m * 2 powr of_int e) = of_int m * 2 powr of_int e"
proof (cases "\<bar>m\<bar> < 2 ^ 53")
  case True
  then show ?thesis
    using assms(2) by (rule rnd64_scaled_int)
next
  case False
  define m' where "m' = m div 2"
  have "m = 2 ^ 53 \<or> m = - (2 ^ 53)"
    using assms(1) False by linarith
  then have m': "m = 2 * m'" "\<bar>m'\<bar> < 2 ^ 53"
    by (auto simp: m'_def)
  have "real_of_int m * 2 powr of_int e = of_int m' * 2 powr of_int (e + 1)"
    by (simp add: m'(1) powr_add)
  then show ?thesis
    using rnd64_scaled_int[OF m'(2), of "e + 1"] assms(2) by simp
qed

lemma rnd64_idem_pos:
  assumes "0 < x" shows "rnd64 (rnd64 x) = rnd64 x"
proof -
  let ?u = "2 powr real_of_int (last_place x)"
  have up: "x / ?u \<le> of_int (2 ^ 53)"
    using last_place_upper[OF assms] by (simp add: powr_add field_simps)
  have "of_int 0 \<le> x / ?u"
    using assms by simp
  then have "\<bar>rne (x / ?u)\<bar> \<le> 2 ^ 53"
    using rne_le_of_int[OF up] rne_ge_of_int[of 0 "x / ?u"] by linarith
  moreover have "- 1074 \<le> last_place x"
    by (simp add: last_place_def)
  ultimately show ?thesis
    using assms rnd64_scaled_int_le by (simp add: rnd64_def[of x])
qed

lemma rnd64_idem: "rnd64 (rnd64 x) = rnd64 x"
proof (cases x "0 :: real" rule: linorder_cases)
  case less
  then show ?thesis
    using rnd64_idem_pos[of "- x"] by (simp add: rnd64_minus)
qed (simp_all add: rnd64_idem_pos)

section \<open>The laws of rounding\<close>

locale rounding =
  fixes rnd :: "real \<Rightarrow> real"
  assumes mono: "x \<le> y \<Longrightarrow> rnd x \<le> rnd y"
    and idem [simp]: "rnd (rnd x) = rnd x"
    and dyadic: "\<bar>m\<bar> < 2 ^ 53 \<Longrightarrow> k \<le> 1074 \<Longrightarrow> rnd (of_int m / 2 ^ k) = of_int m / 2 ^ k"
begin

lemma of_int_exact: "\<bar>m\<bar> < 2 ^ 53 \<Longrightarrow> rnd (of_int m) = of_int m"
  using dyadic[of m 0] by simp

lemma of_nat_exact: "n < 2 ^ 53 \<Longrightarrow> rnd (real n) = real n"
  using of_int_exact[of "int n"] by simp

lemma zero [simp]: "rnd 0 = 0"
  using of_int_exact[of 0] by simp

lemma one [simp]: "rnd 1 = 1"
  using of_int_exact[of 1] by simp

lemma numeral_exact [simp]: "(numeral w :: int) < 2 ^ 53 \<Longrightarrow> rnd (numeral w) = numeral w"
  using of_int_exact[of "numeral w"] by simp

lemma neg_numeral_exact [simp]: "(numeral w :: int) < 2 ^ 53 \<Longrightarrow> rnd (- numeral w) = - numeral w"
  using of_int_exact[of "- numeral w"] by simp

lemma le_exact: "rnd c = c \<Longrightarrow> x \<le> c \<Longrightarrow> rnd x \<le> c"
  using mono[of x c] by simp

lemma ge_exact: "rnd c = c \<Longrightarrow> c \<le> x \<Longrightarrow> c \<le> rnd x"
  using mono[of c x] by simp

lemma nonneg: "0 \<le> x \<Longrightarrow> 0 \<le> rnd x"
  by (rule ge_exact) simp_all

lemma nonpos: "x \<le> 0 \<Longrightarrow> rnd x \<le> 0"
  by (rule le_exact) simp_all

lemma le_one: "x \<le> 1 \<Longrightarrow> rnd x \<le> 1"
  by (rule le_exact) simp_all

lemma strict_by_dyadic:
  assumes "x \<le> a" and "a < b" and "b \<le> y" and "rnd a = a" and "rnd b = b"
  shows "rnd x < rnd y"
  using le_exact[of a x] ge_exact[of b y] assms by linarith

end

interpretation fl: rounding rnd64
  by unfold_locales (simp_all add: rnd64_mono rnd64_idem rnd64_dyadic)

text \<open>Fractions with a small power of two below are exact; these evaluate literals.\<close>

lemma rnd64_half: "\<bar>m\<bar> < 2 ^ 53 \<Longrightarrow> rnd64 (of_int m / 2) = of_int m / 2"
  using fl.dyadic[of m 1] by simp

lemma rnd64_quarter: "\<bar>m\<bar> < 2 ^ 53 \<Longrightarrow> rnd64 (of_int m / 4) = of_int m / 4"
  using fl.dyadic[of m 2] by simp

lemma rnd64_eighth: "\<bar>m\<bar> < 2 ^ 53 \<Longrightarrow> rnd64 (of_int m / 8) = of_int m / 8"
  using fl.dyadic[of m 3] by simp

lemma rnd64_half_numeral [simp]: "(numeral w :: int) < 2 ^ 53 \<Longrightarrow> rnd64 (numeral w / 2) = numeral w / 2"
  using rnd64_half[of "numeral w"] by simp

lemma rnd64_quarter_numeral [simp]: "(numeral w :: int) < 2 ^ 53 \<Longrightarrow> rnd64 (numeral w / 4) = numeral w / 4"
  using rnd64_quarter[of "numeral w"] by simp

lemma rnd64_eighth_numeral [simp]: "(numeral w :: int) < 2 ^ 53 \<Longrightarrow> rnd64 (numeral w / 8) = numeral w / 8"
  using rnd64_eighth[of "numeral w"] by simp

lemma rnd64_one_half [simp]: "rnd64 (1 / 2) = 1 / 2"
  using rnd64_half[of 1] by simp

lemma rnd64_one_quarter [simp]: "rnd64 (1 / 4) = 1 / 4"
  using rnd64_quarter[of 1] by simp

lemma rnd64_one_eighth [simp]: "rnd64 (1 / 8) = 1 / 8"
  using rnd64_eighth[of 1] by simp

lemma rnd64_over_16 [simp]:
  "(numeral w :: int) < 2 ^ 53 \<Longrightarrow> rnd64 (numeral w / 16) = numeral w / 16" "rnd64 (1 / 16) = 1 / 16"
  using fl.dyadic[of "numeral w" 4] fl.dyadic[of 1 4] by simp_all

lemma rnd64_over_32 [simp]:
  "(numeral w :: int) < 2 ^ 53 \<Longrightarrow> rnd64 (numeral w / 32) = numeral w / 32" "rnd64 (1 / 32) = 1 / 32"
  using fl.dyadic[of "numeral w" 5] fl.dyadic[of 1 5] by simp_all

lemma rnd64_over_64 [simp]:
  "(numeral w :: int) < 2 ^ 53 \<Longrightarrow> rnd64 (numeral w / 64) = numeral w / 64" "rnd64 (1 / 64) = 1 / 64"
  using fl.dyadic[of "numeral w" 6] fl.dyadic[of 1 6] by simp_all

lemma rnd64_over_256 [simp]:
  "(numeral w :: int) < 2 ^ 53 \<Longrightarrow> rnd64 (numeral w / 256) = numeral w / 256" "rnd64 (1 / 256) = 1 / 256"
  using fl.dyadic[of "numeral w" 8] fl.dyadic[of 1 8] by simp_all

lemma rnd64_over_512 [simp]:
  "(numeral w :: int) < 2 ^ 53 \<Longrightarrow> rnd64 (numeral w / 512) = numeral w / 512" "rnd64 (1 / 512) = 1 / 512"
  using fl.dyadic[of "numeral w" 9] fl.dyadic[of 1 9] by simp_all

lemma rnd64_minus_divide [simp]: "rnd64 (- (x / y)) = - rnd64 (x / y)"
  by (rule rnd64_minus)

section \<open>Operations\<close>

text \<open>
  One abbreviation per rounded operation of the sources: the arithmetic operators and the calls
  of \<^verbatim>\<open><cmath>\<close>. Comparison, negation and \<^verbatim>\<open>std::abs\<close> are exact. A decimal literal of the
  sources is the double nearest to it.
\<close>

abbreviation lit :: "real \<Rightarrow> real" where "lit x \<equiv> rnd64 x"
abbreviation fadd :: "real \<Rightarrow> real \<Rightarrow> real" where "fadd x y \<equiv> rnd64 (x + y)"
abbreviation fsub :: "real \<Rightarrow> real \<Rightarrow> real" where "fsub x y \<equiv> rnd64 (x - y)"
abbreviation fmul :: "real \<Rightarrow> real \<Rightarrow> real" where "fmul x y \<equiv> rnd64 (x * y)"
abbreviation fdiv :: "real \<Rightarrow> real \<Rightarrow> real" where "fdiv x y \<equiv> rnd64 (x / y)"
abbreviation fexp :: "real \<Rightarrow> real" where "fexp x \<equiv> rnd64 (exp x)"
abbreviation flog2 :: "real \<Rightarrow> real" where "flog2 x \<equiv> rnd64 (log 2 x)"
abbreviation fsqrt :: "real \<Rightarrow> real" where "fsqrt x \<equiv> rnd64 (sqrt x)"

text \<open>The result of an exact computation on small integers is exact.\<close>

lemma fadd_nat: "m + n < 2 ^ 53 \<Longrightarrow> fadd (real m) (real n) = real (m + n)"
  using fl.of_nat_exact[of "m + n"] by simp

text \<open>A quotient of counts is a ratio.\<close>

lemma fdiv_ratio: "0 \<le> x \<Longrightarrow> x \<le> y \<Longrightarrow> 0 \<le> fdiv x y \<and> fdiv x y \<le> 1"
  by (cases "y = 0") (auto intro: fl.nonneg fl.le_one simp: divide_le_eq_1)

end
