(* ===== verification/Prism_Types.thy ===== *)
theory Prism_Types
  imports Double
begin

text \<open>
  The data types of \<^verbatim>\<open>PRISM/include/prism.hpp\<close>: packets, parsed records, windows, feature
  vectors, detection results, risk decisions and alerts, with the default member initialisers
  of the header, and the message format of the logger (\<^verbatim>\<open>prism.hpp\<close> and its out-of-line copy
  \<^verbatim>\<open>utils/logger.cpp\<close>).

  A \<^verbatim>\<open>steady_clock\<close> time point is its count of nanoseconds, an integer.
\<close>

type_synonym timestamp = int

record raw_packet =
  pkt_timestamp :: timestamp
  payload :: bytes
  srcIp :: string
  dstIp :: string
  srcPort :: u16
  dstPort :: u16

record parsed_record =
  rec_timestamp :: timestamp
  protocol :: string
  isRequest :: bool
  isWrite :: bool
  functionCode :: u8
  address :: u16

text \<open>The value-initialised record \<^verbatim>\<open>ParsedRecord{}\<close>.\<close>

definition ParsedRecord_init :: parsed_record where
  "ParsedRecord_init = \<lparr>rec_timestamp = 0, protocol = '''', isRequest = True, isWrite = False,
     functionCode = 0, address = 0\<rparr>"

record window =
  startTime :: timestamp
  endTime :: timestamp
  records :: "parsed_record list"

record feature_vector =
  feature_values :: "real list"

record detection_result =
  hstScore :: real
  burstScore :: real

datatype risk_level = Low | Medium | High

record risk_decision =
  level :: risk_level
  escalate :: bool
  restrictWrites :: bool
  probability :: real

datatype alert_level = INFO | WARNING | CRITICAL

record alert_context =
  ctx_level :: alert_level
  riskProbability :: real
  ctx_message :: string

datatype proto = UNKNOWN | MODBUS | DNP3 | IEC104

text \<open>Risk levels are ordered as the enumeration lists them.\<close>

fun rank_of :: "risk_level \<Rightarrow> nat" where
  "rank_of Low = 0"
| "rank_of Medium = 1"
| "rank_of High = 2"

lemma rank_of_inject: "rank_of a = rank_of b \<Longrightarrow> a = b"
  by (cases a; cases b) auto

instantiation risk_level :: linorder
begin

definition less_eq_risk_level :: "risk_level \<Rightarrow> risk_level \<Rightarrow> bool" where
  "less_eq_risk_level a b \<longleftrightarrow> rank_of a \<le> rank_of b"

definition less_risk_level :: "risk_level \<Rightarrow> risk_level \<Rightarrow> bool" where
  "less_risk_level a b \<longleftrightarrow> rank_of a < rank_of b"

instance
  by standard
    (auto simp: less_eq_risk_level_def less_risk_level_def intro: rank_of_inject)

end

lemma High_greatest [simp]: "a \<le> High"
  by (cases a) (auto simp: less_eq_risk_level_def)

lemma Low_least [simp]: "Low \<le> a"
  by (cases a) (auto simp: less_eq_risk_level_def)

section \<open>The logger\<close>

text \<open>
  \<^verbatim>\<open>Logger::log\<close> writes one line to standard error under its mutex. The text of the current
  time (\<^verbatim>\<open>put_time\<close> with \<^verbatim>\<open>"%F %T"\<close> in the local time zone) is the argument \<^verbatim>\<open>now\<close>; standard
  error is the text written so far. The newline is \<^verbatim>\<open>CHR 0x0A\<close>.
\<close>

definition Logger_log :: "string \<Rightarrow> string \<Rightarrow> string \<Rightarrow> string \<Rightarrow> string" where
  "Logger_log now lvl msg err =
     err @ ''['' @ now @ ''] '' @ lvl @ '': '' @ msg @ [CHR 0x0A]"

definition Logger_info :: "string \<Rightarrow> string \<Rightarrow> string \<Rightarrow> string" where
  "Logger_info now msg err = Logger_log now ''INFO'' msg err"

definition Logger_warn :: "string \<Rightarrow> string \<Rightarrow> string \<Rightarrow> string" where
  "Logger_warn now msg err = Logger_log now ''WARN'' msg err"

definition Logger_error :: "string \<Rightarrow> string \<Rightarrow> string \<Rightarrow> string" where
  "Logger_error now msg err = Logger_log now ''ERROR'' msg err"

text \<open>The out-of-line copies in \<^verbatim>\<open>utils/logger.cpp\<close> repeat the body with the level inlined.\<close>

definition logger_cpp_info :: "string \<Rightarrow> string \<Rightarrow> string \<Rightarrow> string" where
  "logger_cpp_info now msg err =
     (let lvl = ''INFO'' in err @ ''['' @ now @ ''] '' @ lvl @ '': '' @ msg @ [CHR 0x0A])"

definition logger_cpp_warn :: "string \<Rightarrow> string \<Rightarrow> string \<Rightarrow> string" where
  "logger_cpp_warn now msg err =
     (let lvl = ''WARN'' in err @ ''['' @ now @ ''] '' @ lvl @ '': '' @ msg @ [CHR 0x0A])"

definition logger_cpp_error :: "string \<Rightarrow> string \<Rightarrow> string \<Rightarrow> string" where
  "logger_cpp_error now msg err =
     (let lvl = ''ERROR'' in err @ ''['' @ now @ ''] '' @ lvl @ '': '' @ msg @ [CHR 0x0A])"

lemma logger_copies_agree:
  "logger_cpp_info = Logger_info" "logger_cpp_warn = Logger_warn" "logger_cpp_error = Logger_error"
  by (simp_all add: fun_eq_iff logger_cpp_info_def logger_cpp_warn_def logger_cpp_error_def
      Logger_info_def Logger_warn_def Logger_error_def Logger_log_def)

text \<open>
  The components call the logger with a level and a message; a \<^verbatim>\<open>log_call\<close> is one such call, and
  \<^verbatim>\<open>emit\<close> what it does to standard error.
\<close>

datatype log_call = Info string | Warn string | Error string

fun emit :: "string \<Rightarrow> log_call \<Rightarrow> string \<Rightarrow> string" where
  "emit now (Info msg) err = Logger_info now msg err"
| "emit now (Warn msg) err = Logger_warn now msg err"
| "emit now (Error msg) err = Logger_error now msg err"

end
