(* ===== verification/Flow_Table.thy ===== *)
theory Flow_Table
  imports Prism_Types
begin

text \<open>
  The flow table of \<^verbatim>\<open>parser/flow_table.cpp\<close>: a hash map from directed address and port
  quadruples to the direction of the client and the time of the last packet. \<^verbatim>\<open>classify\<close> looks
  the packet's key up forwards, then backwards, and otherwise opens a flow whose initiator is the
  client. The table is a map; \<^verbatim>\<open>std::hash\<close> of a string is a parameter of the hash function.

  The lemmas show what a run of the table from empty computes: an entry exists exactly for the
  direction in which a connection was first seen, so the reported direction of every packet is
  relative to the first packet of its connection.
\<close>

unbundle bit_operations_syntax

record flow_key =
  src :: string
  dst :: string
  sport :: u16
  dport :: u16

definition FlowKey_eq :: "flow_key \<Rightarrow> flow_key \<Rightarrow> bool" where
  "FlowKey_eq k o' \<longleftrightarrow> src k = src o' \<and> dst k = dst o' \<and> sport k = sport o' \<and> dport k = dport o'"

definition FlowKeyHash :: "(string \<Rightarrow> 64 word) \<Rightarrow> flow_key \<Rightarrow> 64 word" where
  "FlowKeyHash hash k =
     hash (src k) XOR hash (dst k) XOR push_bit 1 (ucast (sport k)) XOR push_bit 2 (ucast (dport k))"

record flow_state =
  client_is_src :: bool
  last_seen :: timestamp

type_synonym flow_table = "flow_key \<rightharpoonup> flow_state"

definition forward_key :: "raw_packet \<Rightarrow> flow_key" where
  "forward_key pkt = \<lparr>src = srcIp pkt, dst = dstIp pkt, sport = srcPort pkt, dport = dstPort pkt\<rparr>"

definition reverse_key :: "raw_packet \<Rightarrow> flow_key" where
  "reverse_key pkt = \<lparr>src = dstIp pkt, dst = srcIp pkt, sport = dstPort pkt, dport = srcPort pkt\<rparr>"

definition FlowTable_classify :: "flow_table \<Rightarrow> raw_packet \<Rightarrow> flow_state \<times> flow_table" where
  "FlowTable_classify table pkt =
    (let k = forward_key pkt; r = reverse_key pkt; now = pkt_timestamp pkt in
     case table k of
       Some st \<Rightarrow>
         (let st' = st\<lparr>last_seen := now\<rparr> in (st', table(k \<mapsto> st')))
     | None \<Rightarrow>
         (case table r of
            Some st \<Rightarrow>
              (let st' = st\<lparr>last_seen := now\<rparr>;
                   fs = st'\<lparr>client_is_src := \<not> client_is_src st'\<rparr>
               in (fs, table(r \<mapsto> st')))
          | None \<Rightarrow>
              (let fs = \<lparr>client_is_src = True, last_seen = now\<rparr> in (fs, table(k \<mapsto> fs)))))"

fun flow_run :: "flow_table \<Rightarrow> raw_packet list \<Rightarrow> flow_table" where
  "flow_run table [] = table"
| "flow_run table (pkt # pkts) = flow_run (snd (FlowTable_classify table pkt)) pkts"

section \<open>Keys\<close>

lemma FlowKey_eq_iff: "FlowKey_eq k o' \<longleftrightarrow> k = o'"
  by (cases k; cases o') (simp add: FlowKey_eq_def)

definition swap_key :: "flow_key \<Rightarrow> flow_key" where
  "swap_key k = \<lparr>src = dst k, dst = src k, sport = dport k, dport = sport k\<rparr>"

lemma swap_swap [simp]: "swap_key (swap_key k) = k"
  by (cases k) (simp add: swap_key_def)

lemma swap_eq_iff: "swap_key a = b \<longleftrightarrow> a = swap_key b"
  by (metis swap_swap)

lemma reverse_key_swap: "reverse_key pkt = swap_key (forward_key pkt)"
  by (simp add: reverse_key_def forward_key_def swap_key_def)

section \<open>What a run computes\<close>

text \<open>The first packet, in either direction, of the connection that the key belongs to.\<close>

definition opener :: "raw_packet list \<Rightarrow> flow_key \<Rightarrow> raw_packet option" where
  "opener pkts k = List.find (\<lambda>q. forward_key q = k \<or> forward_key q = swap_key k) pkts"

lemma opener_append:
  "opener (pkts @ [q]) k =
     (case opener pkts k of Some x \<Rightarrow> Some x
      | None \<Rightarrow> if forward_key q = k \<or> forward_key q = swap_key k then Some q else None)"
  by (induction pkts) (auto simp: opener_def)

lemma opener_swap: "opener pkts (swap_key k) = opener pkts k"
  by (simp add: opener_def disj_commute)

lemma opener_key:
  "opener pkts k = Some q \<Longrightarrow> forward_key q = k \<or> forward_key q = swap_key k"
  by (auto simp: opener_def find_Some_iff)

lemma flow_run_append: "flow_run t (xs @ ys) = flow_run (flow_run t xs) ys"
  by (induction xs arbitrary: t) auto

definition flow_table_ok :: "flow_table \<Rightarrow> raw_packet list \<Rightarrow> bool" where
  "flow_table_ok t pkts \<longleftrightarrow>
     (\<forall>k. (t k \<noteq> None) \<longleftrightarrow> (\<exists>q. opener pkts k = Some q \<and> forward_key q = k)) \<and>
     (\<forall>k st. t k = Some st \<longrightarrow> client_is_src st)"

lemma flow_table_ok_entry:
  assumes "flow_table_ok t pkts"
  shows "t k \<noteq> None \<longleftrightarrow> (\<exists>q. opener pkts k = Some q \<and> forward_key q = k)"
    and "t k = Some st \<Longrightarrow> client_is_src st"
  using assms unfolding flow_table_ok_def by blast+

lemma flow_table_ok_opener:
  assumes ok: "flow_table_ok t pkts"
  shows "opener pkts k = None \<longleftrightarrow> t k = None \<and> t (swap_key k) = None"
proof -
  have "opener pkts k = None \<longleftrightarrow>
      (\<nexists>q. opener pkts k = Some q \<and> forward_key q = k) \<and>
      (\<nexists>q. opener pkts (swap_key k) = Some q \<and> forward_key q = swap_key k)"
    using opener_key[of pkts k] by (cases "opener pkts k") (auto simp: opener_swap)
  then show ?thesis
    using flow_table_ok_entry(1)[OF ok, of k] flow_table_ok_entry(1)[OF ok, of "swap_key k"] by blast
qed

lemma classify_keeps_ok:
  assumes ok: "flow_table_ok t pkts"
  shows "flow_table_ok (snd (FlowTable_classify t q)) (pkts @ [q])"
proof (cases "opener pkts (forward_key q)")
  case None
  then have none: "t (forward_key q) = None" "t (reverse_key q) = None"
    using flow_table_ok_opener[OF ok] by (simp_all add: reverse_key_swap)
  show ?thesis
    unfolding flow_table_ok_def
  proof (intro conjI allI impI)
    fix k
    show "(snd (FlowTable_classify t q) k \<noteq> None) \<longleftrightarrow>
        (\<exists>x. opener (pkts @ [q]) k = Some x \<and> forward_key x = k)"
    proof (cases "forward_key q = k \<or> forward_key q = swap_key k")
      case True
      then have "opener pkts k = None"
        using None by (auto simp: opener_swap)
      moreover from this have "t k = None"
        using flow_table_ok_opener[OF ok] by blast
      ultimately show ?thesis
        using none True by (auto simp: FlowTable_classify_def Let_def opener_append)
    next
      case False
      then show ?thesis
        using none flow_table_ok_entry(1)[OF ok, of k]
        by (auto simp: FlowTable_classify_def Let_def opener_append split: option.splits)
    qed
  next
    fix k st
    assume "snd (FlowTable_classify t q) k = Some st"
    then show "client_is_src st"
      using none flow_table_ok_entry(2)[OF ok]
      by (auto simp: FlowTable_classify_def Let_def split: if_splits)
  qed
next
  case (Some x)
  then have same: "opener (pkts @ [q]) k = opener pkts k" for k
    by (auto simp: opener_append opener_swap split: option.splits)
  have some: "t (forward_key q) \<noteq> None \<or> t (reverse_key q) \<noteq> None"
    using Some flow_table_ok_opener[OF ok, of "forward_key q"] by (auto simp: reverse_key_swap)
  have dom: "dom (snd (FlowTable_classify t q)) = dom t"
    using some by (auto simp: FlowTable_classify_def Let_def split: option.splits if_splits)
  have flags: "client_is_src st" if "snd (FlowTable_classify t q) k = Some st" for k st
    using that some flow_table_ok_entry(2)[OF ok]
    by (auto simp: FlowTable_classify_def Let_def split: option.splits if_splits)
  from dom have "snd (FlowTable_classify t q) k \<noteq> None \<longleftrightarrow> t k \<noteq> None" for k
    by (metis domIff)
  then show ?thesis
    unfolding flow_table_ok_def same using flow_table_ok_entry(1)[OF ok] flags by blast
qed

lemma flow_run_ok: "flow_table_ok (flow_run Map.empty pkts) pkts"
proof (induction pkts rule: rev_induct)
  case Nil
  show ?case by (simp add: flow_table_ok_def opener_def)
next
  case (snoc q pkts)
  then show ?case
    using classify_keeps_ok by (simp add: flow_run_append)
qed

lemma classify_result:
  assumes ok: "flow_table_ok t pkts"
  shows "client_is_src (fst (FlowTable_classify t q)) \<longleftrightarrow>
         (\<exists>x. opener (pkts @ [q]) (forward_key q) = Some x \<and> forward_key x = forward_key q)"
proof (cases "t (forward_key q)")
  case (Some st)
  then have "\<exists>x. opener pkts (forward_key q) = Some x \<and> forward_key x = forward_key q"
    using flow_table_ok_entry(1)[OF ok] by blast
  then show ?thesis
    using Some flow_table_ok_entry(2)[OF ok Some]
    by (auto simp: FlowTable_classify_def Let_def opener_append)
next
  case None
  show ?thesis
  proof (cases "t (reverse_key q)")
    case (Some st)
    then obtain x where x: "opener pkts (forward_key q) = Some x"
      using flow_table_ok_opener[OF ok, of "forward_key q"]
      by (cases "opener pkts (forward_key q)") (auto simp: reverse_key_swap)
    then have "forward_key x \<noteq> forward_key q"
      using None flow_table_ok_entry(1)[OF ok, of "forward_key q"] by auto
    then show ?thesis
      using None Some x flow_table_ok_entry(2)[OF ok Some]
      by (auto simp: FlowTable_classify_def Let_def opener_append)
  next
    case None
    with \<open>t (forward_key q) = None\<close> have "opener pkts (forward_key q) = None"
      using flow_table_ok_opener[OF ok] by (simp add: reverse_key_swap)
    then show ?thesis
      using None \<open>t (forward_key q) = None\<close>
      by (auto simp: FlowTable_classify_def Let_def opener_append)
  qed
qed

section \<open>Properties\<close>

text \<open>
  C31. The direction of a flow. After any sequence of packets, the table reports a packet as
  sent by the client exactly when the first packet ever seen between these two endpoints, in
  either direction, travelled the same way.
\<close>

theorem flow_direction_is_openers:
  "client_is_src (fst (FlowTable_classify (flow_run Map.empty pkts) pkt)) \<longleftrightarrow>
     (\<exists>q. List.find (\<lambda>q. forward_key q = forward_key pkt \<or> forward_key q = reverse_key pkt) (pkts @ [pkt]) = Some q
        \<and> forward_key q = forward_key pkt)"
  using classify_result[OF flow_run_ok] by (simp add: opener_def reverse_key_swap)

end
