(* ===== verification/Format.thy ===== *)
theory Format
  imports Double
begin

text \<open>
  Text output of numbers: \<^verbatim>\<open>std::to_string\<close> of a non-negative integer, \<^verbatim>\<open>std::fixed\<close> output of a
  double with a given precision, and the dotted text of an IPv4 address that \<^verbatim>\<open>inet_ntop\<close> writes.
  \<^verbatim>\<open>digits_value\<close> reads digits back, and the lemmas show that printing is injective.
\<close>

definition digit_char :: "nat \<Rightarrow> char" where
  "digit_char d = char_of (48 + d)"

definition digit_value :: "char \<Rightarrow> nat" where
  "digit_value c = of_char c - 48"

definition is_digit :: "char \<Rightarrow> bool" where
  "is_digit c \<longleftrightarrow> 48 \<le> (of_char c :: nat) \<and> (of_char c :: nat) \<le> 57"

fun nat_str :: "nat \<Rightarrow> string" where
  "nat_str n = (if n < 10 then [digit_char n] else nat_str (n div 10) @ [digit_char (n mod 10)])"

declare nat_str.simps [simp del]

definition digits_value :: "string \<Rightarrow> nat" where
  "digits_value s = foldl (\<lambda>a c. 10 * a + digit_value c) 0 s"

lemma digit_char_value [simp]: "d < 10 \<Longrightarrow> digit_value (digit_char d) = d"
  by (simp add: digit_value_def digit_char_def)

lemma is_digit_char [simp]: "d < 10 \<Longrightarrow> is_digit (digit_char d)"
  by (simp add: is_digit_def digit_char_def)

lemma digits_value_snoc: "digits_value (s @ [c]) = 10 * digits_value s + digit_value c"
  by (simp add: digits_value_def)

lemma digits_value_nat_str [simp]: "digits_value (nat_str n) = n"
proof (induction n rule: nat_str.induct)
  case (1 n)
  show ?case
  proof (cases "n < 10")
    case True
    then show ?thesis
      by (subst nat_str.simps) (simp add: digits_value_def)
  next
    case False
    then show ?thesis
      using 1 by (subst nat_str.simps) (simp add: digits_value_snoc)
  qed
qed

lemma nat_str_digits: "\<forall>c \<in> set (nat_str n). is_digit c"
proof (induction n rule: nat_str.induct)
  case (1 n)
  then show ?case
    by (subst nat_str.simps) auto
qed

lemma nat_str_nonempty [simp]: "nat_str n \<noteq> []"
  by (subst nat_str.simps) simp

lemma nat_str_inject: "nat_str m = nat_str n \<longleftrightarrow> m = n"
  by (metis digits_value_nat_str)

lemma nat_str_no_dot: "CHR ''.'' \<notin> set (nat_str n)"
  using nat_str_digits[of n] by (auto simp: is_digit_def)

text \<open>The dash of the messages is the three UTF-8 bytes of U+2014.\<close>

definition em_dash :: string where
  "em_dash = [CHR 0xE2, CHR 0x80, CHR 0x94]"

text \<open>\<^verbatim>\<open>printf("%d")\<close>.\<close>

definition int_str :: "int \<Rightarrow> string" where
  "int_str i = (if i < 0 then ''-'' else '''') @ nat_str (nat \<bar>i\<bar>)"

section \<open>Fixed-point output\<close>

text \<open>
  \<^verbatim>\<open>ostringstream << std::fixed << std::setprecision(k)\<close>: the exact decimal value of the double,
  rounded half to even at the \<^verbatim>\<open>k\<close>-th digit after the point, which the C library prints for finite values.
\<close>

definition pad_zeros :: "nat \<Rightarrow> string \<Rightarrow> string" where
  "pad_zeros k s = replicate (k - length s) (CHR ''0'') @ s"

definition fixed_str :: "nat \<Rightarrow> real \<Rightarrow> string" where
  "fixed_str k x =
    (let m = nat (rne (\<bar>x\<bar> * 10 ^ k)); q = m div 10 ^ k; r = m mod 10 ^ k
     in (if x < 0 then ''-'' else '''') @ nat_str q @ (if k = 0 then '''' else ''.'' @ pad_zeros k (nat_str r)))"

section \<open>Dotted addresses\<close>

fun dotted :: "nat list \<Rightarrow> string" where
  "dotted [] = ''''"
| "dotted [n] = nat_str n"
| "dotted (n # ns) = nat_str n @ ''.'' @ dotted ns"

lemma split_at_dot:
  assumes "CHR ''.'' \<notin> set a" and "CHR ''.'' \<notin> set b" and "a @ CHR ''.'' # x = b @ CHR ''.'' # y"
  shows "a = b \<and> x = y"
  using assms
proof (induction a arbitrary: b)
  case Nil
  then show ?case by (cases b) auto
next
  case (Cons c a)
  then show ?case by (cases b) auto
qed

lemma dotted_no_dot: "CHR ''.'' \<in> set (dotted ns) \<longleftrightarrow> 1 < length ns"
  by (induction ns rule: dotted.induct) (auto simp: nat_str_no_dot)

lemma dotted_inject: "ms \<noteq> [] \<Longrightarrow> ns \<noteq> [] \<Longrightarrow> dotted ms = dotted ns \<Longrightarrow> ms = ns"
proof (induction ms arbitrary: ns rule: dotted.induct)
  case (2 m)
  then show ?case
    using dotted_no_dot[of ns] dotted_no_dot[of "[m]"] by (cases ns; cases "tl ns") (auto simp: nat_str_inject)
next
  case (3 m m' ms)
  then have "1 < length ns"
    using dotted_no_dot[of ns] dotted_no_dot[of "m # m' # ms"] by simp
  then obtain n n' ns' where ns: "ns = n # n' # ns'"
    by (cases ns; cases "tl ns") auto
  have "nat_str m @ CHR ''.'' # dotted (m' # ms) = nat_str n @ CHR ''.'' # dotted (n' # ns')"
    using 3(4) by (simp add: ns)
  then have "nat_str m = nat_str n \<and> dotted (m' # ms) = dotted (n' # ns')"
    by (intro split_at_dot nat_str_no_dot)
  then show ?case
    using 3(1)[of "n' # ns'"] by (simp add: ns nat_str_inject)
qed simp

end
