(* ===== verification/Sockets.thy ===== *)
theory Sockets
  imports Format
begin

text \<open>
  The POSIX socket calls that the enforcement engine and the simulator make. The kernel's answers are
  arguments of the models; each model returns the calls it made, in order, as a list of events.
  \<^verbatim>\<open>fds_after\<close> reads off a list of events which descriptors are open at its end.

  An operation that closes whatever it opens is an instance of the locale \<^verbatim>\<open>fd_neutral\<close>, whose lemma
  extends this to whole runs; every client, server iteration and the enforcement engine interpret it.
\<close>

datatype event =
    Socket int
  | Setsockopt int
  | Resolve string bool
  | Bind int u16 int
  | Listen int int int
  | Connect int string u16 int
  | Accept int int
  | Recv int nat
  | Send int bytes
  | Send_out_of_bounds int
  | Close int

text \<open>
  The C library converts the port with \<^verbatim>\<open>htons(port)\<close>, which reduces an \<^verbatim>\<open>int\<close> to 16 bits first.
\<close>

definition port_of_int :: "int \<Rightarrow> u16" where
  "port_of_int port = word_of_int port"

text \<open>\<^verbatim>\<open>read\<close> into a buffer: the pending bytes that fit, or \<^verbatim>\<open>None\<close> for an error.\<close>

definition sys_read :: "nat \<Rightarrow> bytes option \<Rightarrow> bytes option" where
  "sys_read cap pending = map_option (take cap) pending"

section \<open>Open descriptors\<close>

fun track :: "event \<Rightarrow> int list \<Rightarrow> int list" where
  "track (Socket r) fds = (if r < 0 then fds else r # fds)"
| "track (Accept s r) fds = (if r < 0 then fds else r # fds)"
| "track (Close r) fds = remove1 r fds"
| "track _ fds = fds"

definition fds_after :: "event list \<Rightarrow> int list \<Rightarrow> int list" where
  "fds_after evs fds = fold track evs fds"

lemma fds_after_Nil [simp]: "fds_after [] fds = fds"
  by (simp add: fds_after_def)

lemma fds_after_Cons [simp]: "fds_after (e # evs) fds = fds_after evs (track e fds)"
  by (simp add: fds_after_def)

lemma fds_after_append [simp]: "fds_after (xs @ ys) fds = fds_after ys (fds_after xs fds)"
  by (simp add: fds_after_def)

section \<open>Operations that close what they open\<close>

text \<open>\<^verbatim>\<open>run\<close> is the state after an input and \<^verbatim>\<open>evs\<close> the events it causes.\<close>

locale fd_neutral =
  fixes run :: "'i \<Rightarrow> 's \<Rightarrow> 's"
    and evs :: "'i \<Rightarrow> 's \<Rightarrow> event list"
  assumes neutral: "fds_after (evs i s) fds = fds"
begin

fun trace :: "'i list \<Rightarrow> 's \<Rightarrow> event list" where
  "trace [] s = []"
| "trace (i # is) s = evs i s @ trace is (run i s)"

lemma trace_append: "trace (is @ js) s = trace is s @ trace js (fold run is s)"
  by (induction "is" arbitrary: s) simp_all

lemma trace_neutral: "fds_after (trace is s) fds = fds"
  by (induction "is" arbitrary: s) (simp_all add: neutral)

end

end
