(* ===== verification/Sim_Modbus.thy ===== *)
theory Sim_Modbus
  imports Sockets
begin

text \<open>
  The Modbus half of the simulator: the shared codec of \<^verbatim>\<open>proto/modbus/common.hpp\<close>, the PLC server
  \<^verbatim>\<open>proto/modbus/server.cpp\<close> with its global write lock, and the client \<^verbatim>\<open>proto/modbus/client.cpp\<close> with its
  own frame encoder.

  One iteration of the server loop is \<^verbatim>\<open>serve_conn\<close>; the infinite loop is a run over the connections
  it accepts. The kernel's answers are in the records \<^verbatim>\<open>conn\<close> and \<^verbatim>\<open>client_io\<close>. Lines printed to standard
  output are returned, in order.
\<close>

section \<open>The codec\<close>

record pdu =
  pdu_function :: u8
  pdu_address :: u16
  pdu_value :: u16

definition PDU_init :: pdu where
  "PDU_init = \<lparr>pdu_function = 0, pdu_address = 0, pdu_value = 0\<rparr>"

definition encode_mbap_pdu :: "pdu \<Rightarrow> bytes" where
  "encode_mbap_pdu p =
    [0x00, 0x01, 0x00, 0x00, 0x00, 0x06, 0x01,
     pdu_function p, hi8 (pdu_address p), lo8 (pdu_address p), hi8 (pdu_value p), lo8 (pdu_value p)]"

definition encode_exception :: "u8 \<Rightarrow> u8 \<Rightarrow> bytes" where
  "encode_exception fc exception_code =
    [0x00, 0x01, 0x00, 0x00, 0x00, 0x03, 0x01, fc OR 0x80, exception_code]"

definition decode_mbap_pdu :: "bytes \<Rightarrow> pdu" where
  "decode_mbap_pdu b =
    (if length b < 12 then PDU_init
     else \<lparr>pdu_function = b ! 7, pdu_address = be16 (b ! 8) (b ! 9), pdu_value = be16 (b ! 10) (b ! 11)\<rparr>)"

interpretation mbap: codec encode_mbap_pdu decode_mbap_pdu
  by unfold_locales (simp add: encode_mbap_pdu_def decode_mbap_pdu_def byte_simps)

section \<open>The PLC\<close>

record plc =
  write_locked :: bool

definition is_write_fc :: "u8 \<Rightarrow> bool" where
  "is_write_fc fc \<longleftrightarrow> fc = 5 \<or> fc = 6 \<or> fc = 15 \<or> fc = 16"

definition rx_line :: "pdu \<Rightarrow> string" where
  "rx_line p = ''[modbus] RX fn='' @ nat_str (unat (pdu_function p)) @ '' addr='' @
     nat_str (unat (pdu_address p)) @ '' val='' @ nat_str (unat (pdu_value p))"

text \<open>The handler: the bytes of one read, the lock, and what is written back.\<close>

definition handle_request :: "bytes \<Rightarrow> plc \<Rightarrow> plc \<times> bytes \<times> string list" where
  "handle_request v s =
    (let p = decode_mbap_pdu v in
     if pdu_address p = 0xFFFF \<and> pdu_function p = 5 then
       if pdu_value p = 0xFF00 then
         (s\<lparr>write_locked := True\<rparr>, encode_mbap_pdu p,
          [rx_line p, ''[modbus] SAFETY COIL ENGAGED '' @ em_dash @ '' writes locked''])
       else if pdu_value p = 0x0000 then
         (s\<lparr>write_locked := False\<rparr>, encode_mbap_pdu p,
          [rx_line p, ''[modbus] SAFETY COIL RELEASED '' @ em_dash @ '' writes allowed''])
       else (s, encode_mbap_pdu p, [rx_line p])
     else if write_locked s \<and> is_write_fc (pdu_function p) then
       (s, encode_exception (pdu_function p) 0x01,
        [rx_line p, ''[modbus] BLOCKED fn='' @ nat_str (unat (pdu_function p)) @ '' (write-locked)''])
     else (s, encode_mbap_pdu p, [rx_line p]))"

record conn =
  accept_ret :: int
  incoming :: "bytes option"

definition serve_conn :: "int \<Rightarrow> conn \<Rightarrow> plc \<Rightarrow> plc \<times> event list \<times> string list" where
  "serve_conn fd c s =
    (let cfd = accept_ret c in
     if cfd < 0 then (s, [Accept fd cfd], [])
     else case sys_read 256 (incoming c) of
       None \<Rightarrow> (s, [Accept fd cfd, Recv cfd 256, Close cfd], [])
     | Some v \<Rightarrow>
         if v = [] then (s, [Accept fd cfd, Recv cfd 256, Close cfd], [])
         else case handle_request v s of
           (s, resp, lines) \<Rightarrow> (s, [Accept fd cfd, Recv cfd 256, Send cfd resp, Close cfd], lines))"

definition serve_state :: "int \<Rightarrow> conn \<Rightarrow> plc \<Rightarrow> plc" where
  "serve_state fd c s = fst (serve_conn fd c s)"

definition serve_events :: "int \<Rightarrow> conn \<Rightarrow> plc \<Rightarrow> event list" where
  "serve_events fd c s = fst (snd (serve_conn fd c s))"

fun serve_loop :: "int \<Rightarrow> conn list \<Rightarrow> plc \<Rightarrow> plc \<times> event list \<times> string list" where
  "serve_loop fd [] s = (s, [], [])"
| "serve_loop fd (c # cs) s =
     (let (s1, evs, ls) = serve_conn fd c s; (s2, evs', ls') = serve_loop fd cs s1
      in (s2, evs @ evs', ls @ ls'))"

text \<open>
  \<^verbatim>\<open>start_server\<close> returns 1 when the socket or the bind fails; the result of \<^verbatim>\<open>listen\<close> is ignored. Otherwise it never
  returns, and the result describes it after the connections \<^verbatim>\<open>cs\<close>.
\<close>

definition modbus_start_server ::
  "int \<Rightarrow> int \<Rightarrow> int \<Rightarrow> int \<Rightarrow> conn list \<Rightarrow> plc \<Rightarrow> int option \<times> plc \<times> event list \<times> string list" where
  "modbus_start_server port socket_r bind_r listen_r cs s =
    (let fd = socket_r in
     if fd < 0 then (Some 1, s, [Socket fd], [])
     else if bind_r < 0 then (Some 1, s, [Socket fd, Bind fd (port_of_int port) bind_r, Close fd], [])
     else case serve_loop fd cs s of
       (s, evs, lines) \<Rightarrow>
         (None, s, [Socket fd, Bind fd (port_of_int port) bind_r, Listen fd 1 listen_r] @ evs,
          (''[modbus] listening on '' @ int_str port) # lines))"

section \<open>The client\<close>

record client_pdu =
  transaction :: u16
  cl_protocol :: u16
  cl_length :: u16
  unit_id :: u8
  cl_fn :: u8
  cl_addr :: u16
  cl_value :: u16

definition client_PDU_init :: client_pdu where
  "client_PDU_init = \<lparr>transaction = 1, cl_protocol = 0, cl_length = 6, unit_id = 1, cl_fn = 0, cl_addr = 0, cl_value = 0\<rparr>"

definition client_encode_mbap_pdu :: "client_pdu \<Rightarrow> bytes" where
  "client_encode_mbap_pdu p =
    [hi8 (transaction p), lo8 (transaction p), hi8 (cl_protocol p), lo8 (cl_protocol p),
     hi8 (cl_length p), lo8 (cl_length p), unit_id p, cl_fn p, hi8 (cl_addr p), lo8 (cl_addr p),
     hi8 (cl_value p), lo8 (cl_value p)]"

definition client_decode :: "bytes \<Rightarrow> client_pdu" where
  "client_decode b = \<lparr>transaction = be16 (b ! 0) (b ! 1), cl_protocol = be16 (b ! 2) (b ! 3),
     cl_length = be16 (b ! 4) (b ! 5), unit_id = b ! 6, cl_fn = b ! 7, cl_addr = be16 (b ! 8) (b ! 9),
     cl_value = be16 (b ! 10) (b ! 11)\<rparr>"

interpretation client_mbap: codec client_encode_mbap_pdu client_decode
  by unfold_locales (simp add: client_encode_mbap_pdu_def client_decode_def byte_simps)

text \<open>The static descriptor of \<^verbatim>\<open>run_client\<close> is the state \<^verbatim>\<open>client_fd\<close>; \<^verbatim>\<open>-1\<close> initially.\<close>

record client_io =
  cl_socket_ret :: int
  target_host :: "string option"
  resolved :: "string option"
  cl_connect_ret :: int
  send_ret :: int

definition client_host :: "client_io \<Rightarrow> string" where
  "client_host io = (case target_host io of None \<Rightarrow> ''127.0.0.1'' | Some h \<Rightarrow> h)"

definition modbus_connect :: "client_io \<Rightarrow> int \<Rightarrow> int \<Rightarrow> int \<times> event list" where
  "modbus_connect io port fd =
    (if 0 \<le> fd then (fd, [])
     else let fd = cl_socket_ret io in
       if fd < 0 then (fd, [Socket fd])
       else case resolved io of
         None \<Rightarrow> (- 1, [Socket fd, Resolve (client_host io) False, Close fd])
       | Some ip \<Rightarrow>
           if cl_connect_ret io < 0
           then (- 1, [Socket fd, Resolve (client_host io) True,
                       Connect fd ip (port_of_int port) (cl_connect_ret io), Close fd])
           else (fd, [Socket fd, Resolve (client_host io) True,
                      Connect fd ip (port_of_int port) (cl_connect_ret io)]))"

definition modbus_run_client :: "client_io \<Rightarrow> int \<Rightarrow> u8 \<Rightarrow> u16 \<Rightarrow> u16 \<Rightarrow> int \<Rightarrow> int \<times> int \<times> event list" where
  "modbus_run_client io port fn addr val fd0 =
    (case modbus_connect io port fd0 of
       (fd, evs) \<Rightarrow>
         if fd < 0 then (1, fd, evs)
         else let p = client_PDU_init\<lparr>cl_fn := fn, cl_addr := addr, cl_value := val\<rparr>;
                  buf = client_encode_mbap_pdu p in
           if send_ret io < 0 then (1, - 1, evs @ [Send fd buf, Close fd])
           else (0, fd, evs @ [Send fd buf, Recv fd 256]))"

section \<open>The lock\<close>

definition plc_step :: "bytes \<Rightarrow> plc \<Rightarrow> plc" where
  "plc_step v s = fst (handle_request v s)"

definition plc_response :: "bytes \<Rightarrow> plc \<Rightarrow> bytes" where
  "plc_response v s = fst (snd (handle_request v s))"

lemmas plc_parts = plc_step_def plc_response_def handle_request_def

text \<open>The two frames that move the lock.\<close>

definition safety_frame :: "bytes \<Rightarrow> bool" where
  "safety_frame v \<longleftrightarrow> pdu_address (decode_mbap_pdu v) = 0xFFFF \<and> pdu_function (decode_mbap_pdu v) = 5"

definition engage_frame :: "bytes \<Rightarrow> bool" where
  "engage_frame v \<longleftrightarrow> safety_frame v \<and> pdu_value (decode_mbap_pdu v) = 0xFF00"

definition release_frame :: "bytes \<Rightarrow> bool" where
  "release_frame v \<longleftrightarrow> safety_frame v \<and> pdu_value (decode_mbap_pdu v) = 0x0000"

lemma plc_step_lock:
  "write_locked (plc_step v s) \<longleftrightarrow> engage_frame v \<or> write_locked s \<and> \<not> release_frame v"
  by (auto simp: plc_parts engage_frame_def release_frame_def safety_frame_def Let_def)

lemma engage_not_release: "engage_frame v \<Longrightarrow> \<not> release_frame v"
  by (simp add: engage_frame_def release_frame_def)

lemma exception_is_no_echo: "encode_exception fc c \<noteq> encode_mbap_pdu p"
  by (simp add: encode_exception_def encode_mbap_pdu_def)

lemma serve_state_step:
  "serve_state fd c s =
    (if accept_ret c < 0 then s
     else case sys_read 256 (incoming c) of None \<Rightarrow> s | Some v \<Rightarrow> if v = [] then s else plc_step v s)"
  by (simp add: serve_state_def serve_conn_def plc_step_def Let_def split: option.split prod.split)

lemma serve_events_neutral: "fds_after (serve_events fd c s) fds = fds"
  by (auto simp: serve_events_def serve_conn_def Let_def split: option.split prod.split)

interpretation plc_fds: fd_neutral "serve_state fd" "serve_events fd" for fd
  by unfold_locales (rule serve_events_neutral)

lemma serve_loop_Cons:
  "serve_loop fd (c # cs) s =
    (fst (serve_loop fd cs (serve_state fd c s)),
     serve_events fd c s @ fst (snd (serve_loop fd cs (serve_state fd c s))),
     snd (snd (serve_conn fd c s)) @ snd (snd (serve_loop fd cs (serve_state fd c s))))"
  by (simp add: serve_state_def serve_events_def case_prod_unfold Let_def)

lemma serve_loop_events: "fst (snd (serve_loop fd cs s)) = plc_fds.trace fd cs s"
  by (induction cs arbitrary: s) (simp_all add: serve_loop_Cons del: serve_loop.simps(2))

lemma serve_loop_state: "fst (serve_loop fd cs s) = fold (serve_state fd) cs s"
  by (induction cs arbitrary: s) (simp_all add: serve_loop_Cons del: serve_loop.simps(2))

section \<open>What the PLC does in terms of bytes\<close>

text \<open>
  The five bytes that a request means: function code, address and value; a read of fewer than 12 bytes means zeros.
\<close>

definition request_bytes :: "bytes \<Rightarrow> bytes" where
  "request_bytes v = (if length v < 12 then [0, 0, 0, 0, 0] else take 5 (drop 7 v))"

text \<open>The two commands of the safety coil, and the commands among the requests of the connections served.\<close>

abbreviation engage_bytes :: bytes where "engage_bytes \<equiv> [5, 0xFF, 0xFF, 0xFF, 0]"
abbreviation release_bytes :: bytes where "release_bytes \<equiv> [5, 0xFF, 0xFF, 0, 0]"

definition conn_request :: "conn \<Rightarrow> bytes option" where
  "conn_request c = (if accept_ret c < 0 \<or> incoming c = Some [] then None else map_option request_bytes (incoming c))"

lemma request_bytes_cases:
  obtains a b c d e where "request_bytes v = [a, b, c, d, e]"
    and "decode_mbap_pdu v = \<lparr>pdu_function = a, pdu_address = be16 b c, pdu_value = be16 d e\<rparr>"
proof (cases "length v < 12")
  case True
  then show ?thesis
    by (intro that[of 0 0 0 0 0]) (simp_all add: request_bytes_def decode_mbap_pdu_def PDU_init_def be16_def)
next
  case False
  then obtain b0 b1 b2 b3 b4 b5 b6 b7 b8 b9 b10 b11 r where
    "v = b0 # b1 # b2 # b3 # b4 # b5 # b6 # b7 # b8 # b9 # b10 # b11 # r"
    by (auto simp: numeral_eq_Suc not_less Suc_le_length_iff)
  then show ?thesis
    by (intro that[of b7 b8 b9 b10 b11]) (simp_all add: request_bytes_def decode_mbap_pdu_def)
qed

lemma be16_constants: "(0xFFFF :: u16) = be16 0xFF 0xFF" "(0xFF00 :: u16) = be16 0xFF 0" "(0 :: u16) = be16 0 0"
  by (simp_all add: be16_def)

lemma command_frames:
  "engage_frame v \<longleftrightarrow> request_bytes v = engage_bytes"
  "release_frame v \<longleftrightarrow> request_bytes v = release_bytes"
  by (cases v rule: request_bytes_cases,
      simp add: engage_frame_def release_frame_def safety_frame_def be16_constants be16_inject del: One_nat_def, blast)+

lemma response_bytes:
  "plc_response v s =
    (let r = request_bytes v in
     if write_locked s \<and> hd r \<in> {5, 6, 15, 16} \<and> take 3 r \<noteq> [5, 0xFF, 0xFF]
     then [0, 1, 0, 0, 0, 3, 1, hd r + 128, 1] else [0, 1, 0, 0, 0, 6, 1] @ r)"
proof (cases v rule: request_bytes_cases)
  case (1 a b c d e)
  have "a OR 0x80 = a + 128" if "a \<in> {5, 6, 15, 16}"
    using that by auto
  then show ?thesis
    by (auto simp: plc_parts 1 is_write_fc_def encode_exception_def encode_mbap_pdu_def be16_constants be16_inject byte_simps Let_def)
qed

lemma serve_loop_snoc:
  "fst (snd (serve_loop fd (cs @ [c]) s)) = fst (snd (serve_loop fd cs s)) @ serve_events fd c (fold (serve_state fd) cs s)"
  by (induction cs arbitrary: s) (simp_all add: serve_loop_Cons del: serve_loop.simps(2))

lemma request_bytes_read: "request_bytes (take 256 v) = request_bytes v"
  by (auto simp: request_bytes_def take_drop min_def)

definition commands_of :: "conn list \<Rightarrow> bytes list" where
  "commands_of cs = filter (\<lambda>r. r = engage_bytes \<or> r = release_bytes) (List.map_filter conn_request cs)"

lemma loop_lock:
  "write_locked (fold (serve_state fd) cs s) \<longleftrightarrow>
    (if commands_of cs = [] then write_locked s else last (commands_of cs) = engage_bytes)"
proof (induction cs rule: rev_induct)
  case (snoc c cs)
  then show ?case
    by (auto simp: commands_of_def serve_state_step conn_request_def map_filter_snoc sys_read_def plc_step_lock
        command_frames request_bytes_read split: option.splits)
qed (simp add: commands_of_def map_filter_simps)

section \<open>Properties\<close>

text \<open>
  The Modbus codec. Decoding an encoded request gives it back; and re-encoding what was decoded from a
  frame of at least 12 bytes reproduces its first 12 bytes exactly when the frame has the
  header the encoder writes, so the PLC's echo is the request only for such frames.
\<close>

lemma modbus_codec_roundtrip:
  "decode_mbap_pdu (encode_mbap_pdu p) = p \<and>
   (length b < 12 \<or> (encode_mbap_pdu (decode_mbap_pdu b) = take 12 b) = (take 7 b = [0, 1, 0, 0, 0, 6, 1]))"
proof (cases "length b < 12")
  case False
  then obtain b0 b1 b2 b3 b4 b5 b6 b7 b8 b9 b10 b11 r where
    "b = b0 # b1 # b2 # b3 # b4 # b5 # b6 # b7 # b8 # b9 # b10 # b11 # r"
    by (auto simp: numeral_eq_Suc not_less Suc_le_length_iff)
  then show ?thesis
    by (simp add: mbap.dec_enc) (auto simp: encode_mbap_pdu_def decode_mbap_pdu_def byte_simps)
qed (simp add: mbap.dec_enc)

text \<open>
  C28. The write lock after any sequence of requests is what the last safety-coil command says,
  and the initial lock if there was none; nothing else moves it.
\<close>

theorem lock_is_last_command:
  "write_locked (fold plc_step vs s) \<longleftrightarrow>
    (case rev (filter (\<lambda>v. engage_frame v \<or> release_frame v) vs) of
       [] \<Rightarrow> write_locked s
     | v # _ \<Rightarrow> engage_frame v)"
proof (induction vs rule: rev_induct)
  case (snoc v vs)
  then show ?case
    using engage_not_release by (auto simp: plc_step_lock split: list.splits)
qed simp

text \<open>
  C12. What the server puts on the wire. After any connections, whatever they brought, a further connection that is accepted and from which
  something is read gets exactly one answer and is closed. If the last safety-coil command among the requests so far was to engage
  (or there was none and the lock was set at the start), a request with function code 5, 6, 15 or 16 that is not addressed
  to the safety coil is refused: the answer is the nine bytes of an exception with the function code plus 128 and code 1. Every other
  request gets the twelve bytes of the fixed header and the request's own function code, address and value, which are zeros if fewer than 12
  bytes were read.
\<close>

theorem writes_refused_iff_locked:
  assumes "0 \<le> accept_ret c" and "incoming c = Some v" and "v \<noteq> []"
  shows "let r = request_bytes v;
       lock = (if commands_of cs = [] then write_locked s else last (commands_of cs) = engage_bytes);
       refused = (lock \<and> hd r \<in> {5, 6, 15, 16} \<and> take 3 r \<noteq> [5, 0xFF, 0xFF])
     in fst (snd (serve_loop fd (cs @ [c]) s)) = fst (snd (serve_loop fd cs s)) @
       [Accept fd (accept_ret c), Recv (accept_ret c) 256,
        Send (accept_ret c) (if refused then [0, 1, 0, 0, 0, 3, 1, hd r + 128, 1] else [0, 1, 0, 0, 0, 6, 1] @ r),
        Close (accept_ret c)]"
proof -
  let ?s = "fold (serve_state fd) cs s"
  have "serve_events fd c ?s = [Accept fd (accept_ret c), Recv (accept_ret c) 256,
      Send (accept_ret c) (plc_response (take 256 v) ?s), Close (accept_ret c)]"
    using assms by (simp add: serve_events_def serve_conn_def sys_read_def plc_response_def Let_def split: prod.split)
  then show ?thesis
    unfolding serve_loop_snoc response_bytes loop_lock request_bytes_read Let_def by simp
qed

definition good_conn :: "bytes \<Rightarrow> conn" where
  "good_conn v = \<lparr>accept_ret = 7, incoming = Some v\<rparr>"

theorem writes_refused_iff_locked_witness:
  "let engage = good_conn [0, 1, 0, 0, 0, 6, 1, 5, 0xFF, 0xFF, 0xFF, 0];
       write = good_conn [0, 9, 0, 0, 0, 6, 1, 16, 0, 10, 0, 7]
   in fst (snd (serve_loop 3 ([engage] @ [write]) \<lparr>write_locked = False\<rparr>)) =
      fst (snd (serve_loop 3 [engage] \<lparr>write_locked = False\<rparr>)) @
      [Accept 3 7, Recv 7 256, Send 7 [0, 1, 0, 0, 0, 3, 1, 144, 1], Close 7]"
proof -
  let ?w = "[0, 9, 0, 0, 0, 6, 1, 16, 0, 10, 0, 7] :: bytes"
  have "commands_of [good_conn [0, 1, 0, 0, 0, 6, 1, 5, 0xFF, 0xFF, 0xFF, 0]] = [engage_bytes]"
    by (simp add: commands_of_def conn_request_def good_conn_def map_filter_simps request_bytes_def)
  then show ?thesis
    using writes_refused_iff_locked[of "good_conn ?w" ?w "[good_conn [0, 1, 0, 0, 0, 6, 1, 5, 0xFF, 0xFF, 0xFF, 0]]" "\<lparr>write_locked = False\<rparr>" 3]
    unfolding Let_def by (simp add: good_conn_def request_bytes_def)
qed

text \<open>
  The PLC loop leaks no descriptor: whatever connections arrive and whatever they send, after each
  run of the loop only the descriptors open before it are open.
\<close>

lemma plc_loop_closes_connections: "fds_after (fst (snd (serve_loop fd cs s))) fds = fds"
  unfolding serve_loop_events by (rule plc_fds.trace_neutral)

text \<open>
  The client's static descriptor is truthful. If before a call exactly its descriptor is open
  (or none, when it is -1), then so it is after the call, with the new value, on all error
  paths; the call returns 0 exactly when it kept the connection, and then it has sent the frame
  of the request.
\<close>

lemma client_descriptor_truthful:
  assumes "modbus_run_client io port fn addr val fd0 = (rc, fd, evs)"
  shows "fds_after evs (if fd0 < 0 then [] else [fd0]) = (if fd < 0 then [] else [fd]) \<and>
    (rc = 0) = (0 \<le> fd) \<and>
    (rc \<noteq> 0 \<or> Send fd (client_encode_mbap_pdu (client_PDU_init\<lparr>cl_fn := fn, cl_addr := addr, cl_value := val\<rparr>)) \<in> set evs)"
  using assms
  by (auto simp: modbus_run_client_def modbus_connect_def Let_def split: if_splits option.splits prod.splits)

definition good_client :: client_io where
  "good_client = \<lparr>cl_socket_ret = 4, target_host = None, resolved = Some ''127.0.0.1'', cl_connect_ret = 0, send_ret = 12\<rparr>"

lemma client_descriptor_truthful_witness:
  "fds_after (snd (snd (modbus_run_client good_client 502 5 10 0xFF00 (- 1)))) [] = [4]"
proof -
  have e: "modbus_run_client good_client 502 5 10 0xFF00 (- 1) =
      (0, 4, snd (snd (modbus_run_client good_client 502 5 10 0xFF00 (- 1))))"
    by (simp add: modbus_run_client_def modbus_connect_def good_client_def Let_def)
  from client_descriptor_truthful[OF e] show ?thesis
    by simp
qed

end
