(* ===== verification/Sim_Dnp3.thy ===== *)
theory Sim_Dnp3
  imports Sockets
begin

text \<open>
  The DNP3 half of the simulator, \<^verbatim>\<open>proto/dnp3/client.cpp\<close> and \<^verbatim>\<open>proto/dnp3/server.cpp\<close>: a client that
  connects, sends one 12-byte frame and waits for an answer, and a server that logs and
  echoes. The kernel's answers are arguments, as in the Modbus half.
\<close>

unbundle bit_operations_syntax

section \<open>The client\<close>

record connect_io =
  sock_r :: int
  env_host :: "string option"
  lookup_r :: "string option"
  conn_r :: int

definition dnp3_make_client_socket :: "connect_io \<Rightarrow> int \<Rightarrow> int \<times> event list" where
  "dnp3_make_client_socket io port =
    (let s = sock_r io in
     if s < 0 then (- 1, [Socket s])
     else let host = (case env_host io of None \<Rightarrow> ''127.0.0.1'' | Some h \<Rightarrow> h) in
       case lookup_r io of
         None \<Rightarrow> (- 1, [Socket s, Resolve host False, Close s])
       | Some ip \<Rightarrow>
           if conn_r io < 0
           then (- 1, [Socket s, Resolve host True, Connect s ip (port_of_int port) (conn_r io), Close s])
           else (s, [Socket s, Resolve host True, Connect s ip (port_of_int port) (conn_r io)]))"

definition dnp3_build_frame :: "u8 \<Rightarrow> bytes" where
  "dnp3_build_frame func =
    (let f = replicate 12 0; f = f[2 := 0x40]; f = f[7 := 0xC0]; f = f[6 := func] in f)"

definition dnp3_run_client :: "connect_io \<Rightarrow> int \<Rightarrow> u8 \<Rightarrow> int \<times> event list \<times> string list" where
  "dnp3_run_client io port func =
    (case dnp3_make_client_socket io port of
       (s, evs) \<Rightarrow>
         if s < 0 then (1, evs, [''[dnp3] connect failed''])
         else let frame = dnp3_build_frame func in
           (0, evs @ [Send s frame, Recv s 2048, Close s],
            [''[dnp3] sent fc='' @ nat_str (unat func)]))"

section \<open>The server\<close>

definition dnp3_make_server_socket :: "int \<Rightarrow> int \<Rightarrow> int \<Rightarrow> int \<Rightarrow> int \<times> event list" where
  "dnp3_make_server_socket port socket_r bind_r listen_r =
    (let s = socket_r in
     if s < 0 then (- 1, [Socket s])
     else if bind_r < 0 then (- 1, [Socket s, Setsockopt s, Bind s (port_of_int port) bind_r, Close s])
     else if listen_r < 0
       then (- 1, [Socket s, Setsockopt s, Bind s (port_of_int port) bind_r, Listen s 4 listen_r, Close s])
     else (s, [Socket s, Setsockopt s, Bind s (port_of_int port) bind_r, Listen s 4 listen_r]))"

definition dnp3_decode_and_log :: "bytes \<Rightarrow> string" where
  "dnp3_decode_and_log buf =
    (if length buf < 10 then ''[dnp3] too small frame ('' @ nat_str (length buf) @ '')''
     else let ctrl = buf ! 2; is_from_master = (ctrl AND 0x40 \<noteq> 0); func = buf ! 6
          in ''[dnp3] RX master='' @ (if is_from_master then ''1'' else ''0'') @ '' fc='' @ nat_str (unat func))"

text \<open>One iteration of the loop: the result of \<^verbatim>\<open>accept\<close> and what is there to read.\<close>

definition dnp3_serve :: "int \<Rightarrow> int \<times> bytes option \<Rightarrow> event list \<times> string list" where
  "dnp3_serve srv x =
    (let c = fst x in
     if c < 0 then ([Accept srv c], [])
     else case sys_read 2048 (snd x) of
       None \<Rightarrow> ([Accept srv c, Recv c 2048, Close c], [])
     | Some buf \<Rightarrow>
         if 0 < length buf
         then ([Accept srv c, Recv c 2048, Send c buf, Close c], [dnp3_decode_and_log buf])
         else ([Accept srv c, Recv c 2048, Close c], []))"

text \<open>The loop never ends; the result describes it after the connections \<^verbatim>\<open>xs\<close>.\<close>

definition dnp3_start_server ::
  "int \<Rightarrow> int \<Rightarrow> int \<Rightarrow> int \<Rightarrow> (int \<times> bytes option) list \<Rightarrow> int option \<times> event list \<times> string list" where
  "dnp3_start_server port socket_r bind_r listen_r xs =
    (case dnp3_make_server_socket port socket_r bind_r listen_r of
       (srv, evs) \<Rightarrow>
         if srv < 0 then (Some 1, evs, [''[dnp3] failed to bind '' @ int_str port])
         else (None, evs @ concat (map (fst \<circ> dnp3_serve srv) xs),
               (''[dnp3] listening on '' @ int_str port) # concat (map (snd \<circ> dnp3_serve srv) xs)))"

section \<open>Descriptors\<close>

lemma dnp3_client_socket_fds:
  assumes "dnp3_make_client_socket io port = (s, evs)"
  shows "fds_after evs fds = (if s < 0 then fds else s # fds)"
  using assms by (auto simp: dnp3_make_client_socket_def Let_def split: if_splits option.splits)

lemma dnp3_run_client_neutral: "fds_after (fst (snd (dnp3_run_client io port func))) fds = fds"
  using dnp3_client_socket_fds[of io port]
  by (auto simp: dnp3_run_client_def Let_def split: prod.split)

interpretation dnp3_client_fds: fd_neutral "\<lambda>_ s. s" "\<lambda>(io, port, func) _. fst (snd (dnp3_run_client io port func))"
  by unfold_locales (auto simp: dnp3_run_client_neutral)

interpretation dnp3_server_fds: fd_neutral "\<lambda>_ s. s" "\<lambda>x _. fst (dnp3_serve srv x)" for srv
  by unfold_locales (auto simp: dnp3_serve_def Let_def split: option.split)

lemma dnp3_serve_trace: "concat (map (fst \<circ> dnp3_serve srv) xs) = dnp3_server_fds.trace srv xs s"
  by (induction xs arbitrary: s) simp_all

lemma dnp3_serve_neutral: "fds_after (concat (map (fst \<circ> dnp3_serve srv) xs)) fds = fds"
  unfolding dnp3_serve_trace[where s = "()"] by (rule dnp3_server_fds.trace_neutral)

lemma dnp3_frame: "dnp3_build_frame func = [0, 0, 0x40, 0, 0, 0, func, 0xC0, 0, 0, 0, 0]"
  by (simp add: dnp3_build_frame_def numeral_eq_Suc Let_def)

section \<open>Properties\<close>

text \<open>
  The DNP3 server leaks no descriptor: if it gives up, everything it opened is closed; while it runs,
  after any connections the listening socket is the only one it holds.
\<close>

lemma dnp3_server_descriptors:
  "case dnp3_start_server port socket_r bind_r listen_r xs of
     (Some rc, evs, _) \<Rightarrow> rc = 1 \<and> fds_after evs [] = []
   | (None, evs, _) \<Rightarrow> fds_after evs [] = [socket_r]"
  by (simp add: dnp3_start_server_def dnp3_make_server_socket_def Let_def dnp3_serve_neutral)

text \<open>
  Client and server agree on the frame layout: the line the server prints for a frame of the client
  names the master as sender and the function code of the request.
\<close>

lemma dnp3_server_reads_client:
  "dnp3_decode_and_log (dnp3_build_frame func) = ''[dnp3] RX master=1 fc='' @ nat_str (unat func)"
  by (simp add: dnp3_decode_and_log_def dnp3_frame Let_def)

end
