(* ===== verification/Sim_Iec104.thy ===== *)
theory Sim_Iec104
  imports Sockets
begin

text \<open>
  The IEC 60870-5-104 half of the simulator, \<^verbatim>\<open>proto/iec104/client.cpp\<close> and \<^verbatim>\<open>proto/iec104/server.cpp\<close>.
  The server echoes with \<^verbatim>\<open>write(cs, buf.data(), n)\<close> whatever \<^verbatim>\<open>read\<close> returned; for an error \<^verbatim>\<open>n\<close> is -1,
  which the \<^verbatim>\<open>size_t\<close> parameter turns into the largest size: the event \<^verbatim>\<open>Send_out_of_bounds\<close>.
\<close>

section \<open>The client\<close>

record iec_connect_io =
  iec_sock_r :: int
  iec_env_host :: "string option"
  iec_lookup_r :: "string option"
  iec_conn_r :: int

definition iec104_make_client_socket :: "iec_connect_io \<Rightarrow> int \<Rightarrow> int \<times> event list" where
  "iec104_make_client_socket io port =
    (let s = iec_sock_r io in
     if s < 0 then (- 1, [Socket s])
     else let host = (case iec_env_host io of None \<Rightarrow> ''127.0.0.1'' | Some h \<Rightarrow> h) in
       case iec_lookup_r io of
         None \<Rightarrow> (- 1, [Socket s, Resolve host False, Close s])
       | Some ip \<Rightarrow>
           if iec_conn_r io < 0
           then (- 1, [Socket s, Resolve host True, Connect s ip (port_of_int port) (iec_conn_r io), Close s])
           else (s, [Socket s, Resolve host True, Connect s ip (port_of_int port) (iec_conn_r io)]))"

definition iec104_build_frame :: "u8 \<Rightarrow> u16 \<Rightarrow> bytes" where
  "iec104_build_frame typeId ioa =
    (let f = replicate 12 0;
         f = f[0 := 0x68]; f = f[1 := 0x0A];
         f = f[2 := 0x00]; f = f[3 := 0x00]; f = f[4 := 0x00]; f = f[5 := 0x00];
         f = f[6 := typeId]; f = f[7 := 0x01]; f = f[8 := 0x06]; f = f[9 := 0x01];
         f = f[10 := lo8 ioa]; f = f[11 := hi8 ioa]
     in f)"

definition iec104_run_client :: "iec_connect_io \<Rightarrow> int \<Rightarrow> u8 \<Rightarrow> int \<times> event list \<times> string list" where
  "iec104_run_client io port type_id =
    (case iec104_make_client_socket io port of
       (s, evs) \<Rightarrow>
         if s < 0 then (1, evs, [''[iec104] connect failed''])
         else let obj = 16; frame = iec104_build_frame type_id obj in
           (0, evs @ [Send s frame, Recv s 256, Close s],
            [''[iec104] sent type='' @ nat_str (unat type_id) @ '' addr='' @ nat_str (unat obj)]))"

section \<open>The server\<close>

definition iec104_make_listen_socket :: "int \<Rightarrow> int \<Rightarrow> int \<Rightarrow> int \<Rightarrow> int \<times> event list" where
  "iec104_make_listen_socket port socket_r bind_r listen_r =
    (let s = socket_r in
     if s < 0 then (- 1, [Socket s])
     else if bind_r < 0 then (- 1, [Socket s, Setsockopt s, Bind s (port_of_int port) bind_r])
     else if listen_r < 0
       then (- 1, [Socket s, Setsockopt s, Bind s (port_of_int port) bind_r, Listen s 8 listen_r])
     else (s, [Socket s, Setsockopt s, Bind s (port_of_int port) bind_r, Listen s 8 listen_r]))"

definition iec104_serve :: "int \<Rightarrow> int \<times> bytes option \<Rightarrow> event list \<times> string list" where
  "iec104_serve ls x =
    (let cs = fst x in
     if cs < 0 then ([Accept ls cs], [])
     else case sys_read 256 (snd x) of
       None \<Rightarrow> ([Accept ls cs, Recv cs 256, Send_out_of_bounds cs, Close cs], [])
     | Some buf \<Rightarrow>
         ([Accept ls cs, Recv cs 256, Send cs buf, Close cs],
          if 7 \<le> length buf then [''[iec104] RX type='' @ nat_str (unat (buf ! 6))] else []))"

definition iec104_start_server ::
  "int \<Rightarrow> int \<Rightarrow> int \<Rightarrow> int \<Rightarrow> (int \<times> bytes option) list \<Rightarrow> int option \<times> event list \<times> string list" where
  "iec104_start_server port socket_r bind_r listen_r xs =
    (case iec104_make_listen_socket port socket_r bind_r listen_r of
       (ls, evs) \<Rightarrow>
         if ls < 0 then (Some 1, evs, [''[iec104] listen failed''])
         else (None, evs @ concat (map (fst \<circ> iec104_serve ls) xs),
               (''[iec104] server listening '' @ int_str port) # concat (map (snd \<circ> iec104_serve ls) xs)))"

section \<open>Descriptors\<close>

lemma iec104_client_socket_fds:
  assumes "iec104_make_client_socket io port = (s, evs)"
  shows "fds_after evs fds = (if s < 0 then fds else s # fds)"
  using assms by (auto simp: iec104_make_client_socket_def Let_def split: if_splits option.splits)

lemma iec104_run_client_neutral: "fds_after (fst (snd (iec104_run_client io port t))) fds = fds"
  using iec104_client_socket_fds[of io port]
  by (auto simp: iec104_run_client_def Let_def split: prod.split)

interpretation iec104_client_fds: fd_neutral "\<lambda>_ s. s" "\<lambda>(io, port, t) _. fst (snd (iec104_run_client io port t))"
  by unfold_locales (auto simp: iec104_run_client_neutral)

interpretation iec104_server_fds: fd_neutral "\<lambda>_ s. s" "\<lambda>x _. fst (iec104_serve ls x)" for ls
  by unfold_locales (auto simp: iec104_serve_def Let_def split: option.split)

lemma iec104_serve_trace: "concat (map (fst \<circ> iec104_serve ls) xs) = iec104_server_fds.trace ls xs s"
  by (induction xs arbitrary: s) simp_all

lemma iec104_serve_neutral: "fds_after (concat (map (fst \<circ> iec104_serve ls) xs)) fds = fds"
  unfolding iec104_serve_trace[where s = "()"] by (rule iec104_server_fds.trace_neutral)

lemma iec104_frame:
  "iec104_build_frame t ioa = [0x68, 0x0A, 0, 0, 0, 0, t, 1, 6, 1, lo8 ioa, hi8 ioa]"
  by (simp add: iec104_build_frame_def numeral_eq_Suc Let_def)

section \<open>Properties\<close>

text \<open>
  The IEC-104 server loses its socket when it gives up: after a failed \<^verbatim>\<open>bind\<close> or \<^verbatim>\<open>listen\<close> it returns 1
  with the listening descriptor still open, unlike the DNP3 server. While it runs, every
  accepted connection is closed again.
\<close>

lemma iec104_server_descriptors:
  "case iec104_start_server port socket_r bind_r listen_r xs of
     (Some rc, evs, _) \<Rightarrow> rc = 1 \<and> fds_after evs [] = (if socket_r < 0 then [] else [socket_r])
   | (None, evs, _) \<Rightarrow> fds_after evs [] = [socket_r]"
  by (simp add: iec104_start_server_def iec104_make_listen_socket_def Let_def iec104_serve_neutral)

text \<open>
  The echo of the IEC-104 server: it writes back exactly the bytes read, the type identifier it prints is that of
  the request, and it writes beyond its buffer exactly when the read fails.
\<close>

lemma iec104_echo:
  assumes "0 \<le> c"
  shows "(Send_out_of_bounds c \<in> set (fst (iec104_serve ls (c, pending)))) = (pending = None) \<and>
    (Send c b \<in> set (fst (iec104_serve ls (c, pending)))) = (\<exists>bs. pending = Some bs \<and> b = take 256 bs) \<and>
    snd (iec104_serve ls (c, Some (iec104_build_frame t ioa))) = [''[iec104] RX type='' @ nat_str (unat t)]"
  using assms
  by (auto simp: iec104_serve_def sys_read_def iec104_frame Let_def split: option.split)

lemma iec104_echo_witness:
  "Send_out_of_bounds 5 \<in> set (fst (iec104_serve 3 (5, None)))"
  using iec104_echo[of 5 3 None] by simp

end
