(* ===== verification/Sim_Cli.thy ===== *)
theory Sim_Cli
  imports Sim_Modbus Sim_Dnp3 Sim_Iec104
begin

text \<open>
  The command line of the simulator, \<^verbatim>\<open>core/cli.cpp\<close>: the arguments select a server or a client of
  one of the protocols. \<^verbatim>\<open>run_cli\<close> returns the call it makes; an exception of \<^verbatim>\<open>std::stoi\<close>, which
  nothing catches, is the error of the result. \<^verbatim>\<open>argv\<close> includes the program name.
\<close>

section \<open>Numbers\<close>

datatype stoi_error = Invalid_argument | Out_of_range

definition is_space :: "char \<Rightarrow> bool" where
  "is_space c \<longleftrightarrow> (let n = (of_char c :: nat) in n = 32 \<or> 9 \<le> n \<and> n \<le> 13)"

definition stoi :: "string \<Rightarrow> (stoi_error, int) result" where
  "stoi s =
    (let s = dropWhile is_space s;
         neg = (s \<noteq> [] \<and> hd s = CHR ''-'');
         s = (if s \<noteq> [] \<and> (hd s = CHR ''-'' \<or> hd s = CHR ''+'') then tl s else s);
         ds = takeWhile is_digit s;
         n = (if neg then - int (digits_value ds) else int (digits_value ds))
     in if ds = [] then Inl Invalid_argument
        else if n < - (2 ^ 31) \<or> 2 ^ 31 \<le> n then Inl Out_of_range
        else Inr n)"

section \<open>The command line\<close>

datatype mode = START_SERVER | REQUEST | INVALID
datatype sim_protocol = SIM_MODBUS | SIM_DNP3 | SIM_IEC104 | SIM_UNKNOWN

definition parse_mode :: "string \<Rightarrow> mode" where
  "parse_mode s =
    (if s = ''start-server'' then START_SERVER else if s = ''request'' then REQUEST else INVALID)"

definition parse_protocol :: "string \<Rightarrow> sim_protocol" where
  "parse_protocol s =
    (if s = ''modbus'' then SIM_MODBUS else if s = ''dnp3'' then SIM_DNP3
     else if s = ''iec104'' then SIM_IEC104 else SIM_UNKNOWN)"

datatype cli_call =
    Usage
  | Start_modbus int | Start_dnp3 int | Start_iec104 int
  | Run_modbus int u8 u16 u16 | Run_dnp3 int u8 | Run_iec104 int u8

definition usage_text :: string where
  "usage_text = ''scada-sim start-server <protocol> <port>'' @ [CHR 0x0A] @
     ''scada-sim request <protocol> <port> <fn> [addr val]'' @ [CHR 0x0A]"

text \<open>What the call prints to standard error, and the exit code where it is a constant.\<close>

definition usage :: "string \<times> int" where
  "usage = (usage_text, 1)"

definition run_cli :: "string list \<Rightarrow> (stoi_error, cli_call) result" where
  "run_cli argv =
    (let argc = length argv in
     if argc < 4 then Inr Usage
     else let md = parse_mode (argv ! 1); pr = parse_protocol (argv ! 2) in
       bind_result (stoi (argv ! 3)) (\<lambda>port.
         if md = INVALID \<or> pr = SIM_UNKNOWN then Inr Usage
         else if md = START_SERVER then
           (if pr = SIM_MODBUS then Inr (Start_modbus port)
            else if pr = SIM_DNP3 then Inr (Start_dnp3 port)
            else if pr = SIM_IEC104 then Inr (Start_iec104 port)
            else Inr Usage)
         else if md = REQUEST then
           (if argc < 5 then Inr Usage
            else bind_result (stoi (argv ! 4)) (\<lambda>fn_int.
              let fn = word_of_int fn_int in
              if pr = SIM_MODBUS then
                (if argc < 7 then Inr Usage
                 else bind_result (stoi (argv ! 5)) (\<lambda>addr.
                        bind_result (stoi (argv ! 6)) (\<lambda>val.
                          Inr (Run_modbus port fn (word_of_int addr) (word_of_int val)))))
              else if pr = SIM_DNP3 then Inr (Run_dnp3 port fn)
              else if pr = SIM_IEC104 then
                bind_result (stoi (argv ! 4)) (\<lambda>t. Inr (Run_iec104 port (word_of_int t)))
              else Inr Usage))
         else Inr Usage))"

section \<open>Lemmas\<close>

lemma nat_str_head:
  "nat_str n \<noteq> [] \<and> is_digit (hd (nat_str n))"
  using nat_str_digits[of n] by simp

lemma takeWhile_nat_str [simp]: "takeWhile is_digit (nat_str n) = nat_str n"
  using nat_str_digits by (simp add: takeWhile_eq_all_conv)

lemma digit_no_space: "is_digit c \<Longrightarrow> \<not> is_space c \<and> c \<noteq> CHR ''-'' \<and> c \<noteq> CHR ''+''"
  by (auto simp: is_digit_def is_space_def Let_def)

lemma stoi_nat_str: "n < 2 ^ 31 \<Longrightarrow> stoi (nat_str n) = Inr (int n)"
proof -
  assume n: "n < 2 ^ 31"
  then have "int n < 2 ^ 31"
    by simp
  moreover have "dropWhile is_space (nat_str n) = nat_str n"
    using nat_str_head[of n] digit_no_space by (cases "nat_str n") auto
  ultimately show ?thesis
    using nat_str_head[of n] digit_no_space[of "hd (nat_str n)"]
    by (simp add: stoi_def Let_def)
qed

lemma stoi_bounds: "stoi s = Inr n \<Longrightarrow> - (2 ^ 31) \<le> n \<and> n < 2 ^ 31"
  by (auto simp: stoi_def Let_def split: if_splits)

section \<open>Properties\<close>

text \<open>
  The command line round trip: a request written with decimal numbers calls the Modbus client
  with exactly that port, function code, address and value, where the function code is taken
  modulo 256 and address and value modulo 65536.
\<close>

lemma cli_request_roundtrip:
  assumes "port < 2 ^ 31" "fn < 2 ^ 31" "addr < 2 ^ 31" "val < 2 ^ 31"
  shows "run_cli (prog # ''request'' # ''modbus'' # nat_str port # nat_str fn # nat_str addr # nat_str val # rest) =
    Inr (Run_modbus (int port) (of_nat (fn mod 256)) (of_nat (addr mod 65536)) (of_nat (val mod 65536)))"
proof -
  have "word_of_nat n = (word_of_nat (n mod 256) :: u8)" "word_of_nat n = (word_of_nat (n mod 65536) :: u16)" for n
    by (simp_all add: word_of_nat_eq_iff take_bit_eq_mod)
  with assms show ?thesis
    by (simp add: run_cli_def parse_mode_def parse_protocol_def stoi_nat_str Let_def)
qed

lemma cli_request_roundtrip_witness:
  "run_cli [''scada-sim'', ''request'', ''modbus'', nat_str 502, nat_str 261, nat_str 10, nat_str 1] =
   Inr (Run_modbus 502 5 10 1)"
  using cli_request_roundtrip[of 502 261 10 1 "''scada-sim''" "[]"] by simp

text \<open>
  C36. When the program dies of an exception: exactly when it has a third argument that is no number in
  range (the port is read before mode and protocol are checked), or when a request for a known
  protocol has a bad function code, or, for Modbus with all its arguments, a bad address or value.
\<close>

theorem cli_exceptions:
  "run_cli (prog # m # p # s # rest) = Inl e \<longleftrightarrow>
    stoi s = Inl e \<or>
    (\<exists>port. stoi s = Inr port) \<and> parse_mode m = REQUEST \<and> parse_protocol p \<noteq> SIM_UNKNOWN \<and> rest \<noteq> [] \<and>
    (stoi (rest ! 0) = Inl e \<or>
     (\<exists>fn. stoi (rest ! 0) = Inr fn) \<and> parse_protocol p = SIM_MODBUS \<and> 3 \<le> length rest \<and>
     (stoi (rest ! 1) = Inl e \<or> (\<exists>a. stoi (rest ! 1) = Inr a) \<and> stoi (rest ! 2) = Inl e))"
proof -
  have args: "(prog # m # p # s # rest) ! 4 = rest ! 0" "(prog # m # p # s # rest) ! 5 = rest ! 1"
    "(prog # m # p # s # rest) ! 6 = rest ! 2"
    by (simp_all add: nth_Cons')
  show ?thesis
    by (cases "parse_mode m"; cases "parse_protocol p")
      (auto simp: run_cli_def args bind_result_def Let_def split: sum.splits)
qed

end
