(* ===== verification/Sim_Program.thy ===== *)
theory Sim_Program
  imports Sim_Cli
begin

text \<open>
  The simulator as a program: \<^verbatim>\<open>main\<close> of \<^verbatim>\<open>core/cli.cpp\<close>, which runs the call that the command line selects. What the kernel answers
  is the argument \<^verbatim>\<open>sim_world\<close>; the result says how the process ends, the system calls it makes and the lines it prints to
  standard output.
\<close>

record sim_world =
  modbus_io :: client_io
  dnp3_io :: connect_io
  iec_io :: iec_connect_io
  srv_socket :: int
  srv_bind :: int
  srv_listen :: int
  plc_conns :: "conn list"
  echo_conns :: "(int \<times> bytes option) list"

text \<open>A server that got as far as its loop never ends.\<close>

datatype sim_end = Exited int | Serving | Died stoi_error

definition server_end :: "int option \<Rightarrow> sim_end" where
  "server_end rc = (case rc of None \<Rightarrow> Serving | Some c \<Rightarrow> Exited c)"

definition scada_sim :: "sim_world \<Rightarrow> string list \<Rightarrow> sim_end \<times> event list" where
  "scada_sim w argv =
    (case run_cli argv of
       Inl e \<Rightarrow> (Died e, [])
     | Inr Usage \<Rightarrow> (Exited (snd usage), [])
     | Inr (Start_modbus port) \<Rightarrow>
         (case modbus_start_server port (srv_socket w) (srv_bind w) (srv_listen w) (plc_conns w) \<lparr>write_locked = False\<rparr> of
            (rc, _, evs, _) \<Rightarrow> (server_end rc, evs))
     | Inr (Start_dnp3 port) \<Rightarrow>
         (case dnp3_start_server port (srv_socket w) (srv_bind w) (srv_listen w) (echo_conns w) of
            (rc, evs, _) \<Rightarrow> (server_end rc, evs))
     | Inr (Start_iec104 port) \<Rightarrow>
         (case iec104_start_server port (srv_socket w) (srv_bind w) (srv_listen w) (echo_conns w) of
            (rc, evs, _) \<Rightarrow> (server_end rc, evs))
     | Inr (Run_modbus port fn addr val) \<Rightarrow>
         (case modbus_run_client (modbus_io w) port fn addr val (- 1) of (rc, _, evs) \<Rightarrow> (Exited rc, evs))
     | Inr (Run_dnp3 port fn) \<Rightarrow> (case dnp3_run_client (dnp3_io w) port fn of (rc, evs, _) \<Rightarrow> (Exited rc, evs))
     | Inr (Run_iec104 port t) \<Rightarrow> (case iec104_run_client (iec_io w) port t of (rc, evs, _) \<Rightarrow> (Exited rc, evs)))"

section \<open>The numbers of a request\<close>

lemma word_mod:
  "word_of_nat n = (word_of_nat (n mod 256) :: u8)" "word_of_nat n = (word_of_nat (n mod 65536) :: u16)"
  by (simp_all add: word_of_nat_eq_iff take_bit_eq_mod)

lemma request_call:
  assumes "port < 2 ^ 31" "fn < 2 ^ 31" "addr < 2 ^ 31" "val < 2 ^ 31"
  shows "run_cli (prog # ''request'' # ''modbus'' # nat_str port # nat_str fn # nat_str addr # nat_str val # rest) =
    Inr (Run_modbus (int port) (of_nat (fn mod 256)) (of_nat (addr mod 65536)) (of_nat (val mod 65536)))"
  using assms word_mod by (simp add: run_cli_def parse_mode_def parse_protocol_def stoi_nat_str Let_def)

definition sent_frames :: "event list \<Rightarrow> bytes list" where
  "sent_frames evs = concat (map (\<lambda>e. case e of Send fd b \<Rightarrow> [b] | _ \<Rightarrow> []) evs)"

lemma client_frame_decodes:
  "decode_mbap_pdu (client_encode_mbap_pdu (client_PDU_init\<lparr>cl_fn := fn, cl_addr := addr, cl_value := val\<rparr>)) =
    \<lparr>pdu_function = fn, pdu_address = addr, pdu_value = val\<rparr>"
  by (simp add: client_encode_mbap_pdu_def client_PDU_init_def decode_mbap_pdu_def byte_simps)

section \<open>Properties\<close>

text \<open>
  C22. From the command line to the PLC and back. A Modbus request given in decimal ends with status 0 exactly when the socket, the
  host, the connection and the write succeed, and with status 1 otherwise. It attempts to send one frame exactly when it is
  connected, on the port modulo 65536; the PLC's decoder reads from it the function code modulo 256 and the address and value modulo
  65536, and the only descriptor the process may leave open is that of a successful client.
\<close>

theorem command_reaches_plc:
  assumes "port < 2 ^ 31" "fn < 2 ^ 31" "addr < 2 ^ 31" "val < 2 ^ 31"
    and "argv = prog # ''request'' # ''modbus'' # nat_str port # nat_str fn # nat_str addr # nat_str val # rest"
  shows "let io = modbus_io w; connected = (0 \<le> cl_socket_ret io \<and> resolved io \<noteq> None \<and> 0 \<le> cl_connect_ret io);
      evs = snd (scada_sim w argv)
    in fst (scada_sim w argv) = Exited (if connected \<and> 0 \<le> send_ret io then 0 else 1) \<and>
       map decode_mbap_pdu (sent_frames evs) =
         (if connected then [\<lparr>pdu_function = of_nat (fn mod 256), pdu_address = of_nat (addr mod 65536), pdu_value = of_nat (val mod 65536)\<rparr>]
          else []) \<and>
       (connected \<longrightarrow> Connect (cl_socket_ret io) (the (resolved io)) (of_nat (port mod 65536)) (cl_connect_ret io) \<in> set evs) \<and>
       fds_after evs [] = (if connected \<and> 0 \<le> send_ret io then [cl_socket_ret io] else [])"
proof -
  have port: "port_of_int (int port) = of_nat (port mod 65536)"
    using word_mod(2)[of port] by (simp add: port_of_int_def)
  have call: "run_cli argv = Inr (Run_modbus (int port) (of_nat (fn mod 256)) (of_nat (addr mod 65536)) (of_nat (val mod 65536)))"
    unfolding assms(5) by (rule request_call[OF assms(1-4)])
  show ?thesis
    unfolding scada_sim_def call sum.case cli_call.case Let_def
    by (auto simp: modbus_run_client_def modbus_connect_def sent_frames_def client_frame_decodes port Let_def split: option.split)
qed

definition good_world :: sim_world where
  "good_world = \<lparr>modbus_io = good_client,
     dnp3_io = \<lparr>sock_r = 4, env_host = None, lookup_r = Some ''127.0.0.1'', conn_r = 0\<rparr>,
     iec_io = \<lparr>iec_sock_r = 4, iec_env_host = None, iec_lookup_r = Some ''127.0.0.1'', iec_conn_r = 0\<rparr>,
     srv_socket = 3, srv_bind = 0, srv_listen = 0, plc_conns = [], echo_conns = []\<rparr>"

theorem command_reaches_plc_witness:
  "fst (scada_sim good_world [''scada-sim'', ''request'', ''modbus'', nat_str 66038, nat_str 261, nat_str 10, nat_str 1]) = Exited 0"
  using command_reaches_plc[OF _ _ _ _ refl, of 66038 261 10 1 good_world "''scada-sim''" "[]"]
  by (simp add: good_world_def good_client_def Let_def)

end
