(* ===== verification/Sim_Legacy.thy ===== *)
theory Sim_Legacy
  imports Sim_Cli
begin

text \<open>
  The older copy of the simulator that is kept under \<^verbatim>\<open>src/PRISM/src/simulator\<close>: a PLC without a write lock, which
  echoes every request, clients that always connect to the local host, and otherwise the code of the
  current simulator, repeated. Each definition translates the older file; the lemmas say how it relates to the
  current one, so that what is proved of that carries over.
\<close>

unbundle bit_operations_syntax

section \<open>Modbus\<close>

definition legacy_PDU_init :: pdu where
  "legacy_PDU_init = \<lparr>pdu_function = 0, pdu_address = 0, pdu_value = 0\<rparr>"

definition legacy_encode_mbap_pdu :: "pdu \<Rightarrow> bytes" where
  "legacy_encode_mbap_pdu p =
    [0x00, 0x01, 0x00, 0x00, 0x00, 0x06, 0x01,
     pdu_function p, hi8 (pdu_address p), lo8 (pdu_address p), hi8 (pdu_value p), lo8 (pdu_value p)]"

definition legacy_decode_mbap_pdu :: "bytes \<Rightarrow> pdu" where
  "legacy_decode_mbap_pdu b =
    (if length b < 12 then legacy_PDU_init
     else \<lparr>pdu_function = b ! 7, pdu_address = be16 (b ! 8) (b ! 9), pdu_value = be16 (b ! 10) (b ! 11)\<rparr>)"

interpretation legacy_mbap: codec legacy_encode_mbap_pdu legacy_decode_mbap_pdu
  by unfold_locales (simp add: legacy_encode_mbap_pdu_def legacy_decode_mbap_pdu_def byte_simps)

definition legacy_handle_request :: "bytes \<Rightarrow> bytes \<times> string list" where
  "legacy_handle_request v =
    (let p = legacy_decode_mbap_pdu v in
     (legacy_encode_mbap_pdu p,
      [''[modbus] RX fn='' @ nat_str (unat (pdu_function p)) @ '' addr='' @
       nat_str (unat (pdu_address p)) @ '' val='' @ nat_str (unat (pdu_value p))]))"

definition legacy_serve_conn :: "int \<Rightarrow> conn \<Rightarrow> event list \<times> string list" where
  "legacy_serve_conn fd c =
    (let cfd = accept_ret c in
     if cfd < 0 then ([Accept fd cfd], [])
     else case sys_read 256 (incoming c) of
       None \<Rightarrow> ([Accept fd cfd, Recv cfd 256, Close cfd], [])
     | Some v \<Rightarrow>
         if v = [] then ([Accept fd cfd, Recv cfd 256, Close cfd], [])
         else case legacy_handle_request v of
           (resp, lines) \<Rightarrow> ([Accept fd cfd, Recv cfd 256, Send cfd resp, Close cfd], lines))"

definition legacy_start_server ::
  "int \<Rightarrow> int \<Rightarrow> int \<Rightarrow> int \<Rightarrow> conn list \<Rightarrow> int option \<times> event list \<times> string list" where
  "legacy_start_server port socket_r bind_r listen_r cs =
    (let fd = socket_r in
     if fd < 0 then (Some 1, [Socket fd], [])
     else if bind_r < 0 then (Some 1, [Socket fd, Bind fd (port_of_int port) bind_r, Close fd], [])
     else (None, [Socket fd, Bind fd (port_of_int port) bind_r, Listen fd 1 listen_r] @
             concat (map (fst \<circ> legacy_serve_conn fd) cs),
           (''[modbus] listening on '' @ int_str port) # concat (map (snd \<circ> legacy_serve_conn fd) cs)))"

definition legacy_client_PDU_init :: client_pdu where
  "legacy_client_PDU_init = \<lparr>transaction = 1, cl_protocol = 0, cl_length = 6, unit_id = 1, cl_fn = 0, cl_addr = 0, cl_value = 0\<rparr>"

definition legacy_client_encode_mbap_pdu :: "client_pdu \<Rightarrow> bytes" where
  "legacy_client_encode_mbap_pdu p =
    [hi8 (transaction p), lo8 (transaction p), hi8 (cl_protocol p), lo8 (cl_protocol p),
     hi8 (cl_length p), lo8 (cl_length p), unit_id p, cl_fn p, hi8 (cl_addr p), lo8 (cl_addr p),
     hi8 (cl_value p), lo8 (cl_value p)]"

record legacy_io =
  lg_socket_ret :: int
  lg_connect_ret :: int
  lg_send_ret :: int

definition legacy_connect :: "legacy_io \<Rightarrow> int \<Rightarrow> int \<Rightarrow> int \<times> event list" where
  "legacy_connect io port fd =
    (if 0 \<le> fd then (fd, [])
     else let fd = lg_socket_ret io in
       if fd < 0 then (fd, [Socket fd])
       else if lg_connect_ret io < 0
         then (- 1, [Socket fd, Connect fd ''127.0.0.1'' (port_of_int port) (lg_connect_ret io), Close fd])
         else (fd, [Socket fd, Connect fd ''127.0.0.1'' (port_of_int port) (lg_connect_ret io)]))"

definition legacy_run_client :: "legacy_io \<Rightarrow> int \<Rightarrow> u8 \<Rightarrow> u16 \<Rightarrow> u16 \<Rightarrow> int \<Rightarrow> int \<times> int \<times> event list" where
  "legacy_run_client io port fn addr val fd0 =
    (case legacy_connect io port fd0 of
       (fd, evs) \<Rightarrow>
         if fd < 0 then (1, fd, evs)
         else let p = legacy_client_PDU_init\<lparr>cl_fn := fn, cl_addr := addr, cl_value := val\<rparr>;
                  buf = legacy_client_encode_mbap_pdu p in
           if lg_send_ret io < 0 then (1, - 1, evs @ [Send fd buf, Close fd])
           else (0, fd, evs @ [Send fd buf, Recv fd 256]))"

section \<open>DNP3\<close>

definition legacy_make_client_socket :: "legacy_io \<Rightarrow> int \<Rightarrow> int \<times> event list" where
  "legacy_make_client_socket io port =
    (let s = lg_socket_ret io in
     if s < 0 then (- 1, [Socket s])
     else if lg_connect_ret io < 0
       then (- 1, [Socket s, Connect s ''127.0.0.1'' (port_of_int port) (lg_connect_ret io), Close s])
     else (s, [Socket s, Connect s ''127.0.0.1'' (port_of_int port) (lg_connect_ret io)]))"

definition legacy_dnp3_build_frame :: "u8 \<Rightarrow> bytes" where
  "legacy_dnp3_build_frame func =
    (let f = replicate 12 0; f = f[2 := 0x40]; f = f[7 := 0xC0]; f = f[6 := func] in f)"

definition legacy_dnp3_run_client :: "legacy_io \<Rightarrow> int \<Rightarrow> u8 \<Rightarrow> int \<times> event list \<times> string list" where
  "legacy_dnp3_run_client io port func =
    (case legacy_make_client_socket io port of
       (s, evs) \<Rightarrow>
         if s < 0 then (1, evs, [''[dnp3] connect failed''])
         else let frame = legacy_dnp3_build_frame func in
           (0, evs @ [Send s frame, Recv s 2048, Close s],
            [''[dnp3] sent fc='' @ nat_str (unat func)]))"

definition legacy_dnp3_make_server_socket :: "int \<Rightarrow> int \<Rightarrow> int \<Rightarrow> int \<Rightarrow> int \<times> event list" where
  "legacy_dnp3_make_server_socket port socket_r bind_r listen_r =
    (let s = socket_r in
     if s < 0 then (- 1, [Socket s])
     else if bind_r < 0 then (- 1, [Socket s, Setsockopt s, Bind s (port_of_int port) bind_r, Close s])
     else if listen_r < 0
       then (- 1, [Socket s, Setsockopt s, Bind s (port_of_int port) bind_r, Listen s 4 listen_r, Close s])
     else (s, [Socket s, Setsockopt s, Bind s (port_of_int port) bind_r, Listen s 4 listen_r]))"

definition legacy_dnp3_decode_and_log :: "bytes \<Rightarrow> string" where
  "legacy_dnp3_decode_and_log buf =
    (if length buf < 10 then ''[dnp3] too small frame ('' @ nat_str (length buf) @ '')''
     else let ctrl = buf ! 2; is_from_master = (ctrl AND 0x40 \<noteq> 0); func = buf ! 6
          in ''[dnp3] RX master='' @ (if is_from_master then ''1'' else ''0'') @ '' fc='' @ nat_str (unat func))"

definition legacy_dnp3_serve :: "int \<Rightarrow> int \<times> bytes option \<Rightarrow> event list \<times> string list" where
  "legacy_dnp3_serve srv x =
    (let c = fst x in
     if c < 0 then ([Accept srv c], [])
     else case sys_read 2048 (snd x) of
       None \<Rightarrow> ([Accept srv c, Recv c 2048, Close c], [])
     | Some buf \<Rightarrow>
         if 0 < length buf
         then ([Accept srv c, Recv c 2048, Send c buf, Close c], [legacy_dnp3_decode_and_log buf])
         else ([Accept srv c, Recv c 2048, Close c], []))"

definition legacy_dnp3_start_server ::
  "int \<Rightarrow> int \<Rightarrow> int \<Rightarrow> int \<Rightarrow> (int \<times> bytes option) list \<Rightarrow> int option \<times> event list \<times> string list" where
  "legacy_dnp3_start_server port socket_r bind_r listen_r xs =
    (case legacy_dnp3_make_server_socket port socket_r bind_r listen_r of
       (srv, evs) \<Rightarrow>
         if srv < 0 then (Some 1, evs, [''[dnp3] failed to bind '' @ int_str port])
         else (None, evs @ concat (map (fst \<circ> legacy_dnp3_serve srv) xs),
               (''[dnp3] listening on '' @ int_str port) # concat (map (snd \<circ> legacy_dnp3_serve srv) xs)))"

section \<open>IEC 60870-5-104\<close>

definition legacy_iec104_make_client_socket :: "legacy_io \<Rightarrow> int \<Rightarrow> int \<times> event list" where
  "legacy_iec104_make_client_socket io port =
    (let s = lg_socket_ret io in
     if s < 0 then (- 1, [Socket s])
     else if lg_connect_ret io < 0
       then (- 1, [Socket s, Connect s ''127.0.0.1'' (port_of_int port) (lg_connect_ret io), Close s])
     else (s, [Socket s, Connect s ''127.0.0.1'' (port_of_int port) (lg_connect_ret io)]))"

definition legacy_iec104_build_frame :: "u8 \<Rightarrow> u16 \<Rightarrow> bytes" where
  "legacy_iec104_build_frame typeId ioa =
    (let f = replicate 12 0;
         f = f[0 := 0x68]; f = f[1 := 0x0A];
         f = f[2 := 0x00]; f = f[3 := 0x00]; f = f[4 := 0x00]; f = f[5 := 0x00];
         f = f[6 := typeId]; f = f[7 := 0x01]; f = f[8 := 0x06]; f = f[9 := 0x01];
         f = f[10 := lo8 ioa]; f = f[11 := hi8 ioa]
     in f)"

definition legacy_iec104_run_client :: "legacy_io \<Rightarrow> int \<Rightarrow> u8 \<Rightarrow> int \<times> event list \<times> string list" where
  "legacy_iec104_run_client io port type_id =
    (case legacy_iec104_make_client_socket io port of
       (s, evs) \<Rightarrow>
         if s < 0 then (1, evs, [''[iec104] connect failed''])
         else let obj = 16; frame = legacy_iec104_build_frame type_id obj in
           (0, evs @ [Send s frame, Recv s 256, Close s],
            [''[iec104] sent type='' @ nat_str (unat type_id) @ '' addr='' @ nat_str (unat obj)]))"

definition legacy_iec104_make_listen_socket :: "int \<Rightarrow> int \<Rightarrow> int \<Rightarrow> int \<Rightarrow> int \<times> event list" where
  "legacy_iec104_make_listen_socket port socket_r bind_r listen_r =
    (let s = socket_r in
     if s < 0 then (- 1, [Socket s])
     else if bind_r < 0 then (- 1, [Socket s, Setsockopt s, Bind s (port_of_int port) bind_r])
     else if listen_r < 0
       then (- 1, [Socket s, Setsockopt s, Bind s (port_of_int port) bind_r, Listen s 8 listen_r])
     else (s, [Socket s, Setsockopt s, Bind s (port_of_int port) bind_r, Listen s 8 listen_r]))"

definition legacy_iec104_serve :: "int \<Rightarrow> int \<times> bytes option \<Rightarrow> event list \<times> string list" where
  "legacy_iec104_serve ls x =
    (let cs = fst x in
     if cs < 0 then ([Accept ls cs], [])
     else case sys_read 256 (snd x) of
       None \<Rightarrow> ([Accept ls cs, Recv cs 256, Send_out_of_bounds cs, Close cs], [])
     | Some buf \<Rightarrow>
         ([Accept ls cs, Recv cs 256, Send cs buf, Close cs],
          if 7 \<le> length buf then [''[iec104] RX type='' @ nat_str (unat (buf ! 6))] else []))"

definition legacy_iec104_start_server ::
  "int \<Rightarrow> int \<Rightarrow> int \<Rightarrow> int \<Rightarrow> (int \<times> bytes option) list \<Rightarrow> int option \<times> event list \<times> string list" where
  "legacy_iec104_start_server port socket_r bind_r listen_r xs =
    (case legacy_iec104_make_listen_socket port socket_r bind_r listen_r of
       (ls, evs) \<Rightarrow>
         if ls < 0 then (Some 1, evs, [''[iec104] listen failed''])
         else (None, evs @ concat (map (fst \<circ> legacy_iec104_serve ls) xs),
               (''[iec104] server listening '' @ int_str port) # concat (map (snd \<circ> legacy_iec104_serve ls) xs)))"

section \<open>Command line\<close>

definition legacy_parse_mode :: "string \<Rightarrow> mode" where
  "legacy_parse_mode s =
    (if s = ''start-server'' then START_SERVER else if s = ''request'' then REQUEST else INVALID)"

definition legacy_parse_protocol :: "string \<Rightarrow> sim_protocol" where
  "legacy_parse_protocol s =
    (if s = ''modbus'' then SIM_MODBUS else if s = ''dnp3'' then SIM_DNP3
     else if s = ''iec104'' then SIM_IEC104 else SIM_UNKNOWN)"

definition legacy_usage :: "string \<times> int" where
  "legacy_usage = (''scada-sim start-server <protocol> <port>'' @ [CHR 0x0A] @
     ''scada-sim request <protocol> <port> <fn> [addr val]'' @ [CHR 0x0A], 1)"

definition legacy_run_cli :: "string list \<Rightarrow> (stoi_error, cli_call) result" where
  "legacy_run_cli argv =
    (let argc = length argv in
     if argc < 4 then Inr Usage
     else let md = legacy_parse_mode (argv ! 1); pr = legacy_parse_protocol (argv ! 2) in
       bind_result (stoi (argv ! 3)) (\<lambda>port.
         if md = INVALID \<or> pr = SIM_UNKNOWN then Inr Usage
         else if md = START_SERVER then
           (if pr = SIM_MODBUS then Inr (Start_modbus port)
            else if pr = SIM_DNP3 then Inr (Start_dnp3 port)
            else if pr = SIM_IEC104 then Inr (Start_iec104 port)
            else Inr Usage)
         else if md = REQUEST then
           (if argc < 5 then Inr Usage
            else bind_result (stoi (argv ! 4)) (\<lambda>fn_int.
              let fn = word_of_int fn_int in
              if pr = SIM_MODBUS then
                (if argc < 7 then Inr Usage
                 else bind_result (stoi (argv ! 5)) (\<lambda>addr.
                        bind_result (stoi (argv ! 6)) (\<lambda>val.
                          Inr (Run_modbus port fn (word_of_int addr) (word_of_int val)))))
              else if pr = SIM_DNP3 then Inr (Run_dnp3 port fn)
              else if pr = SIM_IEC104 then
                bind_result (stoi (argv ! 4)) (\<lambda>t. Inr (Run_iec104 port (word_of_int t)))
              else Inr Usage))
         else Inr Usage))"

section \<open>The older code against the current one\<close>

lemma legacy_inits [simp]: "legacy_PDU_init = PDU_init" "legacy_client_PDU_init = client_PDU_init" "legacy_usage = usage"
  by (simp_all add: legacy_PDU_init_def PDU_init_def legacy_client_PDU_init_def client_PDU_init_def legacy_usage_def
      usage_def usage_text_def)

lemma legacy_codec: "legacy_encode_mbap_pdu = encode_mbap_pdu" "legacy_decode_mbap_pdu = decode_mbap_pdu"
  "legacy_client_encode_mbap_pdu = client_encode_mbap_pdu"
  by (simp_all add: fun_eq_iff legacy_encode_mbap_pdu_def encode_mbap_pdu_def legacy_decode_mbap_pdu_def decode_mbap_pdu_def
      legacy_client_encode_mbap_pdu_def client_encode_mbap_pdu_def)

lemma legacy_dnp3: "legacy_dnp3_build_frame = dnp3_build_frame" "legacy_dnp3_decode_and_log = dnp3_decode_and_log"
  "legacy_dnp3_make_server_socket = dnp3_make_server_socket" "legacy_dnp3_serve = dnp3_serve"
  "legacy_dnp3_start_server = dnp3_start_server"
proof -
  show f: "legacy_dnp3_build_frame = dnp3_build_frame" "legacy_dnp3_decode_and_log = dnp3_decode_and_log"
    "legacy_dnp3_make_server_socket = dnp3_make_server_socket"
    by (simp_all only: fun_eq_iff legacy_dnp3_build_frame_def dnp3_build_frame_def legacy_dnp3_decode_and_log_def
        dnp3_decode_and_log_def legacy_dnp3_make_server_socket_def dnp3_make_server_socket_def simp_thms)
  show g: "legacy_dnp3_serve = dnp3_serve"
    by (simp only: fun_eq_iff legacy_dnp3_serve_def dnp3_serve_def f simp_thms)
  show "legacy_dnp3_start_server = dnp3_start_server"
    by (simp only: fun_eq_iff legacy_dnp3_start_server_def dnp3_start_server_def f g simp_thms)
qed

lemma legacy_iec104: "legacy_iec104_build_frame = iec104_build_frame" "legacy_iec104_serve = iec104_serve"
  "legacy_iec104_make_listen_socket = iec104_make_listen_socket" "legacy_iec104_start_server = iec104_start_server"
proof -
  show f: "legacy_iec104_build_frame = iec104_build_frame" "legacy_iec104_serve = iec104_serve"
    "legacy_iec104_make_listen_socket = iec104_make_listen_socket"
    by (simp_all only: fun_eq_iff legacy_iec104_build_frame_def iec104_build_frame_def legacy_iec104_serve_def
        iec104_serve_def legacy_iec104_make_listen_socket_def iec104_make_listen_socket_def simp_thms)
  show "legacy_iec104_start_server = iec104_start_server"
    by (simp only: fun_eq_iff legacy_iec104_start_server_def iec104_start_server_def f simp_thms)
qed

lemma legacy_cli: "legacy_run_cli = run_cli"
proof -
  have "legacy_parse_mode = parse_mode" "legacy_parse_protocol = parse_protocol"
    by (simp_all only: fun_eq_iff legacy_parse_mode_def parse_mode_def legacy_parse_protocol_def parse_protocol_def simp_thms)
  then show ?thesis
    by (simp only: fun_eq_iff legacy_run_cli_def run_cli_def simp_thms)
qed

text \<open>A client of the older code is a client of the current one for the local host, apart from the name lookup.\<close>

definition local_io :: "legacy_io \<Rightarrow> client_io" where
  "local_io io = \<lparr>cl_socket_ret = lg_socket_ret io, target_host = None, resolved = Some ''127.0.0.1'',
     cl_connect_ret = lg_connect_ret io, send_ret = lg_send_ret io\<rparr>"

definition no_lookup :: "event list \<Rightarrow> event list" where
  "no_lookup evs = filter (\<lambda>e. e \<noteq> Resolve ''127.0.0.1'' True) evs"

lemma legacy_client_agrees:
  "legacy_run_client io port fn addr val fd0 =
    (case modbus_run_client (local_io io) port fn addr val fd0 of (rc, fd, evs) \<Rightarrow> (rc, fd, no_lookup evs))"
  by (simp add: legacy_run_client_def modbus_run_client_def legacy_connect_def modbus_connect_def local_io_def client_host_def
      legacy_codec no_lookup_def Let_def)

lemma legacy_make_client_socket_fds:
  assumes "legacy_make_client_socket io port = (s, evs)"
  shows "fds_after evs fds = (if s < 0 then fds else s # fds)"
  using assms by (auto simp: legacy_make_client_socket_def Let_def split: if_splits)

interpretation legacy_dnp3_client_fds: fd_neutral "\<lambda>_ s. s" "\<lambda>(io, port, func) _. fst (snd (legacy_dnp3_run_client io port func))"
  using legacy_make_client_socket_fds
  by unfold_locales (fastforce simp: legacy_dnp3_run_client_def Let_def split: prod.split)

lemma legacy_iec104_make_client_socket_fds:
  assumes "legacy_iec104_make_client_socket io port = (s, evs)"
  shows "fds_after evs fds = (if s < 0 then fds else s # fds)"
  using assms by (auto simp: legacy_iec104_make_client_socket_def Let_def split: if_splits)

interpretation legacy_iec104_client_fds: fd_neutral "\<lambda>_ s. s" "\<lambda>(io, port, t) _. fst (snd (legacy_iec104_run_client io port t))"
  using legacy_iec104_make_client_socket_fds
  by unfold_locales (fastforce simp: legacy_iec104_run_client_def Let_def split: prod.split)

text \<open>
  The older PLC answers every request as the current one does while its lock is off. So over any sequence of requests without
  an engaging safety-coil command both give the same answers; and unlike the current one the older PLC never refuses,
  so the safety coil that PRISM sends has no effect on it.
\<close>

definition legacy_response :: "bytes \<Rightarrow> bytes" where
  "legacy_response v = fst (legacy_handle_request v)"

lemma legacy_response_unlocked: "\<not> write_locked s \<Longrightarrow> plc_response v s = legacy_response v"
  by (auto simp: plc_parts legacy_response_def legacy_handle_request_def legacy_codec Let_def)

lemma legacy_never_refuses: "length (legacy_response v) = 12"
  by (simp add: legacy_response_def legacy_handle_request_def legacy_encode_mbap_pdu_def Let_def)

fun plc_answers :: "bytes list \<Rightarrow> plc \<Rightarrow> bytes list" where
  "plc_answers [] s = []"
| "plc_answers (v # vs) s = plc_response v s # plc_answers vs (plc_step v s)"

lemma answers_unlocked:
  "\<forall>v \<in> set vs. \<not> engage_frame v \<Longrightarrow> \<not> write_locked s \<Longrightarrow> plc_answers vs s = map legacy_response vs"
  by (induction vs arbitrary: s) (simp_all add: legacy_response_unlocked plc_step_lock)

lemma legacy_response_echo: "legacy_response v = encode_mbap_pdu (decode_mbap_pdu v)"
  by (simp add: legacy_response_def legacy_handle_request_def legacy_codec Let_def)

definition refused :: "bytes \<Rightarrow> plc \<Rightarrow> bool" where
  "refused v s \<longleftrightarrow> write_locked s \<and> is_write_fc (pdu_function (decode_mbap_pdu v)) \<and> \<not> safety_frame v"

lemma response_differs: "plc_response v s \<noteq> legacy_response v \<longleftrightarrow> refused v s"
  using exception_is_no_echo by (auto simp: plc_parts legacy_response_echo refused_def safety_frame_def Let_def)

section \<open>Properties\<close>

text \<open>
  C35. The two simulators differ exactly in the lock. Over any sequence of requests the current PLC gives the same answers as the
  older one, unless some request is a write other than a safety-coil command that arrives while the current PLC
  is locked, and then they do differ; the older PLC echoes every request, so the coil that PRISM sends has no effect on it.
\<close>

theorem older_plc_differs_on_refusals:
  "plc_answers vs s = map legacy_response vs \<longleftrightarrow>
    \<not> (\<exists>us v ws. vs = us @ v # ws \<and> write_locked (fold plc_step us s) \<and>
         is_write_fc (pdu_function (decode_mbap_pdu v)) \<and> \<not> safety_frame v)"
proof (induction vs arbitrary: s)
  case (Cons v vs)
  have "(\<exists>us u ws. v # vs = us @ u # ws \<and> refused u (fold plc_step us s)) \<longleftrightarrow>
      refused v s \<or> (\<exists>us u ws. vs = us @ u # ws \<and> refused u (fold plc_step us (plc_step v s)))" (is "?l = ?r")
  proof
    assume ?l
    then obtain us u ws where d: "v # vs = us @ u # ws" "refused u (fold plc_step us s)"
      by blast
    then show ?r
      by (cases us) auto
  next
    assume ?r
    then show ?l
    proof
      assume "refused v s"
      then have "v # vs = [] @ v # vs \<and> refused v (fold plc_step [] s)"
        by simp
      then show ?l
        by blast
    next
      assume "\<exists>us u ws. vs = us @ u # ws \<and> refused u (fold plc_step us (plc_step v s))"
      then obtain us u ws where "vs = us @ u # ws" "refused u (fold plc_step us (plc_step v s))"
        by blast
      then have "v # vs = (v # us) @ u # ws \<and> refused u (fold plc_step (v # us) s)"
        by simp
      then show ?l
        by blast
    qed
  qed
  then show ?case
    using Cons.IH[of "plc_step v s"] response_differs[of v s] by (simp add: refused_def) blast
qed simp

end
