(* ===== verification/Parsers.thy ===== *)
theory Parsers
  imports Prism_Types
begin

text \<open>
  The protocol classifier (\<^verbatim>\<open>parser/proto_classifier.cpp\<close>) and the three record parsers
  (\<^verbatim>\<open>modbus_parser.cpp\<close>, \<^verbatim>\<open>dnp3_parser.cpp\<close>, \<^verbatim>\<open>iec104_parser.cpp\<close>). Each parser is a pure function
  of the packet; \<^verbatim>\<open>b ! i\<close> is only reached behind the length guards of the sources.

  What the main loop expects of a parser is the locale \<^verbatim>\<open>record_parser\<close>, interpreted on the three
  parsers: a packet is either accepted, and then its record carries the protocol's name and the
  packet's time stamp, or it yields a record that the main loop discards.
\<close>

unbundle bit_operations_syntax

section \<open>Classification and parsing\<close>

definition classify_protocol :: "raw_packet \<Rightarrow> proto" where
  "classify_protocol p =
    (if srcPort p = 502 \<or> dstPort p = 502 then MODBUS
     else if srcPort p = 20000 \<or> dstPort p = 20000 then DNP3
     else if srcPort p = 2404 \<or> dstPort p = 2404 then IEC104
     else UNKNOWN)"

definition ModbusParser_parse :: "raw_packet \<Rightarrow> parsed_record" where
  "ModbusParser_parse packet =
    (let rec0 = ParsedRecord_init\<lparr>rec_timestamp := pkt_timestamp packet, protocol := ''Modbus''\<rparr>;
         b = payload packet; n = length b
     in if n < 12 then rec0\<lparr>protocol := ''Unknown''\<rparr>
        else let rec1 = rec0\<lparr>isRequest := (dstPort packet = 502)\<rparr>;
                 pdu = 7;
                 rec2 = rec1\<lparr>functionCode := b ! pdu, address := be16 (b ! (pdu + 1)) (b ! (pdu + 2))\<rparr>
             in rec2\<lparr>isWrite := (functionCode rec2 = 5 \<or> functionCode rec2 = 6 \<or>
                                 functionCode rec2 = 15 \<or> functionCode rec2 = 16)\<rparr>)"

definition DNP3Parser_parse :: "raw_packet \<Rightarrow> parsed_record" where
  "DNP3Parser_parse packet =
    (let rec0 = ParsedRecord_init\<lparr>rec_timestamp := pkt_timestamp packet, protocol := ''DNP3''\<rparr>
     in if srcPort packet \<noteq> 20000 \<and> dstPort packet \<noteq> 20000 then rec0
        else let b = payload packet; n = length b
             in if n < 13 then rec0\<lparr>protocol := ''Unknown''\<rparr>
                else let ctrl = b ! 2;
                         rec1 = rec0\<lparr>isRequest := (ctrl AND 0x40 \<noteq> 0), functionCode := b ! 12\<rparr>
                     in rec1\<lparr>isWrite := (functionCode rec1 = 0x02 \<or> functionCode rec1 = 0x05 \<or>
                                         functionCode rec1 = 0x06 \<or> functionCode rec1 = 0x82),
                             address := 0\<rparr>)"

text \<open>
  The IEC-104 parser assembles a 24-bit address in a \<^verbatim>\<open>uint32_t\<close> and assigns it to the 16-bit
  field, which drops the third byte.
\<close>

definition IEC104Parser_parse :: "raw_packet \<Rightarrow> parsed_record" where
  "IEC104Parser_parse packet =
    (let rec0 = ParsedRecord_init\<lparr>rec_timestamp := pkt_timestamp packet\<rparr>
     in if srcPort packet \<noteq> 2404 \<and> dstPort packet \<noteq> 2404 then ParsedRecord_init
        else let b = payload packet; n = length b
             in if n < 12 \<or> b ! 0 \<noteq> 0x68 then ParsedRecord_init
                else let rec1 = rec0\<lparr>protocol := ''IEC104''\<rparr>; typeId = b ! 6; cot = b ! 8
                     in if typeId = 0 then ParsedRecord_init
                        else rec1\<lparr>functionCode := typeId, isRequest := (cot = 6),
                                  isWrite := (45 \<le> typeId \<and> typeId \<le> 50),
                                  address := ucast (ucast (b ! 9) OR push_bit 8 (ucast (b ! 10)) OR
                                                    push_bit 16 (ucast (b ! 11)) :: 32 word)\<rparr>)"

text \<open>The main loop drops a record without a protocol name or with the name \<^verbatim>\<open>Unknown\<close>.\<close>

definition record_discarded :: "parsed_record \<Rightarrow> bool" where
  "record_discarded r \<longleftrightarrow> protocol r = '''' \<or> protocol r = ''Unknown''"

section \<open>The contract of a parser\<close>

locale record_parser =
  fixes parse :: "raw_packet \<Rightarrow> parsed_record"
    and name :: string
    and accepts :: "raw_packet \<Rightarrow> bool"
  assumes name_nonempty: "name \<noteq> ''''"
    and name_known: "name \<noteq> ''Unknown''"
    and accepted: "accepts p \<Longrightarrow> protocol (parse p) = name \<and> rec_timestamp (parse p) = pkt_timestamp p"
    and rejected: "\<not> accepts p \<Longrightarrow> record_discarded (parse p)"
begin

lemma discarded_iff: "record_discarded (parse p) \<longleftrightarrow> \<not> accepts p"
  using accepted rejected name_nonempty name_known by (auto simp: record_discarded_def)

lemma kept_time: "\<not> record_discarded (parse p) \<Longrightarrow> rec_timestamp (parse p) = pkt_timestamp p"
  using accepted discarded_iff by blast

lemma kept_name: "\<not> record_discarded (parse p) \<Longrightarrow> protocol (parse p) = name"
  using accepted discarded_iff by blast

end

definition modbus_accepts :: "raw_packet \<Rightarrow> bool" where
  "modbus_accepts p \<longleftrightarrow> 12 \<le> length (payload p)"

definition dnp3_accepts :: "raw_packet \<Rightarrow> bool" where
  "dnp3_accepts p \<longleftrightarrow> srcPort p \<noteq> 20000 \<and> dstPort p \<noteq> 20000 \<or> 13 \<le> length (payload p)"

definition iec104_accepts :: "raw_packet \<Rightarrow> bool" where
  "iec104_accepts p \<longleftrightarrow> (srcPort p = 2404 \<or> dstPort p = 2404) \<and> 12 \<le> length (payload p) \<and>
     payload p ! 0 = 0x68 \<and> payload p ! 6 \<noteq> 0"

interpretation modbus: record_parser ModbusParser_parse "''Modbus''" modbus_accepts
  by unfold_locales
    (auto simp: ModbusParser_parse_def modbus_accepts_def record_discarded_def Let_def)

interpretation dnp3: record_parser DNP3Parser_parse "''DNP3''" dnp3_accepts
  by unfold_locales
    (auto simp: DNP3Parser_parse_def dnp3_accepts_def record_discarded_def Let_def)

interpretation iec104: record_parser IEC104Parser_parse "''IEC104''" iec104_accepts
  by unfold_locales
    (auto simp: IEC104Parser_parse_def iec104_accepts_def record_discarded_def ParsedRecord_init_def Let_def)

section \<open>The fields of accepted packets\<close>

lemma modbus_fields:
  assumes "modbus_accepts p"
  shows "ModbusParser_parse p =
    \<lparr>rec_timestamp = pkt_timestamp p, protocol = ''Modbus'', isRequest = (dstPort p = 502),
     isWrite = (payload p ! 7 \<in> {5, 6, 15, 16}), functionCode = payload p ! 7,
     address = be16 (payload p ! 8) (payload p ! 9)\<rparr>"
  using assms by (auto simp: ModbusParser_parse_def modbus_accepts_def ParsedRecord_init_def Let_def)

lemma dnp3_fields:
  assumes "13 \<le> length (payload p)" and "srcPort p = 20000 \<or> dstPort p = 20000"
  shows "DNP3Parser_parse p =
    \<lparr>rec_timestamp = pkt_timestamp p, protocol = ''DNP3'', isRequest = (payload p ! 2 AND 0x40 \<noteq> 0),
     isWrite = (payload p ! 12 \<in> {2, 5, 6, 0x82}), functionCode = payload p ! 12, address = 0\<rparr>"
  using assms by (auto simp: DNP3Parser_parse_def ParsedRecord_init_def Let_def)

text \<open>The 24-bit address, truncated to 16 bits, is the first two of its bytes in little-endian order.\<close>

lemma iec104_address:
  "ucast (ucast (a :: u8) OR push_bit 8 (ucast (b :: u8)) OR push_bit 16 (ucast (c :: u8)) :: 32 word) = be16 b a"
  by (rule bit_eqI) (auto simp: bit_be16 bit_simps dest: bit_imp_le_length)

lemma iec104_fields:
  assumes "iec104_accepts p"
  shows "IEC104Parser_parse p =
    \<lparr>rec_timestamp = pkt_timestamp p, protocol = ''IEC104'', isRequest = (payload p ! 8 = 6),
     isWrite = (45 \<le> payload p ! 6 \<and> payload p ! 6 \<le> 50), functionCode = payload p ! 6,
     address = be16 (payload p ! 10) (payload p ! 9)\<rparr>"
  using assms unfolding IEC104Parser_parse_def Let_def iec104_address
  by (auto simp: iec104_accepts_def ParsedRecord_init_def)

section \<open>Properties\<close>

lemma append_bytes: "i < length b \<Longrightarrow> (b @ xs) ! i = b ! i"
  by (simp add: nth_append)

text \<open>
  What follows a message does not matter. When a parser accepts a packet, the same packet with any further
  bytes at its end, such as the padding of a short Ethernet frame or the next message of the stream, gives
  the same record: no parser looks beyond its fixed fields, and messages after the first are ignored.
\<close>

lemma parsers_ignore_trailing_bytes:
  "(12 \<le> length (payload p) \<longrightarrow> ModbusParser_parse (p\<lparr>payload := payload p @ xs\<rparr>) = ModbusParser_parse p) \<and>
   (13 \<le> length (payload p) \<longrightarrow> DNP3Parser_parse (p\<lparr>payload := payload p @ xs\<rparr>) = DNP3Parser_parse p) \<and>
   (12 \<le> length (payload p) \<longrightarrow> IEC104Parser_parse (p\<lparr>payload := payload p @ xs\<rparr>) = IEC104Parser_parse p)"
proof (intro conjI impI)
  assume "12 \<le> length (payload p)"
  then show "ModbusParser_parse (p\<lparr>payload := payload p @ xs\<rparr>) = ModbusParser_parse p"
    by (simp add: ModbusParser_parse_def append_bytes Let_def)
next
  assume "13 \<le> length (payload p)"
  then show "DNP3Parser_parse (p\<lparr>payload := payload p @ xs\<rparr>) = DNP3Parser_parse p"
    by (simp add: DNP3Parser_parse_def append_bytes Let_def)
next
  assume l: "12 \<le> length (payload p)"
  then have "payload p \<noteq> []"
    by auto
  with l show "IEC104Parser_parse (p\<lparr>payload := payload p @ xs\<rparr>) = IEC104Parser_parse p"
    by (simp add: IEC104Parser_parse_def append_bytes Let_def)
qed

definition read_packet :: raw_packet where
  "read_packet = \<lparr>pkt_timestamp = 5, payload = [0, 1, 0, 0, 0, 6, 1, 3, 0, 10, 0, 1], srcIp = '''', dstIp = '''',
     srcPort = 40000, dstPort = 502\<rparr>"

lemma parsers_ignore_trailing_bytes_witness:
  "ModbusParser_parse (read_packet\<lparr>payload := payload read_packet @ [0, 2, 0, 0, 0, 6, 1, 5, 0, 10, 0, 1]\<rparr>) =
   ModbusParser_parse read_packet"
  using parsers_ignore_trailing_bytes[of read_packet "[0, 2, 0, 0, 0, 6, 1, 5, 0, 10, 0, 1]"]
  by (simp add: read_packet_def)

end
