(* ===== verification/Window_Manager.thy ===== *)
theory Window_Manager
  imports Prism_Types
begin

text \<open>
  The sliding window of \<^verbatim>\<open>window/window_manager.cpp\<close>. \<^verbatim>\<open>WindowManager_addRecord\<close> is the whole
  member function: the monotonicity guard, the first-record initialisation, the buffer, the
  emission of at most one window, and the eviction loop. Durations in milliseconds become
  nanoseconds when the object is constructed, as the comparison with time points does in C++.

  The abstract specification \<^verbatim>\<open>spec_add\<close> keeps the whole history of accepted records and the
  number of windows emitted; the \<^verbatim>\<open>k\<close>-th window covers a fixed interval counted from the first
  record. \<^verbatim>\<open>wm_rel\<close> relates the two and the simulation lemma shows that evicting old records
  never loses one that a later window needs. What the rest of the pipeline relies on is the
  locale \<^verbatim>\<open>windowing\<close>.
\<close>

record window_manager =
  windowSize :: int
  stepSize :: int
  buffer :: "parsed_record list"
  nextEmitTime :: timestamp
  lastTime :: timestamp
  initialized :: bool

definition ns_of_ms :: "int \<Rightarrow> int" where
  "ns_of_ms ms = ms * 1000000"

definition WindowManager_new :: "int \<Rightarrow> int \<Rightarrow> window_manager" where
  "WindowManager_new size_ms step_ms =
     \<lparr>windowSize = ns_of_ms size_ms, stepSize = ns_of_ms step_ms, buffer = [],
      nextEmitTime = 0, lastTime = 0, initialized = False\<rparr>"

fun evict :: "timestamp \<Rightarrow> parsed_record list \<Rightarrow> parsed_record list" where
  "evict oldestNeeded [] = []"
| "evict oldestNeeded (r # rs) =
     (if rec_timestamp r < oldestNeeded then evict oldestNeeded rs else r # rs)"

definition WindowManager_addRecord ::
    "window_manager \<Rightarrow> parsed_record \<Rightarrow> window \<Rightarrow> window_manager \<times> window \<times> bool" where
  "WindowManager_addRecord wm record outWindow =
    (if initialized wm \<and> rec_timestamp record < lastTime wm then (wm, outWindow, False)
     else
      let wm = wm\<lparr>lastTime := rec_timestamp record\<rparr>;
          wm = (if \<not> initialized wm
                then wm\<lparr>nextEmitTime := rec_timestamp record + windowSize wm, initialized := True\<rparr>
                else wm);
          wm = wm\<lparr>buffer := buffer wm @ [record]\<rparr>
      in if nextEmitTime wm \<le> rec_timestamp record then
           let e = nextEmitTime wm; s = nextEmitTime wm - windowSize wm;
               out = \<lparr>startTime = s, endTime = e,
                      records = filter (\<lambda>r. s \<le> rec_timestamp r \<and> rec_timestamp r \<le> e) (buffer wm)\<rparr>;
               wm = wm\<lparr>nextEmitTime := nextEmitTime wm + stepSize wm\<rparr>;
               oldestNeeded = nextEmitTime wm - windowSize wm;
               wm = wm\<lparr>buffer := evict oldestNeeded (buffer wm)\<rparr>
           in (wm, out, True)
         else (wm, outWindow, False))"

section \<open>The interface of the window\<close>

text \<open>The records that a window holds are in time order and inside its bounds.\<close>

definition window_ok :: "int \<Rightarrow> window \<Rightarrow> bool" where
  "window_ok wsize w \<longleftrightarrow> endTime w = startTime w + wsize \<and> sorted (map rec_timestamp (records w)) \<and>
     (\<forall>r \<in> set (records w). startTime w \<le> rec_timestamp r \<and> rec_timestamp r \<le> endTime w)"

locale windowing =
  fixes add :: "'s \<Rightarrow> parsed_record \<Rightarrow> window \<Rightarrow> 's \<times> window \<times> bool"
    and inv :: "'s \<Rightarrow> bool"
    and wsize :: int
  assumes add_inv: "inv s \<Longrightarrow> inv (fst (add s r w))"
    and add_emits: "inv s \<Longrightarrow> add s r w = (s', w', True) \<Longrightarrow> window_ok wsize w'"
    and add_silent: "add s r w = (s', w', False) \<Longrightarrow> w' = w"
begin

fun feed :: "'s \<Rightarrow> window \<Rightarrow> parsed_record list \<Rightarrow> window list" where
  "feed s w [] = []"
| "feed s w (r # rs) =
     (case add s r w of (s', w', b) \<Rightarrow> (if b then [w'] else []) @ feed s' w' rs)"

lemma feed_ok: "inv s \<Longrightarrow> x \<in> set (feed s w rs) \<Longrightarrow> window_ok wsize x"
proof (induction rs arbitrary: s w)
  case (Cons r rs)
  obtain s' w' b where a: "add s r w = (s', w', b)"
    by (cases "add s r w")
  with Cons.prems(1) have "inv s'"
    using add_inv[of s r w] by simp
  with Cons a show ?case
    using add_emits[of s r w s' w'] by (cases b) auto
qed simp

lemma emitted_gap:
  assumes "window_ok wsize w" and "i < j" and "j < length (records w)"
  shows "0 \<le> rec_timestamp (records w ! j) - rec_timestamp (records w ! i) \<and>
         rec_timestamp (records w ! j) - rec_timestamp (records w ! i) \<le> wsize"
proof -
  have "startTime w \<le> rec_timestamp (records w ! i)" "rec_timestamp (records w ! j) \<le> endTime w"
    using assms by (auto simp: window_ok_def)
  moreover have "rec_timestamp (records w ! i) \<le> rec_timestamp (records w ! j)"
    using assms sorted_nth_mono[of "map rec_timestamp (records w)" i j] by (simp add: window_ok_def)
  moreover have "endTime w = startTime w + wsize"
    using assms(1) by (simp add: window_ok_def)
  ultimately show ?thesis
    by simp
qed

end

section \<open>The abstract specification\<close>

text \<open>The history of accepted records, and how many windows have been emitted.\<close>

record window_spec =
  history :: "parsed_record list"
  emitted :: nat

definition spec_start :: "int \<Rightarrow> window_spec \<Rightarrow> timestamp" where
  "spec_start step sp = rec_timestamp (hd (history sp)) + int (emitted sp) * step"

definition in_window :: "timestamp \<Rightarrow> timestamp \<Rightarrow> parsed_record \<Rightarrow> bool" where
  "in_window s e r \<longleftrightarrow> s \<le> rec_timestamp r \<and> rec_timestamp r \<le> e"

definition spec_add ::
    "int \<Rightarrow> int \<Rightarrow> window_spec \<Rightarrow> parsed_record \<Rightarrow> window_spec \<times> window option" where
  "spec_add wsize step sp r =
    (if history sp \<noteq> [] \<and> rec_timestamp r < rec_timestamp (last (history sp)) then (sp, None)
     else let sp' = sp\<lparr>history := history sp @ [r]\<rparr>; s = spec_start step sp'; e = s + wsize
          in if e \<le> rec_timestamp r
             then (sp'\<lparr>emitted := Suc (emitted sp')\<rparr>,
                   Some \<lparr>startTime = s, endTime = e, records = filter (in_window s e) (history sp')\<rparr>)
             else (sp', None))"

definition from_time :: "timestamp \<Rightarrow> parsed_record list \<Rightarrow> parsed_record list" where
  "from_time s rs = filter (\<lambda>r. s \<le> rec_timestamp r) rs"

definition wm_rel :: "int \<Rightarrow> int \<Rightarrow> window_manager \<Rightarrow> window_spec \<Rightarrow> bool" where
  "wm_rel wsize step wm sp \<longleftrightarrow>
     windowSize wm = wsize \<and> stepSize wm = step \<and> initialized wm = (history sp \<noteq> []) \<and>
     sorted (map rec_timestamp (history sp)) \<and>
     (if history sp = [] then buffer wm = [] \<and> emitted sp = 0
      else lastTime wm = rec_timestamp (last (history sp)) \<and>
           nextEmitTime wm = spec_start step sp + wsize \<and>
           sorted (map rec_timestamp (buffer wm)) \<and> set (buffer wm) \<subseteq> set (history sp) \<and>
           from_time (spec_start step sp) (buffer wm) = from_time (spec_start step sp) (history sp))"

lemma wm_rel_new: "wm_rel (ns_of_ms a) (ns_of_ms b) (WindowManager_new a b) \<lparr>history = [], emitted = 0\<rparr>"
  by (simp add: wm_rel_def WindowManager_new_def)

lemma evict_dropWhile: "evict t rs = dropWhile (\<lambda>r. rec_timestamp r < t) rs"
  by (induction rs) auto

lemma evict_sorted: "sorted (map rec_timestamp rs) \<Longrightarrow> evict t rs = from_time t rs"
  by (simp add: evict_dropWhile filter_dropWhile_sorted from_time_def)

lemma from_time_append: "from_time s (xs @ ys) = from_time s xs @ from_time s ys"
  by (simp add: from_time_def)

lemma in_window_from_time: "filter (in_window s e) (from_time s rs) = filter (in_window s e) rs"
  by (induction rs) (auto simp: in_window_def from_time_def)

lemma from_time_later: "s \<le> s' \<Longrightarrow> from_time s' (from_time s rs) = from_time s' rs"
  by (induction rs) (auto simp: from_time_def)

lemma from_time_eq_later:
  assumes eq: "from_time s xs = from_time s ys" and le: "s \<le> s'"
  shows "from_time s' xs = from_time s' ys"
proof -
  have "from_time s' xs = from_time s' (from_time s xs)"
    using le by (rule from_time_later[symmetric])
  also have "\<dots> = from_time s' ys"
    unfolding eq using le by (rule from_time_later)
  finally show ?thesis .
qed

lemma sorted_from_time: "sorted (map rec_timestamp rs) \<Longrightarrow> sorted (map rec_timestamp (from_time s rs))"
  by (simp add: from_time_def sorted_map_filter)

text \<open>The state after the record has been accepted and buffered, before the emission test.\<close>

definition wm_buffered :: "window_manager \<Rightarrow> parsed_record \<Rightarrow> window_manager" where
  "wm_buffered wm r =
     wm\<lparr>buffer := buffer wm @ [r], lastTime := rec_timestamp r, initialized := True,
        nextEmitTime := (if initialized wm then nextEmitTime wm else rec_timestamp r + windowSize wm)\<rparr>"

definition wm_emitted :: "window_manager \<Rightarrow> window_manager" where
  "wm_emitted wm = wm\<lparr>nextEmitTime := nextEmitTime wm + stepSize wm,
     buffer := evict (nextEmitTime wm + stepSize wm - windowSize wm) (buffer wm)\<rparr>"

lemma wm_buffered_initialized [simp]: "initialized (wm_buffered wm r)"
  by (simp add: wm_buffered_def)

lemma addRecord_cases:
  "WindowManager_addRecord wm r out =
    (if initialized wm \<and> rec_timestamp r < lastTime wm then (wm, out, False)
     else let wm' = wm_buffered wm r; e = nextEmitTime wm'; s = e - windowSize wm'
       in if e \<le> rec_timestamp r
          then (wm_emitted wm', \<lparr>startTime = s, endTime = e, records = filter (in_window s e) (buffer wm')\<rparr>, True)
          else (wm', out, False))"
  by (auto simp: WindowManager_addRecord_def wm_buffered_def wm_emitted_def in_window_def[abs_def] Let_def)

lemma wm_rel_buffered:
  assumes rel: "wm_rel wsize step wm sp"
    and acc: "\<not> (initialized wm \<and> rec_timestamp r < lastTime wm)"
  shows "wm_rel wsize step (wm_buffered wm r) (sp\<lparr>history := history sp @ [r]\<rparr>)"
proof (cases "history sp = []")
  case True
  with rel show ?thesis
    by (simp add: wm_rel_def wm_buffered_def spec_start_def from_time_def)
next
  case False
  have last: "rec_timestamp (last (history sp)) \<le> rec_timestamp r"
    using rel acc False by (auto simp: wm_rel_def)
  have hist: "sorted (map rec_timestamp (history sp))"
    using rel by (simp add: wm_rel_def)
  have below: "rec_timestamp x \<le> rec_timestamp r" if "x \<in> set (history sp)" for x
  proof -
    from that obtain i where "i < length (history sp)" "x = history sp ! i"
      by (auto simp: in_set_conv_nth)
    with hist False have "rec_timestamp x \<le> rec_timestamp (last (history sp))"
      using sorted_nth_mono[OF hist, of i "length (history sp) - 1"] by (simp add: last_conv_nth)
    with last show ?thesis by simp
  qed
  have "spec_start step (sp\<lparr>history := history sp @ [r]\<rparr>) = spec_start step sp"
    using False by (simp add: spec_start_def)
  with rel False below show ?thesis
    by (auto simp: wm_rel_def wm_buffered_def sorted_append from_time_append)
qed

lemma wm_rel_emitted:
  assumes rel: "wm_rel wsize step wm sp" and ne: "history sp \<noteq> []" and step: "0 \<le> step"
  shows "wm_rel wsize step (wm_emitted wm) (sp\<lparr>emitted := Suc (emitted sp)\<rparr>)"
proof -
  let ?s = "spec_start step sp" and ?s' = "spec_start step (sp\<lparr>emitted := Suc (emitted sp)\<rparr>)"
  have s': "?s' = ?s + step"
    by (simp add: spec_start_def algebra_simps)
  have buf: "buffer (wm_emitted wm) = from_time ?s' (buffer wm)"
    using rel ne by (simp add: wm_rel_def wm_emitted_def evict_sorted s')
  have eq: "from_time ?s' (buffer wm) = from_time ?s' (history sp)"
    by (rule from_time_eq_later[of ?s]) (use rel ne step in \<open>simp_all add: wm_rel_def s'\<close>)
  have idem: "from_time ?s' (buffer (wm_emitted wm)) = from_time ?s' (history sp)"
    unfolding buf from_time_later[OF order_refl] by (rule eq)
  have srt: "sorted (map rec_timestamp (buffer (wm_emitted wm)))"
    unfolding buf using rel ne by (intro sorted_from_time) (simp add: wm_rel_def)
  have sub: "set (buffer (wm_emitted wm)) \<subseteq> set (history sp)"
    unfolding buf using rel ne by (auto simp: wm_rel_def from_time_def)
  have fields: "windowSize (wm_emitted wm) = wsize" "stepSize (wm_emitted wm) = step"
    "initialized (wm_emitted wm)" "lastTime (wm_emitted wm) = rec_timestamp (last (history sp))"
    "nextEmitTime (wm_emitted wm) = ?s' + wsize" "sorted (map rec_timestamp (history sp))"
    using rel ne by (simp_all add: wm_rel_def wm_emitted_def s')
  show ?thesis
    unfolding wm_rel_def using ne idem srt sub fields by simp
qed

lemma wm_rel_reject:
  "wm_rel wsize step wm sp \<Longrightarrow>
   (initialized wm \<and> rec_timestamp r < lastTime wm) =
   (history sp \<noteq> [] \<and> rec_timestamp r < rec_timestamp (last (history sp)))"
  by (auto simp: wm_rel_def)

lemma wm_rel_window:
  assumes "wm_rel wsize step wm sp" and "history sp \<noteq> []"
  shows "nextEmitTime wm = spec_start step sp + wsize" "windowSize wm = wsize"
    and "filter (in_window (spec_start step sp) e) (buffer wm) =
         filter (in_window (spec_start step sp) e) (history sp)"
  using assms in_window_from_time[of "spec_start step sp" e "buffer wm"]
    in_window_from_time[of "spec_start step sp" e "history sp"]
  by (auto simp: wm_rel_def)

text \<open>One call: the outputs agree and the relation is kept.\<close>

lemma addRecord_simulates:
  assumes rel: "wm_rel wsize step wm sp" and step: "0 \<le> step"
  shows "wm_rel wsize step (fst (WindowManager_addRecord wm r out)) (fst (spec_add wsize step sp r))"
    and "snd (WindowManager_addRecord wm r out) =
         (case snd (spec_add wsize step sp r) of None \<Rightarrow> (out, False) | Some w \<Rightarrow> (w, True))"
proof -
  let ?sp = "sp\<lparr>history := history sp @ [r]\<rparr>" and ?wm = "wm_buffered wm r"
  have "wm_rel wsize step (fst (WindowManager_addRecord wm r out)) (fst (spec_add wsize step sp r)) \<and>
    snd (WindowManager_addRecord wm r out) =
         (case snd (spec_add wsize step sp r) of None \<Rightarrow> (out, False) | Some w \<Rightarrow> (w, True))"
  proof (cases "initialized wm \<and> rec_timestamp r < lastTime wm")
    case True
    then have rej: "history sp \<noteq> [] \<and> rec_timestamp r < rec_timestamp (last (history sp))"
      using wm_rel_reject[OF rel] by blast
    show ?thesis
      unfolding addRecord_cases spec_add_def if_P[OF True] if_P[OF rej] using rel by simp
  next
    case False
    have b: "wm_rel wsize step ?wm ?sp"
      using rel False by (rule wm_rel_buffered)
    have e: "wm_rel wsize step (wm_emitted ?wm) (?sp\<lparr>emitted := Suc (emitted ?sp)\<rparr>)"
      using b step by (intro wm_rel_emitted) auto
    have w: "nextEmitTime ?wm = spec_start step ?sp + wsize" "windowSize ?wm = wsize"
      "filter (in_window (spec_start step ?sp) t) (buffer ?wm) =
       filter (in_window (spec_start step ?sp) t) (history ?sp)" for t
      using wm_rel_window[OF b] by auto
    from False have nrej: "\<not> (history sp \<noteq> [] \<and> rec_timestamp r < rec_timestamp (last (history sp)))"
      using wm_rel_reject[OF rel] by blast
    have add: "WindowManager_addRecord wm r out =
        (if spec_start step ?sp + wsize \<le> rec_timestamp r
         then (wm_emitted ?wm, \<lparr>startTime = spec_start step ?sp, endTime = spec_start step ?sp + wsize,
               records = filter (in_window (spec_start step ?sp) (spec_start step ?sp + wsize)) (history ?sp)\<rparr>, True)
         else (?wm, out, False))"
      unfolding addRecord_cases if_not_P[OF False] Let_def w(1,2) by (simp add: w(3))
    show ?thesis
      unfolding add spec_add_def if_not_P[OF nrej] Let_def
      by (cases "spec_start step ?sp + wsize \<le> rec_timestamp r") (simp_all only: if_True if_False fst_conv snd_conv b e option.case simp_thms)
  qed
  then show "wm_rel wsize step (fst (WindowManager_addRecord wm r out)) (fst (spec_add wsize step sp r))"
    and "snd (WindowManager_addRecord wm r out) =
         (case snd (spec_add wsize step sp r) of None \<Rightarrow> (out, False) | Some w \<Rightarrow> (w, True))"
    by blast+
qed

section \<open>Whole runs\<close>

text \<open>
  Feeding records to the window manager one after the other, as the main loop does: the state at
  the end, and the windows emitted, each with the record whose arrival caused it.
\<close>

fun wm_run :: "window_manager \<Rightarrow> window \<Rightarrow> parsed_record list \<Rightarrow> window_manager \<times> (parsed_record \<times> window) list" where
  "wm_run wm out [] = (wm, [])"
| "wm_run wm out (r # rs) =
     (case WindowManager_addRecord wm r out of
        (wm', out', b) \<Rightarrow> (case wm_run wm' out' rs of
           (wm'', ws) \<Rightarrow> (wm'', (if b then [(r, out')] else []) @ ws)))"

fun spec_run :: "int \<Rightarrow> int \<Rightarrow> window_spec \<Rightarrow> parsed_record list \<Rightarrow> window_spec \<times> (parsed_record \<times> window) list" where
  "spec_run wsize step sp [] = (sp, [])"
| "spec_run wsize step sp (r # rs) =
     (case spec_add wsize step sp r of
        (sp', w) \<Rightarrow> (case spec_run wsize step sp' rs of
           (sp'', ws) \<Rightarrow> (sp'', (case w of None \<Rightarrow> [] | Some x \<Rightarrow> [(r, x)]) @ ws)))"

lemma wm_run_Cons:
  "fst (wm_run wm out (r # rs)) =
     fst (wm_run (fst (WindowManager_addRecord wm r out)) (fst (snd (WindowManager_addRecord wm r out))) rs)"
  "snd (wm_run wm out (r # rs)) =
     (if snd (snd (WindowManager_addRecord wm r out)) then [(r, fst (snd (WindowManager_addRecord wm r out)))] else []) @
     snd (wm_run (fst (WindowManager_addRecord wm r out)) (fst (snd (WindowManager_addRecord wm r out))) rs)"
  by (simp_all add: split_beta)

lemma spec_run_Cons:
  "fst (spec_run wsize step sp (r # rs)) = fst (spec_run wsize step (fst (spec_add wsize step sp r)) rs)"
  "snd (spec_run wsize step sp (r # rs)) =
     (case snd (spec_add wsize step sp r) of None \<Rightarrow> [] | Some x \<Rightarrow> [(r, x)]) @
     snd (spec_run wsize step (fst (spec_add wsize step sp r)) rs)"
  by (simp_all add: split_beta)

declare wm_run.simps(2) [simp del] spec_run.simps(2) [simp del]

lemma run_simulates:
  assumes "wm_rel wsize step wm sp" and "0 \<le> step"
  shows "wm_rel wsize step (fst (wm_run wm out rs)) (fst (spec_run wsize step sp rs)) \<and>
         snd (wm_run wm out rs) = snd (spec_run wsize step sp rs)"
  using assms(1)
proof (induction rs arbitrary: wm sp out)
  case (Cons r rs)
  note step = addRecord_simulates[OF Cons.prems assms(2), of r out]
  from Cons.IH[OF step(1)] show ?case
    unfolding wm_run_Cons spec_run_Cons step(2) by (simp split: option.split)
qed simp

section \<open>Facts about single calls\<close>

lemma addRecord_rejects:
  "initialized wm \<Longrightarrow> rec_timestamp r < lastTime wm \<Longrightarrow> WindowManager_addRecord wm r out = (wm, out, False)"
  by (simp add: addRecord_cases)

lemma addRecord_emitted:
  assumes "WindowManager_addRecord wm r out = (wm', w, True)"
  shows "wm' = wm_emitted (wm_buffered wm r)"
    and "endTime w = nextEmitTime (wm_buffered wm r)"
    and "startTime w = nextEmitTime (wm_buffered wm r) - windowSize wm"
    and "records w = filter (in_window (startTime w) (endTime w)) (buffer wm @ [r])"
    and "endTime w \<le> rec_timestamp r"
    and "initialized wm \<longrightarrow> lastTime wm \<le> rec_timestamp r"
  using assms by (auto simp: addRecord_cases wm_buffered_def Let_def split: if_splits)

lemma addRecord_silent: "WindowManager_addRecord wm r out = (wm', w, False) \<Longrightarrow> w = out"
  by (auto simp: addRecord_cases Let_def split: if_splits)

text \<open>After an emission the manager stands at the end of the emitted window plus one step.\<close>

lemma addRecord_emitted_next:
  assumes "WindowManager_addRecord wm r out = (wm', w, True)"
  shows "initialized wm'" "lastTime wm' = rec_timestamp r"
    "nextEmitTime wm' = endTime w + stepSize wm" "stepSize wm' = stepSize wm" "windowSize wm' = windowSize wm"
  using addRecord_emitted[OF assms] by (simp_all add: wm_emitted_def wm_buffered_def)

text \<open>The buffer is in time order, and never empty of order: the invariant of the object.\<close>

definition wm_inv :: "int \<Rightarrow> window_manager \<Rightarrow> bool" where
  "wm_inv wsize wm \<longleftrightarrow> windowSize wm = wsize \<and> sorted (map rec_timestamp (buffer wm)) \<and>
     (\<forall>r \<in> set (buffer wm). rec_timestamp r \<le> lastTime wm) \<and> (\<not> initialized wm \<longrightarrow> buffer wm = [])"

lemma wm_inv_new: "wm_inv (ns_of_ms a) (WindowManager_new a b)"
  by (simp add: wm_inv_def WindowManager_new_def)

lemma wm_inv_buffered:
  assumes "wm_inv wsize wm" and "\<not> (initialized wm \<and> rec_timestamp r < lastTime wm)"
  shows "wm_inv wsize (wm_buffered wm r)"
proof -
  have "\<forall>x \<in> set (buffer wm). rec_timestamp x \<le> rec_timestamp r"
    using assms by (fastforce simp: wm_inv_def)
  with assms(1) show ?thesis
    by (auto simp: wm_inv_def wm_buffered_def sorted_append)
qed

lemma wm_inv_emitted:
  assumes "wm_inv wsize wm" and "initialized wm" shows "wm_inv wsize (wm_emitted wm)"
  using assms by (auto simp: wm_inv_def wm_emitted_def evict_sorted from_time_def sorted_map_filter)

lemma addRecord_inv: "wm_inv wsize wm \<Longrightarrow> wm_inv wsize (fst (WindowManager_addRecord wm r out))"
  by (auto simp: addRecord_cases Let_def intro!: wm_inv_emitted wm_inv_buffered)

lemma addRecord_window_ok:
  assumes "wm_inv wsize wm" and "WindowManager_addRecord wm r out = (wm', w, True)"
  shows "window_ok wsize w"
proof -
  have acc: "\<not> (initialized wm \<and> rec_timestamp r < lastTime wm)"
    using addRecord_emitted(6)[OF assms(2)] by auto
  have "sorted (map rec_timestamp (buffer wm @ [r]))"
    using wm_inv_buffered[OF assms(1) acc] by (simp add: wm_inv_def wm_buffered_def)
  then have "sorted (map rec_timestamp (records w))"
    unfolding addRecord_emitted(4)[OF assms(2)] by (rule sorted_map_filter)
  moreover have "\<forall>x \<in> set (records w). startTime w \<le> rec_timestamp x \<and> rec_timestamp x \<le> endTime w"
    unfolding addRecord_emitted(4)[OF assms(2)] by (simp add: in_window_def)
  ultimately show ?thesis
    using addRecord_emitted(2,3)[OF assms(2)] assms(1) by (simp add: window_ok_def wm_inv_def)
qed

interpretation wm: windowing WindowManager_addRecord "wm_inv wsize" wsize
  by unfold_locales (auto intro: addRecord_inv addRecord_window_ok addRecord_silent)

section \<open>Facts about specification runs\<close>

lemma spec_add_cases:
  obtains (reject) "spec_add wsize step sp r = (sp, None)"
        "history sp \<noteq> []" "rec_timestamp r < rec_timestamp (last (history sp))"
    | (keep) "spec_add wsize step sp r = (sp\<lparr>history := history sp @ [r]\<rparr>, None)"
    | (emit) s where "spec_add wsize step sp r = (\<lparr>history = history sp @ [r], emitted = Suc (emitted sp)\<rparr>,
        Some \<lparr>startTime = s, endTime = s + wsize, records = filter (in_window s (s + wsize)) (history sp @ [r])\<rparr>)"
        "s = spec_start step (sp\<lparr>history := history sp @ [r]\<rparr>)" "s + wsize \<le> rec_timestamp r"
proof (cases "history sp \<noteq> [] \<and> rec_timestamp r < rec_timestamp (last (history sp))")
  case True
  then show ?thesis
    by (intro reject) (simp_all add: spec_add_def)
next
  case False
  let ?s = "spec_start step (sp\<lparr>history := history sp @ [r]\<rparr>)"
  show ?thesis
  proof (cases "?s + wsize \<le> rec_timestamp r")
    case True
    with False show ?thesis
      by (intro emit[of ?s]) (auto simp: spec_add_def Let_def)
  next
    case late: False
    with False show ?thesis
      by (intro keep) (auto simp: spec_add_def Let_def)
  qed
qed

lemma spec_start_snoc: "history sp \<noteq> [] \<Longrightarrow> spec_start step (sp\<lparr>history := history sp @ [r]\<rparr>) = spec_start step sp"
  by (simp add: spec_run_Cons spec_start_def)

lemma spec_start_emitted:
  "history sp \<noteq> [] \<Longrightarrow>
   spec_start step \<lparr>history = history sp @ [r], emitted = Suc (emitted sp)\<rparr> = spec_start step sp + step"
  by (simp add: spec_start_def algebra_simps)

text \<open>Windows laid one step apart from a given start, each caused by a record not before its end.\<close>

fun placed :: "int \<Rightarrow> int \<Rightarrow> timestamp \<Rightarrow> (parsed_record \<times> window) list \<Rightarrow> bool" where
  "placed wsize step s [] = True"
| "placed wsize step s ((r, w) # ws) =
     (startTime w = s \<and> endTime w = s + wsize \<and> endTime w \<le> rec_timestamp r \<and>
      placed wsize step (s + step) ws)"

lemma placed_nth:
  "placed wsize step s ws \<Longrightarrow> i < length ws \<Longrightarrow>
   startTime (snd (ws ! i)) = s + int i * step \<and> endTime (snd (ws ! i)) = s + int i * step + wsize \<and>
   endTime (snd (ws ! i)) \<le> rec_timestamp (fst (ws ! i))"
proof (induction ws arbitrary: s i rule: list.induct)
  case (Cons rw ws)
  then show ?case
    by (cases rw; cases i) (auto simp: algebra_simps)
qed simp

lemma spec_run_placed:
  "history sp \<noteq> [] \<Longrightarrow> placed wsize step (spec_start step sp) (snd (spec_run wsize step sp rs))"
proof (induction rs arbitrary: sp)
  case (Cons r rs)
  show ?case
  proof (cases rule: spec_add_cases[of wsize step sp r])
    case reject
    with Cons.IH[of sp] Cons.prems show ?thesis
      by (simp add: spec_run_Cons)
  next
    case keep
    with Cons.IH[of "sp\<lparr>history := history sp @ [r]\<rparr>"] Cons.prems show ?thesis
      by (simp add: spec_run_Cons spec_start_snoc)
  next
    case (emit s)
    with Cons.IH[of "\<lparr>history = history sp @ [r], emitted = Suc (emitted sp)\<rparr>"] Cons.prems show ?thesis
      by (simp add: spec_run_Cons spec_start_snoc spec_start_emitted)
  qed
qed simp

text \<open>From the empty history the first record is accepted and fixes the grid.\<close>

lemma spec_run_placed_init:
  "placed wsize step (rec_timestamp (hd rs)) (snd (spec_run wsize step \<lparr>history = [], emitted = 0\<rparr> rs))"
proof (cases rs)
  case (Cons r rs')
  show ?thesis
  proof (cases rule: spec_add_cases[of wsize step "\<lparr>history = [], emitted = 0\<rparr>" r])
    case reject
    then show ?thesis by (simp add: spec_add_def Let_def split: if_splits)
  next
    case keep
    with Cons spec_run_placed[of "\<lparr>history = [r], emitted = 0\<rparr>" wsize step rs'] show ?thesis
      by (simp add: spec_run_Cons spec_start_def)
  next
    case (emit s)
    with Cons spec_run_placed[of "\<lparr>history = [r], emitted = Suc 0\<rparr>" wsize step rs'] show ?thesis
      by (simp add: spec_run_Cons spec_start_def)
  qed
qed simp

text \<open>On input in time order every record is accepted, and each window is cut out of the records that have arrived.\<close>

lemma in_order_accepted:
  "sorted (map rec_timestamp (hs @ r # rs)) \<Longrightarrow> \<not> (hs \<noteq> [] \<and> rec_timestamp r < rec_timestamp (last hs))"
proof
  assume srt: "sorted (map rec_timestamp (hs @ r # rs))" and rej: "hs \<noteq> [] \<and> rec_timestamp r < rec_timestamp (last hs)"
  from srt have "\<forall>x \<in> set hs. rec_timestamp x \<le> rec_timestamp r"
    by (simp add: sorted_append)
  with rej last_in_set[of hs] show False
    by fastforce
qed

lemma spec_run_exact:
  assumes "sorted (map rec_timestamp (history sp @ rs))" and "i < length (snd (spec_run wsize step sp rs))"
    and "snd (spec_run wsize step sp rs) ! i = (r, w)"
  shows "\<exists>ys zs. rs = ys @ r # zs \<and> length (snd (spec_run wsize step sp ys)) = i \<and>
    records w = filter (in_window (startTime w) (endTime w)) (history sp @ ys @ [r])"
  using assms
proof (induction rs arbitrary: sp i)
  case (Cons x rs)
  note acc = in_order_accepted[OF Cons.prems(1)]
  have srt: "sorted (map rec_timestamp ((history sp @ [x]) @ rs))"
    using Cons.prems(1) by simp
  show ?case
  proof (cases rule: spec_add_cases[of wsize step sp x])
    case reject
    with acc show ?thesis by blast
  next
    case keep
    with Cons.IH[of "sp\<lparr>history := history sp @ [x]\<rparr>" i] srt Cons.prems(2,3)
    obtain ys zs where "rs = ys @ r # zs" "length (snd (spec_run wsize step (sp\<lparr>history := history sp @ [x]\<rparr>) ys)) = i"
      "records w = filter (in_window (startTime w) (endTime w)) (history sp @ (x # ys) @ [r])"
      by (auto simp: spec_run_Cons)
    with keep show ?thesis
      by (intro exI[of _ "x # ys"] exI[of _ zs]) (simp add: spec_run_Cons)
  next
    case (emit s)
    show ?thesis
    proof (cases i)
      case 0
      then have "x = r" "w = \<lparr>startTime = s, endTime = s + wsize, records = filter (in_window s (s + wsize)) (history sp @ [x])\<rparr>"
        using Cons.prems(3) unfolding spec_run_Cons emit(1) by auto
      with 0 show ?thesis
        by (intro exI[of _ "[]"] exI[of _ rs]) simp
    next
      case (Suc j)
      with Cons.IH[of "\<lparr>history = history sp @ [x], emitted = Suc (emitted sp)\<rparr>" j] emit srt Cons.prems(2,3)
      obtain ys zs where "rs = ys @ r # zs"
        "length (snd (spec_run wsize step \<lparr>history = history sp @ [x], emitted = Suc (emitted sp)\<rparr> ys)) = j"
        "records w = filter (in_window (startTime w) (endTime w)) (history sp @ (x # ys) @ [r])"
        by (auto simp: spec_run_Cons)
      with emit Suc show ?thesis
        by (intro exI[of _ "x # ys"] exI[of _ zs]) (simp add: spec_run_Cons)
    qed
  qed
qed simp

section \<open>Timeliness\<close>

text \<open>
  How far the emission of a window lags behind its end. Once the first window is due, arrivals at least one step apart emit one
  window each, so the lag grows by what each gap exceeds the step; arrivals at most one step apart
  keep it within one gap.
\<close>

fun gaps_ge :: "int \<Rightarrow> parsed_record list \<Rightarrow> bool" where
  "gaps_ge g (a # b # rs) = (rec_timestamp a + g \<le> rec_timestamp b \<and> gaps_ge g (b # rs))"
| "gaps_ge g _ = True"

fun gaps_le :: "int \<Rightarrow> parsed_record list \<Rightarrow> bool" where
  "gaps_le g (a # b # rs) =
     (rec_timestamp a \<le> rec_timestamp b \<and> rec_timestamp b \<le> rec_timestamp a + g \<and> gaps_le g (b # rs))"
| "gaps_le g _ = True"

lemma sparse_emits:
  assumes "history sp \<noteq> []" and "0 \<le> step" and "gaps_ge step rs"
    and "rs \<noteq> [] \<longrightarrow> rec_timestamp (last (history sp)) \<le> rec_timestamp (hd rs) \<and>
      spec_start step sp + wsize \<le> rec_timestamp (hd rs)"
  shows "map fst (snd (spec_run wsize step sp rs)) = rs"
  using assms
proof (induction rs arbitrary: sp)
  case (Cons r rs)
  let ?sp = "\<lparr>history = history sp @ [r], emitted = Suc (emitted sp)\<rparr>"
  have next_rec: "rec_timestamp r + step \<le> rec_timestamp (hd rs) \<and> gaps_ge step rs" if "rs \<noteq> []"
    using Cons.prems(3) that by (cases rs) simp_all
  have "map fst (snd (spec_run wsize step ?sp rs)) = rs"
    using Cons.prems next_rec by (intro Cons.IH) (auto simp: spec_start_emitted, cases rs, simp_all)
  moreover have "fst (spec_add wsize step sp r) = ?sp" "snd (spec_add wsize step sp r) \<noteq> None"
    using Cons.prems by (simp_all add: spec_add_def spec_start_snoc Let_def)
  ultimately show ?case
    by (auto simp: spec_run_Cons)
qed simp

lemma sparse_waits:
  assumes "history sp \<noteq> []" and "0 \<le> step" and "gaps_ge step (last (history sp) # rs)"
  shows "map fst (snd (spec_run wsize step sp rs)) = dropWhile (\<lambda>r. rec_timestamp r < spec_start step sp + wsize) rs"
  using assms
proof (induction rs arbitrary: sp)
  case (Cons r rs)
  let ?sp = "sp\<lparr>history := history sp @ [r]\<rparr>"
  show ?case
  proof (cases "rec_timestamp r < spec_start step sp + wsize")
    case True
    have "map fst (snd (spec_run wsize step ?sp rs)) = dropWhile (\<lambda>r. rec_timestamp r < spec_start step ?sp + wsize) rs"
      using Cons.prems by (intro Cons.IH) simp_all
    with True Cons.prems show ?thesis
      by (cases rule: spec_add_cases[of wsize step sp r]) (auto simp: spec_run_Cons spec_start_snoc)
  next
    case False
    have "map fst (snd (spec_run wsize step sp (r # rs))) = r # rs"
      using False Cons.prems by (intro sparse_emits) simp_all
    with False show ?thesis by simp
  qed
qed simp


lemma dense_run:
  assumes "initialized wm" and "lastTime wm \<le> nextEmitTime wm" and "g \<le> stepSize wm"
    and "lastTime wm = rec_timestamp r" and "gaps_le g (r # rs)"
    and "(x, w) \<in> set (snd (wm_run wm out rs))"
  shows "rec_timestamp x \<le> endTime w + g"
  using assms
proof (induction rs arbitrary: wm r out)
  case (Cons y rs)
  from Cons.prems(4,5) have y: "lastTime wm \<le> rec_timestamp y" "rec_timestamp y \<le> lastTime wm + g"
    by simp_all
  show ?case
  proof (cases "nextEmitTime wm \<le> rec_timestamp y")
    case True
    with Cons.prems(1) y obtain wm' w' where e: "WindowManager_addRecord wm y out = (wm', w', True)"
      unfolding addRecord_cases by (simp add: wm_buffered_def Let_def)
    have w': "endTime w' = nextEmitTime wm"
      using addRecord_emitted(2)[OF e] Cons.prems(1) by (simp add: wm_buffered_def)
    note n = addRecord_emitted_next[OF e]
    have "lastTime wm' \<le> nextEmitTime wm'"
      using n w' y Cons.prems(2,3) by simp
    then have "(x, w) \<in> set (snd (wm_run wm' w' rs)) \<Longrightarrow> ?thesis"
      using Cons.IH[of wm' y w'] n Cons.prems(3,5) by simp
    then show ?thesis
      using Cons.prems(2,6) y w' by (auto simp: wm_run_Cons e)
  next
    case False
    with Cons.prems(1) y have s: "WindowManager_addRecord wm y out = (wm_buffered wm y, out, False)"
      unfolding addRecord_cases by (simp add: wm_buffered_def Let_def)
    then show ?thesis
      using Cons.IH[of "wm_buffered wm y" y out] Cons.prems False
      by (auto simp: wm_run_Cons wm_buffered_def)
  qed
qed simp

lemma first_record_silent:
  "0 < size_ms \<Longrightarrow> WindowManager_addRecord (WindowManager_new size_ms step_ms) r out =
     (wm_buffered (WindowManager_new size_ms step_ms) r, out, False)"
  by (simp add: addRecord_cases wm_buffered_def WindowManager_new_def ns_of_ms_def Let_def)

section \<open>Properties\<close>

abbreviation run_windows :: "int \<Rightarrow> int \<Rightarrow> window \<Rightarrow> parsed_record list \<Rightarrow> (parsed_record \<times> window) list" where
  "run_windows size_ms step_ms out rs \<equiv> snd (wm_run (WindowManager_new size_ms step_ms) out rs)"

lemma run_windows_spec:
  "0 \<le> step_ms \<Longrightarrow> run_windows size_ms step_ms out rs =
     snd (spec_run (ns_of_ms size_ms) (ns_of_ms step_ms) \<lparr>history = [], emitted = 0\<rparr> rs)"
  using run_simulates[OF wm_rel_new] by (simp add: ns_of_ms_def)

text \<open>A record of a given time, for concrete runs.\<close>

definition record_at :: "timestamp \<Rightarrow> parsed_record" where
  "record_at t = ParsedRecord_init\<lparr>rec_timestamp := t, protocol := ''Modbus''\<rparr>"

definition no_window :: window where
  "no_window = \<lparr>startTime = 0, endTime = 0, records = []\<rparr>"

text \<open>
  C6. Refinement. Whatever records arrive, in whatever order, the window manager with its bounded
  buffer emits the windows that the specification computes from the unbounded history of accepted
  records: eviction loses nothing, and each window is caused by the same record.
\<close>

theorem window_manager_refines_history:
  "0 \<le> step_ms \<Longrightarrow>
   run_windows size_ms step_ms out rs =
   snd (spec_run (ns_of_ms size_ms) (ns_of_ms step_ms) \<lparr>history = [], emitted = 0\<rparr> rs)"
  using run_simulates[OF wm_rel_new] by (simp add: ns_of_ms_def)

theorem window_manager_refines_history_witness:
  "run_windows 2 1 no_window (map record_at [0, 1500000, 2000000, 3500000]) =
   snd (spec_run 2000000 1000000 \<lparr>history = [], emitted = 0\<rparr> (map record_at [0, 1500000, 2000000, 3500000]))"
  using window_manager_refines_history[of 1 2 no_window "map record_at [0, 1500000, 2000000, 3500000]"]
  by (simp add: ns_of_ms_def)

text \<open>
  Placement. The windows lie on a fixed grid: the i-th emitted window starts i steps after the
  first record, is exactly one window size long, and is emitted by a record not before its end.
\<close>

lemma windows_on_grid:
  assumes "0 \<le> step_ms" and "i < length (run_windows size_ms step_ms out rs)"
  shows "let (r, w) = run_windows size_ms step_ms out rs ! i in
    startTime w = rec_timestamp (hd rs) + int i * ns_of_ms step_ms \<and>
    endTime w = startTime w + ns_of_ms size_ms \<and> endTime w \<le> rec_timestamp r"
  using placed_nth[OF spec_run_placed_init, of i "ns_of_ms size_ms" "ns_of_ms step_ms" rs] assms
  by (simp add: run_windows_spec split_beta Let_def)

lemma example_windows:
  "run_windows 2 1 no_window (map record_at [0, 1500000, 2000000, 3500000]) =
   [(record_at 2000000, \<lparr>startTime = 0, endTime = 2000000, records = map record_at [0, 1500000, 2000000]\<rparr>),
    (record_at 3500000, \<lparr>startTime = 1000000, endTime = 3000000, records = map record_at [1500000, 2000000]\<rparr>)]"
  by code_simp

lemma windows_on_grid_witness:
  "startTime (snd (run_windows 2 1 no_window (map record_at [0, 1500000, 2000000, 3500000]) ! 1)) = 1000000"
  using windows_on_grid[of 1 1 2 no_window "map record_at [0, 1500000, 2000000, 3500000]"]
  unfolding example_windows by (simp add: ns_of_ms_def record_at_def)

text \<open>
  C18. What a window holds. When the records arrive in time order, the i-th emitted window starts i steps after the first
  record, is one window size long, and is emitted by a record before which exactly i windows have been emitted. It holds, in
  order, exactly the records up to and including that one whose time lies from its start to its end, both included. As no later record
  is before its end, it has every record of the whole input from its start up to but excluding its end; of those
  exactly at its end it has the ones that had arrived.
\<close>

theorem window_holds_all_records:
  assumes "0 \<le> step_ms" and "sorted (map rec_timestamp rs)"
    and "i < length (run_windows size_ms step_ms out rs)" and "run_windows size_ms step_ms out rs ! i = (r, w)"
  shows "startTime w = rec_timestamp (hd rs) + int i * ns_of_ms step_ms \<and> endTime w = startTime w + ns_of_ms size_ms \<and>
    (\<exists>ys zs. rs = ys @ r # zs \<and> length (run_windows size_ms step_ms out ys) = i \<and>
      records w = filter (\<lambda>x. startTime w \<le> rec_timestamp x \<and> rec_timestamp x \<le> endTime w) (ys @ [r]) \<and>
      (\<forall>x \<in> set (r # zs). endTime w \<le> rec_timestamp x))"
proof -
  let ?run = "spec_run (ns_of_ms size_ms) (ns_of_ms step_ms) \<lparr>history = [], emitted = 0\<rparr>"
  note spec = run_windows_spec[OF assms(1)]
  have grid: "startTime w = rec_timestamp (hd rs) + int i * ns_of_ms step_ms" "endTime w = startTime w + ns_of_ms size_ms"
    "endTime w \<le> rec_timestamp r"
    using windows_on_grid[OF assms(1,3)] by (simp_all add: assms(4))
  obtain ys zs where split: "rs = ys @ r # zs" "length (snd (?run ys)) = i"
    "records w = filter (in_window (startTime w) (endTime w)) (ys @ [r])"
    using spec_run_exact[of "\<lparr>history = [], emitted = 0\<rparr>" rs, OF _ assms(3,4)[unfolded spec]] assms(2) by auto
  have "\<forall>x \<in> set (r # zs). endTime w \<le> rec_timestamp x"
    using assms(2) grid(3) by (auto simp: split(1) sorted_append)
  with grid split show ?thesis
    unfolding spec in_window_def[abs_def] by blast
qed

theorem window_holds_all_records_witness:
  "\<exists>ys zs. map record_at [0, 1500000, 2000000, 3500000] = ys @ record_at 3500000 # zs \<and>
     map record_at [1500000, 2000000] =
       filter (\<lambda>x. 1000000 \<le> rec_timestamp x \<and> rec_timestamp x \<le> 3000000) (ys @ [record_at 3500000])"
proof -
  let ?w = "\<lparr>startTime = 1000000, endTime = 3000000, records = map record_at [1500000, 2000000]\<rparr>"
  have i: "1 < length (run_windows 2 1 no_window (map record_at [0, 1500000, 2000000, 3500000]))"
    "run_windows 2 1 no_window (map record_at [0, 1500000, 2000000, 3500000]) ! 1 = (record_at 3500000, ?w)"
    unfolding example_windows by simp_all
  have "sorted (map rec_timestamp (map record_at [0, 1500000, 2000000, 3500000]))"
    by (simp add: record_at_def)
  from window_holds_all_records[OF _ this i] show ?thesis
    unfolding window.select_convs by force
qed

text \<open>
  Safety of every window. Whatever the order of arrival, an emitted window is one window size
  long, holds its records in time order, and holds none outside its bounds.
\<close>

lemma emitted_windows_ok:
  assumes "(r, w) \<in> set (run_windows size_ms step_ms out rs)"
  shows "window_ok (ns_of_ms size_ms) w"
proof -
  have feed: "map snd (snd (wm_run wm out rs)) = wm.feed wm out rs" for wm
    by (induction rs arbitrary: wm out) (auto simp: wm_run_Cons split: prod.splits)
  from assms have "w \<in> set (map snd (run_windows size_ms step_ms out rs))"
    by force
  then show ?thesis
    unfolding feed using wm_inv_new by (rule wm.feed_ok[rotated])
qed

lemma emitted_windows_ok_witness:
  "window_ok 2000000 \<lparr>startTime = 0, endTime = 2000000, records = map record_at [0, 1500000, 2000000]\<rparr>"
  using emitted_windows_ok[of "record_at 2000000" _ 2 1 no_window "map record_at [0, 1500000, 2000000, 3500000]"]
  unfolding example_windows by (simp add: ns_of_ms_def)

text \<open>
  C32. The lag of sparse traffic. If records come at least one step apart, then no record emits a window until one
  comes a window size after the first, and from that one on every record emits exactly one; the i-th window ends
  i steps after the first, however much time has passed, so the distance between the end of a window and the moment of
  its evaluation grows by every gap's excess over the step.
\<close>

theorem sparse_traffic_lags:
  assumes "0 < size_ms" and "0 \<le> step_ms" and "gaps_ge (ns_of_ms step_ms) rs"
  shows "let ws = run_windows size_ms step_ms out rs; lag = (\<lambda>(r, w). rec_timestamp r - endTime w) in
    map fst ws = dropWhile (\<lambda>r. rec_timestamp r < rec_timestamp (hd rs) + ns_of_ms size_ms) rs \<and>
    (\<forall>i < length ws. endTime (snd (ws ! i)) = rec_timestamp (hd rs) + ns_of_ms size_ms + int i * ns_of_ms step_ms) \<and>
    (\<forall>i. Suc i < length ws \<longrightarrow> lag (ws ! Suc i) - lag (ws ! i) =
       (rec_timestamp (fst (ws ! Suc i)) - rec_timestamp (fst (ws ! i))) - ns_of_ms step_ms)"
proof -
  let ?ws = "run_windows size_ms step_ms out rs"
  have "map fst ?ws = dropWhile (\<lambda>r. rec_timestamp r < rec_timestamp (hd rs) + ns_of_ms size_ms) rs"
  proof (cases rs)
    case (Cons r rs')
    have pos: "0 < ns_of_ms size_ms" "0 \<le> ns_of_ms step_ms"
      using assms(1,2) by (simp_all add: ns_of_ms_def)
    have first: "spec_add (ns_of_ms size_ms) (ns_of_ms step_ms) \<lparr>history = [], emitted = 0\<rparr> r = (\<lparr>history = [r], emitted = 0\<rparr>, None)"
      using pos(1) by (simp add: spec_add_def spec_start_def Let_def)
    have "map fst ?ws = map fst (snd (spec_run (ns_of_ms size_ms) (ns_of_ms step_ms) \<lparr>history = [r], emitted = 0\<rparr> rs'))"
      by (simp add: run_windows_spec[OF assms(2)] Cons spec_run_Cons first)
    also have "\<dots> = dropWhile (\<lambda>x. rec_timestamp x < rec_timestamp r + ns_of_ms size_ms) rs'"
      using sparse_waits[of "\<lparr>history = [r], emitted = 0\<rparr>" "ns_of_ms step_ms" rs' "ns_of_ms size_ms"] assms(3) pos(2)
      by (simp add: Cons spec_start_def)
    finally show ?thesis
      using pos(1) by (simp add: Cons)
  qed (simp add: run_windows_spec[OF assms(2)])
  moreover have e: "endTime (snd (?ws ! i)) = rec_timestamp (hd rs) + ns_of_ms size_ms + int i * ns_of_ms step_ms"
    if "i < length ?ws" for i
    using windows_on_grid[OF assms(2) that] by (simp add: split_beta Let_def)
  ultimately show ?thesis
    unfolding Let_def by (simp add: split_beta algebra_simps)
qed

theorem sparse_traffic_lags_witness:
  "let ws = run_windows 5000 1000 no_window (map record_at [0, 2000000000, 4000000000, 6000000000, 8000000000, 10000000000])
   in map fst ws = map record_at [6000000000, 8000000000, 10000000000] \<and> endTime (snd (ws ! 2)) = 7000000000"
proof -
  let ?rs = "map record_at [0, 2000000000, 4000000000, 6000000000, 8000000000, 10000000000]"
  let ?ws = "run_windows 5000 1000 no_window ?rs"
  have g: "gaps_ge (ns_of_ms 1000) ?rs"
    by (simp add: record_at_def ns_of_ms_def)
  note s = sparse_traffic_lags[where size_ms = 5000 and step_ms = 1000 and out = no_window, OF _ _ g, unfolded Let_def]
  have f: "map fst ?ws = map record_at [6000000000, 8000000000, 10000000000]"
    using s by (simp add: record_at_def ns_of_ms_def)
  have "length ?ws = 3"
    using arg_cong[OF f, of length] by simp
  then have "endTime (snd (?ws ! 2)) = rec_timestamp (hd ?rs) + ns_of_ms 5000 + int 2 * ns_of_ms 1000"
    using s by simp
  with f show ?thesis
    by (simp add: record_at_def ns_of_ms_def)
qed

text \<open>
  Timeliness of dense traffic. If records arrive in order with gaps of at most g, and g is at
  most one step and the window has positive size, every window is emitted no later than g after its
  end.
\<close>

lemma dense_traffic_timely:
  assumes "0 < size_ms" and "g \<le> ns_of_ms step_ms" and "gaps_le g rs"
    and "(r, w) \<in> set (run_windows size_ms step_ms out rs)"
  shows "rec_timestamp r \<le> endTime w + g"
proof (cases rs)
  case (Cons x rs')
  let ?wm = "wm_buffered (WindowManager_new size_ms step_ms) x"
  have "(r, w) \<in> set (snd (wm_run ?wm out rs'))"
    using assms(4) unfolding Cons by (simp add: wm_run_Cons first_record_silent[OF assms(1)])
  then show ?thesis
    using assms by (intro dense_run[of ?wm g x rs'])
      (simp_all add: Cons wm_buffered_def WindowManager_new_def ns_of_ms_def)
qed (use assms(4) in simp)

lemma dense_traffic_timely_witness:
  "rec_timestamp (record_at 2000000) \<le> (2000000 :: int) + 1000000"
proof -
  have "run_windows 2 1 no_window (map record_at [0, 1000000, 2000000]) =
     [(record_at 2000000, \<lparr>startTime = 0, endTime = 2000000, records = map record_at [0, 1000000, 2000000]\<rparr>)]"
    by code_simp
  then show ?thesis
    using dense_traffic_timely[of 2 1000000 1 "map record_at [0, 1000000, 2000000]" "record_at 2000000"
        "\<lparr>startTime = 0, endTime = 2000000, records = map record_at [0, 1000000, 2000000]\<rparr>" no_window]
    by (simp add: ns_of_ms_def record_at_def)
qed

text \<open>
  The record that causes a window. With a nonnegative window size, a record whose arrival emits
  a window belongs to it only if it arrives exactly at its end; otherwise the window holds earlier
  records only.
\<close>

lemma trigger_in_window_iff:
  assumes "WindowManager_addRecord wm r out = (wm', w, True)" and "0 \<le> windowSize wm"
  shows "r \<in> set (records w) \<longleftrightarrow> rec_timestamp r = endTime w"
  using addRecord_emitted[OF assms(1)] assms(2) by (auto simp: in_window_def)

lemma trigger_in_window_iff_witness:
  "let (wm', w, b) = WindowManager_addRecord
         (fst (wm_run (WindowManager_new 2 1) no_window (map record_at [0, 1500000]))) (record_at 2500000) no_window
   in b \<and> record_at 2500000 \<notin> set (records w)"
proof -
  let ?wm = "fst (wm_run (WindowManager_new 2 1) no_window (map record_at [0, 1500000]))"
  let ?a = "WindowManager_addRecord ?wm (record_at 2500000) no_window"
  have a: "snd (snd ?a)" "endTime (fst (snd ?a)) = 2000000" "windowSize ?wm = 2000000"
    by code_simp+
  then have e: "?a = (fst ?a, fst (snd ?a), True)"
    by (simp add: prod_eq_iff)
  show ?thesis
    using trigger_in_window_iff[OF e] a by (simp add: split_beta record_at_def)
qed

end
