(* ===== verification/Feature_Extractor.thy ===== *)
theory Feature_Extractor
  imports Window_Manager "HOL-Library.Multiset"
begin

text \<open>
  The feature extractor of \<^verbatim>\<open>feature/feat_miner.cpp\<close>: one pass counts writes, function codes,
  addresses and protocols, further loops turn the counts and the inter-arrival times into the
  eight features, in double arithmetic.

  The three \<^verbatim>\<open>std::unordered_map\<close> counters are association lists; the unspecified order in which
  C++ iterates over them is the parameter \<^verbatim>\<open>hash_order\<close>, of which the lemmas assume only that it is
  a permutation. The maxima do not depend on it; the entropy sum does, through rounding.
\<close>

section \<open>Counting\<close>

fun bump :: "'k \<Rightarrow> ('k \<times> nat) list \<Rightarrow> ('k \<times> nat) list" where
  "bump k [] = [(k, 1)]"
| "bump k ((k', v) # m) = (if k = k' then (k', v + 1) # m else (k', v) # bump k m)"

record counters =
  writeCount :: real
  funcCounts :: "(u8 \<times> nat) list"
  addrCounts :: "(u16 \<times> nat) list"
  protoCounts :: "(string \<times> nat) list"

definition count_record :: "counters \<Rightarrow> parsed_record \<Rightarrow> counters" where
  "count_record c rec =
     c\<lparr>writeCount := (if isWrite rec then fadd (writeCount c) 1 else writeCount c),
       funcCounts := bump (functionCode rec) (funcCounts c),
       addrCounts := bump (address rec) (addrCounts c),
       protoCounts := bump (protocol rec) (protoCounts c)\<rparr>"

definition count_records :: "parsed_record list \<Rightarrow> counters" where
  "count_records rs =
     foldl count_record \<lparr>writeCount = 0, funcCounts = [], addrCounts = [], protoCounts = []\<rparr> rs"

record hash_order =
  func_order :: "(u8 \<times> nat) list \<Rightarrow> (u8 \<times> nat) list"
  addr_order :: "(u16 \<times> nat) list \<Rightarrow> (u16 \<times> nat) list"
  proto_order :: "(string \<times> nat) list \<Rightarrow> (string \<times> nat) list"

definition hash_order_ok :: "hash_order \<Rightarrow> bool" where
  "hash_order_ok ord \<longleftrightarrow> (\<forall>m. mset (func_order ord m) = mset m) \<and>
     (\<forall>m. mset (addr_order ord m) = mset m) \<and> (\<forall>m. mset (proto_order ord m) = mset m)"

section \<open>The loops\<close>

fun max_loop :: "real \<Rightarrow> ('k \<times> nat) list \<Rightarrow> real" where
  "max_loop best [] = best"
| "max_loop best ((k, v) # m) = max_loop (if best < real v then real v else best) m"

fun entropy_loop :: "real \<Rightarrow> real \<Rightarrow> ('k \<times> nat) list \<Rightarrow> real" where
  "entropy_loop tot entropy [] = entropy"
| "entropy_loop tot entropy ((k, v) # m) =
     (let p = fdiv (real v) tot
      in entropy_loop tot (if 0 < p then fsub entropy (fmul p (flog2 p)) else entropy) m)"

text \<open>Nanoseconds to seconds, as \<^verbatim>\<open>std::chrono::duration<double>\<close> converts them.\<close>

definition seconds_of_ns :: "int \<Rightarrow> real" where
  "seconds_of_ns d = fdiv (rnd64 (of_int d)) 1000000000"

fun arrival_deltas :: "parsed_record list \<Rightarrow> real list" where
  "arrival_deltas (a # b # rs) = seconds_of_ns (rec_timestamp b - rec_timestamp a) # arrival_deltas (b # rs)"
| "arrival_deltas _ = []"

definition sum_loop :: "real list \<Rightarrow> real" where
  "sum_loop ds = foldl (\<lambda>s d. fadd s d) 0 ds"

definition square_loop :: "real \<Rightarrow> real list \<Rightarrow> real" where
  "square_loop mean ds = foldl (\<lambda>s d. fadd s (fmul (fsub d mean) (fsub d mean))) 0 ds"

definition FeatureExtractor_compute :: "hash_order \<Rightarrow> window \<Rightarrow> feature_vector" where
  "FeatureExtractor_compute ord win =
    (let rs = records win; n = length rs
     in if n = 0 then \<lparr>feature_values = replicate 8 0\<rparr>
        else
         let c = count_records rs;
             tot = rnd64 (real n);
             writeRatio = fdiv (writeCount c) tot;
             funcConc = fdiv (max_loop 0 (func_order ord (funcCounts c))) tot;
             entropy = entropy_loop tot 0 (addr_order ord (addrCounts c));
             protoDom = fdiv (max_loop 0 (proto_order ord (protoCounts c))) tot;
             deltas = arrival_deltas rs;
             meanIA = (if 1 < n then fdiv (sum_loop deltas) (rnd64 (real (length deltas))) else 0);
             stdIA = (if 1 < n
                      then fsqrt (fdiv (square_loop meanIA deltas) (rnd64 (real (length deltas)))) else 0);
             targetDensity = fdiv (max_loop 0 (addr_order ord (addrCounts c))) tot
         in \<lparr>feature_values =
               [tot, writeRatio, funcConc, entropy, protoDom, meanIA, stdIA, targetDensity]\<rparr>)"

section \<open>Counter lemmas\<close>

definition tally :: "'k list \<Rightarrow> ('k \<times> nat) list" where
  "tally ks = foldl (\<lambda>m k. bump k m) [] ks"

lemma tally_snoc: "tally (ks @ [k]) = bump k (tally ks)"
  by (simp add: tally_def)

lemma keys_bump: "fst ` set (bump k m) = insert k (fst ` set m)"
  by (induction k m rule: bump.induct) auto

lemma distinct_bump: "distinct (map fst m) \<Longrightarrow> distinct (map fst (bump k m))"
proof (induction k m rule: bump.induct)
  case (2 k k' v m)
  have "fst ` set (bump k m) = insert k (fst ` set m)"
    by (rule keys_bump)
  with 2 show ?case
    by (auto simp: image_iff)
qed simp

lemma map_of_bump:
  "map_of (bump k m) k' = (if k' = k then Some (case map_of m k of None \<Rightarrow> 1 | Some v \<Rightarrow> v + 1) else map_of m k')"
  by (induction k m rule: bump.induct) auto

lemma distinct_tally: "distinct (map fst (tally ks))"
proof (induction ks rule: rev_induct)
  case (snoc k ks)
  then show ?case
    unfolding tally_snoc by (rule distinct_bump)
qed (simp add: tally_def)

lemma map_of_tally: "map_of (tally ks) k = (if k \<in> set ks then Some (count_list ks k) else None)"
proof (induction ks rule: rev_induct)
  case (snoc x ks)
  then show ?case
    by (auto simp: tally_snoc map_of_bump)
qed (simp add: tally_def)

lemma set_tally: "set (tally ks) = (\<lambda>k. (k, count_list ks k)) ` set ks"
proof -
  have "(k, v) \<in> set (tally ks) \<longleftrightarrow> k \<in> set ks \<and> v = count_list ks k" for k v
    using map_of_eq_Some_iff[OF distinct_tally, of ks k v] by (auto simp: map_of_tally split: if_splits)
  then show ?thesis
    by auto
qed

lemma count_records_fields:
  "funcCounts (count_records rs) = tally (map functionCode rs)"
  "addrCounts (count_records rs) = tally (map address rs)"
  "protoCounts (count_records rs) = tally (map protocol rs)"
  unfolding count_records_def tally_def
  by (induction rs rule: rev_induct) (simp_all add: count_record_def)

lemma count_records_snoc: "count_records (rs @ [r]) = count_record (count_records rs) r"
  by (simp add: count_records_def)

text \<open>Counting in doubles is exact below \<^verbatim>\<open>2 ^ 53\<close>.\<close>

lemma writeCount_exact:
  "length rs < 2 ^ 53 \<Longrightarrow> writeCount (count_records rs) = real (length (filter isWrite rs))"
proof (induction rs rule: rev_induct)
  case (snoc r rs)
  have "length (filter isWrite rs) + 1 \<le> length (rs @ [r])"
    by simp
  also note snoc.prems
  finally have "length (filter isWrite rs) + 1 < 2 ^ 53" .
  from fadd_nat[OF this] snoc show ?case
    by (simp add: count_records_snoc count_record_def)
qed (simp add: count_records_def)

section \<open>Maximum lemmas\<close>

definition most_common :: "'k list \<Rightarrow> nat" where
  "most_common ks = Max (insert 0 (count_list ks ` set ks))"

lemma max_loop_Max: "max_loop (real b) m = real (Max (insert b (snd ` set m)))"
proof (induction m arbitrary: b)
  case (Cons kv m)
  obtain k v where kv: "kv = (k, v)"
    by (cases kv)
  have "max_loop (real b) (kv # m) = max_loop (real (max b v)) m"
    by (auto simp: kv max_def)
  also have "\<dots> = real (Max (insert (max b v) (snd ` set m)))"
    by (rule Cons.IH)
  also have "Max (insert (max b v) (snd ` set m)) = Max (insert b (snd ` set (kv # m)))"
    by (cases "m = []") (auto simp: kv max.assoc)
  finally show ?case .
qed simp

lemma max_loop_tally:
  assumes "mset m = mset (tally ks)"
  shows "max_loop 0 m = real (most_common ks)"
proof -
  have "set m = set (tally ks)"
    using assms by (rule mset_eq_setD)
  then have "snd ` set m = count_list ks ` set ks"
    by (simp add: set_tally image_image)
  then show ?thesis
    using max_loop_Max[of 0 m] by (simp add: most_common_def)
qed

lemma count_list_le: "count_list ks k \<le> length ks"
  by (induction ks) auto

lemma count_list_less: "q \<in> set ks \<Longrightarrow> q \<noteq> k \<Longrightarrow> count_list ks k < length ks"
proof (induction ks)
  case (Cons x ks)
  then show ?case
    using count_list_le[of ks k] by (auto split: if_splits)
qed simp

lemma most_common_le: "most_common ks \<le> length ks"
  unfolding most_common_def by (subst Max_le_iff) (auto simp: count_list_le)

lemma most_common_ge: "k \<in> set ks \<Longrightarrow> count_list ks k \<le> most_common ks"
  unfolding most_common_def by (intro Max_ge) auto

lemma most_common_pos: "ks \<noteq> [] \<Longrightarrow> 0 < most_common ks"
proof -
  assume "ks \<noteq> []"
  then have "hd ks \<in> set ks"
    by simp
  then have "count_list ks (hd ks) \<noteq> 0"
    by (simp add: count_list_0_iff)
  with most_common_ge[OF \<open>hd ks \<in> set ks\<close>] show ?thesis
    by simp
qed

section \<open>Entropy lemmas\<close>

text \<open>The entropy term of one address: never negative, and zero only for the whole window.\<close>

lemma entropy_term_nonpos:
  assumes "0 < p" and "p \<le> 1" shows "fmul p (flog2 p) \<le> 0"
proof -
  have "log 2 p \<le> 0"
    using assms by simp
  then have "flog2 p \<le> 0"
    by (rule fl.nonpos)
  then have "p * flog2 p \<le> 0"
    using assms(1) by (simp add: mult_nonneg_nonpos)
  then show ?thesis
    by (rule fl.nonpos)
qed

lemma entropy_loop_ge:
  assumes "rnd64 e = e" and "\<And>k v. (k, v) \<in> set m \<Longrightarrow> 0 \<le> fdiv (real v) tot \<and> fdiv (real v) tot \<le> 1"
  shows "e \<le> entropy_loop tot e m"
  using assms
proof (induction m arbitrary: e)
  case (Cons kv m)
  obtain k v where kv: "kv = (k, v)"
    by (cases kv)
  let ?p = "fdiv (real v) tot"
  let ?e = "if 0 < ?p then fsub e (fmul ?p (flog2 ?p)) else e"
  have p: "0 \<le> ?p" "?p \<le> 1"
    using Cons.prems(2)[of k v] kv by auto
  have "e \<le> ?e"
    using entropy_term_nonpos[of ?p] p Cons.prems(1) by (auto intro: fl.ge_exact)
  moreover have "rnd64 ?e = ?e"
    using Cons.prems(1) by (auto simp: rnd64_idem)
  ultimately show ?case
    using Cons.IH[of ?e] Cons.prems(2) by (force simp: kv Let_def)
qed simp

section \<open>Inter-arrival lemmas\<close>

lemma foldl_loop_bounds:
  assumes "\<And>x. x \<in> set xs \<Longrightarrow> 0 \<le> f x \<and> f x \<le> B"
    and "\<And>k. k \<le> length xs \<Longrightarrow> rnd64 (real k * B) = real k * B"
  shows "0 \<le> foldl (\<lambda>s x. fadd s (f x)) 0 xs \<and> foldl (\<lambda>s x. fadd s (f x)) 0 xs \<le> real (length xs) * B"
  using assms
proof (induction xs rule: rev_induct)
  case (snoc x xs)
  let ?s = "foldl (\<lambda>s x. fadd s (f x)) 0 xs"
  have IH: "0 \<le> ?s" "?s \<le> real (length xs) * B"
    using snoc by auto
  have x: "0 \<le> f x" "f x \<le> B"
    using snoc.prems(1)[of x] by auto
  have "?s + f x \<le> real (length (xs @ [x])) * B"
    using IH x by (simp add: algebra_simps)
  moreover have "rnd64 (real (length (xs @ [x])) * B) = real (length (xs @ [x])) * B"
    by (rule snoc.prems(2)) simp
  ultimately show ?case
    using IH x by (auto intro: fl.nonneg fl.le_exact)
qed simp

lemma average_bounds:
  assumes "0 \<le> s" and "s \<le> real k * B" and "0 < k" and "rnd64 B = B"
  shows "0 \<le> fdiv s (real k) \<and> fdiv s (real k) \<le> B"
  using assms by (auto intro!: fl.nonneg fl.le_exact simp: divide_le_eq mult.commute)

lemma sqrt_bound: "0 \<le> x \<Longrightarrow> x \<le> B\<^sup>2 \<Longrightarrow> 0 \<le> B \<Longrightarrow> rnd64 B = B \<Longrightarrow> 0 \<le> fsqrt x \<and> fsqrt x \<le> B"
  by (auto intro!: fl.nonneg fl.le_exact real_le_lsqrt)

lemma length_arrival_deltas: "length (arrival_deltas rs) = length rs - 1"
  by (induction rs rule: arrival_deltas.induct) auto

lemma seconds_of_ns_bounds:
  assumes "0 \<le> d" and "real_of_int d \<le> B * 1000000000" and "rnd64 B = B" and "d < 2 ^ 53"
  shows "0 \<le> seconds_of_ns d \<and> seconds_of_ns d \<le> B"
proof -
  have "rnd64 (of_int d) = of_int d"
    using assms by (intro fl.of_int_exact) auto
  then show ?thesis
    using assms unfolding seconds_of_ns_def
    by (auto intro!: fl.nonneg fl.le_exact simp: divide_le_eq)
qed

lemma deltas_bounds:
  assumes "gaps_le g rs" and "real_of_int g \<le> B * 1000000000" and "rnd64 B = B" and "g < 2 ^ 53"
    and "d \<in> set (arrival_deltas rs)"
  shows "0 \<le> d \<and> d \<le> B"
  using assms
proof (induction rs rule: arrival_deltas.induct)
  case (1 a b rs)
  have "0 \<le> seconds_of_ns (rec_timestamp b - rec_timestamp a) \<and>
        seconds_of_ns (rec_timestamp b - rec_timestamp a) \<le> B"
  proof (rule seconds_of_ns_bounds)
    have "real_of_int (rec_timestamp b - rec_timestamp a) \<le> real_of_int g"
      using "1.prems"(1) by simp
    then show "real_of_int (rec_timestamp b - rec_timestamp a) \<le> B * 1000000000"
      using "1.prems"(2) by linarith
  qed (use "1.prems" in auto)
  then show ?case
    using 1 by auto
qed auto

definition mean_ia :: "parsed_record list \<Rightarrow> real" where
  "mean_ia rs = fdiv (sum_loop (arrival_deltas rs)) (rnd64 (real (length (arrival_deltas rs))))"

definition std_ia :: "parsed_record list \<Rightarrow> real" where
  "std_ia rs = fsqrt (fdiv (square_loop (mean_ia rs) (arrival_deltas rs)) (rnd64 (real (length (arrival_deltas rs)))))"

text \<open>
  Gaps of at most \<^verbatim>\<open>B = b / 2^q\<close> seconds give a mean and a deviation of at most \<^verbatim>\<open>B\<close>: the bounds
  are dyadic, so every rounded partial sum stays below its exact bound.
\<close>

lemma deviation_bounds:
  assumes gaps: "gaps_le g rs" and g: "real_of_int g \<le> (real b / 2 ^ q) * 1000000000" "g < 2 ^ 53"
    and n: "1 < length rs" "length rs * b\<^sup>2 < 2 ^ 53" "length rs < 2 ^ 53" "q \<le> 500" "0 < b"
  shows "0 \<le> mean_ia rs \<and> mean_ia rs \<le> real b / 2 ^ q" and "0 \<le> std_ia rs \<and> std_ia rs \<le> real b / 2 ^ q"
proof -
  let ?ds = "arrival_deltas rs" and ?B = "real b / 2 ^ q"
  have ex: "rnd64 (real m / 2 ^ e) = real m / 2 ^ e" if "m < 2 ^ 53" "e \<le> 1000" for m e
    using fl.dyadic[of "int m" e] that by simp
  have le: "k * b \<le> k * b\<^sup>2" for k
    using n(5) by (simp add: power2_eq_square)
  have kb: "rnd64 (real k * ?B) = real k * ?B" "rnd64 (real k * ?B\<^sup>2) = real k * ?B\<^sup>2" if "k \<le> length ?ds" for k
  proof -
    have "k * b\<^sup>2 \<le> length rs * b\<^sup>2"
      using that by (intro mult_right_mono) (auto simp: length_arrival_deltas)
    with n(2) have sq: "k * b\<^sup>2 < 2 ^ 53" by (rule le_less_trans[rotated])
    from le[of k] sq have "k * b < 2 ^ 53" by (rule le_less_trans)
    then show "rnd64 (real k * ?B) = real k * ?B"
      using ex[of "k * b" q] n(4) by simp
    show "rnd64 (real k * ?B\<^sup>2) = real k * ?B\<^sup>2"
      using ex[OF sq, of "2 * q"] n(4) by (simp add: power_divide power_mult[symmetric] mult.commute)
  qed
  have len: "0 < length ?ds" "length ?ds < 2 ^ 53"
    using n by (auto simp: length_arrival_deltas)
  have B: "rnd64 ?B = ?B" "rnd64 (?B\<^sup>2) = ?B\<^sup>2" "0 \<le> ?B"
    using kb[of 1] len by auto
  have d: "0 \<le> x \<and> x \<le> ?B" if "x \<in> set ?ds" for x
    using deltas_bounds[OF gaps g(1) B(1) g(2) that] .
  have "0 \<le> sum_loop ?ds \<and> sum_loop ?ds \<le> real (length ?ds) * ?B"
    unfolding sum_loop_def using d kb(1) by (intro foldl_loop_bounds) auto
  then show m: "0 \<le> mean_ia rs \<and> mean_ia rs \<le> ?B"
    unfolding mean_ia_def fl.of_nat_exact[OF len(2)]
    using len B by (intro average_bounds) auto
  have dev: "0 \<le> fmul (fsub x (mean_ia rs)) (fsub x (mean_ia rs)) \<and>
      fmul (fsub x (mean_ia rs)) (fsub x (mean_ia rs)) \<le> ?B\<^sup>2" if "x \<in> set ?ds" for x
  proof -
    have "x - mean_ia rs \<le> ?B" "- ?B \<le> x - mean_ia rs"
      using d[OF that] m by auto
    then have "fsub x (mean_ia rs) \<le> ?B" "- ?B \<le> fsub x (mean_ia rs)"
      using B(1) fl.ge_exact[of "- ?B"] rnd64_minus[of ?B] by (auto intro: fl.le_exact)
    then have "\<bar>fsub x (mean_ia rs)\<bar> \<le> ?B"
      by linarith
    then have "(fsub x (mean_ia rs))\<^sup>2 \<le> ?B\<^sup>2"
      using abs_le_square_iff[of "fsub x (mean_ia rs)" ?B] by simp
    then show ?thesis
      using B(2) by (auto intro!: fl.nonneg fl.le_exact simp: power2_eq_square)
  qed
  have "0 \<le> square_loop (mean_ia rs) ?ds \<and> square_loop (mean_ia rs) ?ds \<le> real (length ?ds) * ?B\<^sup>2"
    unfolding square_loop_def using dev kb(2) by (intro foldl_loop_bounds) auto
  then have "0 \<le> fdiv (square_loop (mean_ia rs) ?ds) (real (length ?ds)) \<and>
      fdiv (square_loop (mean_ia rs) ?ds) (real (length ?ds)) \<le> ?B\<^sup>2"
    using len B by (intro average_bounds) auto
  then show "0 \<le> std_ia rs \<and> std_ia rs \<le> ?B"
    unfolding std_ia_def fl.of_nat_exact[OF len(2)] using B by (intro sqrt_bound) auto
qed

section \<open>The computed vector\<close>

definition entropy_of :: "hash_order \<Rightarrow> parsed_record list \<Rightarrow> real" where
  "entropy_of ord rs = entropy_loop (real (length rs)) 0 (addr_order ord (tally (map address rs)))"

definition ratio :: "nat \<Rightarrow> nat \<Rightarrow> real" where
  "ratio k n = fdiv (real k) (real n)"

lemma ratio_bounds: "k \<le> n \<Longrightarrow> 0 \<le> ratio k n \<and> ratio k n \<le> 1"
  unfolding ratio_def by (rule fdiv_ratio) auto

lemma hash_order_perm:
  assumes "hash_order_ok ord"
  shows "mset (func_order ord m) = mset m" "mset (addr_order ord m') = mset m'" "mset (proto_order ord m'') = mset m''"
  using assms by (auto simp: hash_order_ok_def)

lemma compute_values:
  assumes "hash_order_ok ord" and "records win \<noteq> []" and "length (records win) < 2 ^ 53"
  shows "feature_values (FeatureExtractor_compute ord win) =
    (let rs = records win; n = length rs in
     [real n, ratio (length (filter isWrite rs)) n, ratio (most_common (map functionCode rs)) n, entropy_of ord rs,
      ratio (most_common (map protocol rs)) n, if 1 < n then mean_ia rs else 0, if 1 < n then std_ia rs else 0,
      ratio (most_common (map address rs)) n])"
  using assms
  by (simp add: FeatureExtractor_compute_def Let_def fl.of_nat_exact count_records_fields writeCount_exact
      max_loop_tally[OF hash_order_perm(1)] max_loop_tally[OF hash_order_perm(2)] max_loop_tally[OF hash_order_perm(3)]
      ratio_def entropy_of_def mean_ia_def std_ia_def)

text \<open>The counts of a window never exceed its size, so every probability is a ratio.\<close>

lemma addr_entries:
  assumes "hash_order_ok ord" and "(k, v) \<in> set (addr_order ord (tally ks))"
  shows "k \<in> set ks" and "v = count_list ks k" and "v \<le> length ks" and "0 < v"
proof -
  have "set (addr_order ord (tally ks)) = set (tally ks)"
    using hash_order_perm(2)[OF assms(1)] by (rule mset_eq_setD)
  with assms(2) show "k \<in> set ks" and v: "v = count_list ks k"
    by (auto simp: set_tally)
  then show "v \<le> length ks" "0 < v"
    by (simp_all add: count_list_le count_list_0_iff neq0_conv[symmetric] del: neq0_conv)
qed

lemma entropy_nonneg:
  assumes "hash_order_ok ord" shows "0 \<le> entropy_of ord rs"
  unfolding entropy_of_def
proof (rule entropy_loop_ge)
  fix k v
  assume "(k, v) \<in> set (addr_order ord (tally (map address rs)))"
  then have "v \<le> length rs"
    using addr_entries(3)[OF assms] by fastforce
  then show "0 \<le> fdiv (real v) (real (length rs)) \<and> fdiv (real v) (real (length rs)) \<le> 1"
    by (intro fdiv_ratio) auto
qed simp

lemma entropy_single:
  assumes "hash_order_ok ord" and "rs \<noteq> []" and "\<And>r. r \<in> set rs \<Longrightarrow> address r = a"
  shows "entropy_of ord rs = 0"
proof -
  have all: "set (map address rs) = {a}"
    using assms(2,3) by (cases rs) auto
  have "count_list (map address rs) a = length rs"
    using assms(3) by (induction rs) auto
  with all have "set (tally (map address rs)) = {(a, length rs)}"
    by (simp add: set_tally)
  moreover have "distinct (tally (map address rs))"
    using distinct_tally[of "map address rs"] by (simp add: distinct_map)
  ultimately have "tally (map address rs) = [(a, length rs)]"
    by (intro distinct_singleton)
  then have "mset (addr_order ord (tally (map address rs))) = {# (a, length rs) #}"
    by (simp add: hash_order_perm[OF assms(1)])
  then have "addr_order ord (tally (map address rs)) = [(a, length rs)]"
    by simp
  then show ?thesis
    using assms(2) by (simp add: entropy_of_def)
qed

text \<open>
  Below \<^verbatim>\<open>2 ^ 31\<close> records, an address that is not alone contributes at least \<^verbatim>\<open>2 ^ - 62\<close>: its
  probability is bounded away from 0 and from 1 by dyadic numbers.
\<close>

lemma log2_le_minus:
  assumes "0 < p" and "p \<le> 1 - x" and "0 \<le> x" shows "log 2 p \<le> - x"
proof -
  have "ln p \<le> p - 1"
    using assms(1) by (rule ln_le_minus_one)
  also have "\<dots> \<le> - x"
    using assms(2) by simp
  also have "\<dots> \<le> - x * ln 2"
    using assms(3) ln_2_less_1 by (simp add: mult_left_le)
  finally show ?thesis
    by (simp add: log_def divide_le_eq)
qed

lemma entropy_term_strict:
  assumes "0 < v" and "v < n" and "n < 2 ^ 31"
  shows "0 < fdiv (real v) (real n)"
    and "fmul (fdiv (real v) (real n)) (flog2 (fdiv (real v) (real n))) \<le> - (1 / 2 ^ 62)"
proof -
  let ?d = "1 / 2 ^ 31 :: real" and ?p = "fdiv (real v) (real n)"
  have n: "real n \<le> 2 ^ 31" "0 < real n"
    using assms by (simp_all add: less_imp_le)
  have d: "rnd64 ?d = ?d" "rnd64 (1 - ?d) = 1 - ?d" "rnd64 (- ?d) = - ?d" "rnd64 (- (1 / 2 ^ 62)) = - (1 / 2 ^ 62)"
    using fl.dyadic[of 1 31] fl.dyadic[of "2 ^ 31 - 1" 31] fl.dyadic[of "- 1" 31] fl.dyadic[of "- 1" 62]
    by simp_all
  have "?d \<le> 1 / real n"
    using n by (simp add: divide_left_mono)
  also have "\<dots> \<le> real v / real n"
    using assms(1) n by (simp add: divide_right_mono)
  finally have lo: "?d \<le> ?p"
    using d(1) by (intro fl.ge_exact) auto
  then show "0 < ?p"
    by (rule less_le_trans[rotated]) simp
  have "real v / real n \<le> 1 - 1 / real n"
    using assms(2) n by (simp add: field_simps)
  also have "\<dots> \<le> 1 - ?d"
    using n by (simp add: divide_left_mono)
  finally have "?p \<le> 1 - ?d"
    using d(2) by (intro fl.le_exact) auto
  then have "log 2 ?p \<le> - ?d"
    using \<open>0 < ?p\<close> by (intro log2_le_minus) auto
  then have "flog2 ?p \<le> - ?d"
    using d(3) by (intro fl.le_exact) auto
  then have "?p * flog2 ?p \<le> ?p * - ?d"
    using \<open>0 < ?p\<close> by (intro mult_left_mono) auto
  also have "\<dots> \<le> ?d * - ?d"
    using lo by (simp add: mult_right_mono)
  finally have "?p * flog2 ?p \<le> - (1 / 2 ^ 62)"
    by simp
  then show "fmul ?p (flog2 ?p) \<le> - (1 / 2 ^ 62)"
    using d(4) by (intro fl.le_exact) auto
qed

lemma entropy_several:
  assumes ord: "hash_order_ok ord" and n: "length rs < 2 ^ 31"
    and two: "r \<in> set rs" "r' \<in> set rs" "address r \<noteq> address r'"
  shows "1 / 2 ^ 62 \<le> entropy_of ord rs"
proof -
  let ?ks = "map address rs" and ?n = "length rs"
  let ?m = "addr_order ord (tally ?ks)"
  have strict: "0 < v \<and> v < ?n" if "(k, v) \<in> set ?m" for k v
  proof -
    have v: "v = count_list ?ks k" "0 < v"
      using addr_entries[OF ord that] by auto
    obtain q where q: "q \<in> set rs" "address q \<noteq> k"
      using two by metis
    have "count_list ?ks k < length ?ks"
      by (rule count_list_less[of "address q"]) (use q in auto)
    with v show ?thesis by simp
  qed
  have "set ?m = set (tally ?ks)"
    using hash_order_perm(2)[OF ord] by (rule mset_eq_setD)
  then have "?m \<noteq> []"
    using two(1) by (auto simp: set_tally)
  then obtain k v m where m: "?m = (k, v) # m"
    by (cases ?m) auto
  let ?p = "fdiv (real v) (real ?n)"
  have first: "0 < v" "v < ?n"
    using strict[of k v] m by auto
  note t = entropy_term_strict[OF first n]
  have dy: "rnd64 (1 / 2 ^ 62) = 1 / 2 ^ 62"
    using fl.dyadic[of 1 62] by simp
  have "1 / 2 ^ 62 \<le> fsub 0 (fmul ?p (flog2 ?p))"
    using t(2) dy by (intro fl.ge_exact) auto
  also have "\<dots> \<le> entropy_loop (real ?n) (fsub 0 (fmul ?p (flog2 ?p))) m"
  proof (rule entropy_loop_ge)
    fix k' v'
    assume "(k', v') \<in> set m"
    then have "v' < ?n"
      using strict[of k' v'] m by auto
    then show "0 \<le> fdiv (real v') (real ?n) \<and> fdiv (real v') (real ?n) \<le> 1"
      by (intro fdiv_ratio) auto
  qed simp
  finally show ?thesis
    unfolding entropy_of_def m using t(1) by (simp add: Let_def)
qed

section \<open>Uniform addresses\<close>

lemma dyadic_nat: "m < 2 ^ 53 \<Longrightarrow> e \<le> 1074 \<Longrightarrow> rnd64 (real m / 2 ^ e) = real m / 2 ^ e"
  using fl.dyadic[of "int m" e] by simp

lemma uniform_loop:
  assumes "\<And>k v. (k, v) \<in> set m \<Longrightarrow> v = c" and "0 < c" and j: "j \<le> 16" and "i + length m \<le> 2 ^ j"
  shows "entropy_loop (real (c * 2 ^ j)) (real (i * j) / 2 ^ j) m = real ((i + length m) * j) / 2 ^ j"
  using assms(1,4)
proof (induction m arbitrary: i)
  case (Cons kv m)
  obtain k where kv: "kv = (k, c)"
    using Cons.prems(1) by (cases kv) auto
  have big: "a * j < 2 ^ 53" if "a \<le> 2 ^ j" for a
  proof -
    have "a * j \<le> 2 ^ 16 * 16"
      using that j by (intro mult_le_mono order_trans[OF that] power_increasing) auto
    also have "\<dots> < (2 :: nat) ^ 53"
      by simp
    finally show ?thesis .
  qed
  have "real c / real (c * 2 ^ j) = real 1 / 2 ^ j"
    using assms(2) by simp
  then have p: "fdiv (real c) (real (c * 2 ^ j)) = 1 / 2 ^ j"
    using dyadic_nat[of 1 j] j by simp
  have "log 2 (1 / 2 ^ j) = - real j"
    by (simp add: log_divide log_nat_power)
  then have "flog2 (1 / 2 ^ j) = - real j"
    using fl.of_int_exact[of "- int j"] j by simp
  then have "fmul (1 / 2 ^ j) (flog2 (1 / 2 ^ j)) = rnd64 (- (real j / 2 ^ j))"
    by simp
  also have "\<dots> = - (real j / 2 ^ j)"
    using dyadic_nat[of j j] j by (simp add: rnd64_minus)
  finally have t: "fmul (1 / 2 ^ j) (flog2 (1 / 2 ^ j)) = - (real j / 2 ^ j)" .
  have "real (i * j) / 2 ^ j - - (real j / 2 ^ j) = real (Suc i * j) / 2 ^ j"
    by (simp add: field_simps)
  moreover have "rnd64 (real (Suc i * j) / 2 ^ j) = real (Suc i * j) / 2 ^ j"
    using Cons.prems(2) j by (intro dyadic_nat big) auto
  ultimately have e: "fsub (real (i * j) / 2 ^ j) (- (real j / 2 ^ j)) = real (Suc i * j) / 2 ^ j"
    by simp
  have "entropy_loop (real (c * 2 ^ j)) (real (i * j) / 2 ^ j) (kv # m) =
      entropy_loop (real (c * 2 ^ j)) (real (Suc i * j) / 2 ^ j) m"
    unfolding kv entropy_loop.simps Let_def p t e by simp
  also have "\<dots> = real ((Suc i + length m) * j) / 2 ^ j"
    using Cons.prems by (intro Cons.IH) auto
  finally show ?case by simp
qed simp

lemma entropy_uniform:
  assumes ord: "hash_order_ok ord" and c: "0 < c" and j: "j \<le> 16"
    and card: "card (address ` set rs) = 2 ^ j"
    and count: "\<And>a. a \<in> address ` set rs \<Longrightarrow> count_list (map address rs) a = c"
  shows "entropy_of ord rs = real j"
proof -
  let ?m = "addr_order ord (tally (map address rs))"
  have "length ?m = length (tally (map address rs))"
    using hash_order_perm(2)[OF ord] by (rule mset_eq_length)
  also have "\<dots> = card (fst ` set (tally (map address rs)))"
    using distinct_card[OF distinct_tally, of "map address rs"] by simp
  also have "fst ` set (tally (map address rs)) = address ` set rs"
    by (auto simp: set_tally image_image)
  finally have len: "length ?m = 2 ^ j"
    by (simp add: card)
  have "length (map address rs) = (\<Sum>a \<in> set (map address rs). count_list (map address rs) a)"
    by (simp only: sum_count_set[OF subset_refl finite_set])
  also have "\<dots> = c * 2 ^ j"
    using count card by simp
  finally have n: "length rs = c * 2 ^ j"
    by simp
  have "v = c" if "(k, v) \<in> set ?m" for k v
    using addr_entries(1,2)[OF ord that] count by simp
  then have "entropy_loop (real (c * 2 ^ j)) (real (0 * j) / 2 ^ j) ?m = real ((0 + length ?m) * j) / 2 ^ j"
    using c j len by (intro uniform_loop) auto
  then show ?thesis
    unfolding entropy_of_def n len by simp
qed

section \<open>Periodic arrivals\<close>

text \<open>All gaps are exactly \<^verbatim>\<open>P\<close> whole seconds.\<close>

fun every_seconds :: "nat \<Rightarrow> parsed_record list \<Rightarrow> bool" where
  "every_seconds P (a # b # rs) =
     (rec_timestamp b = rec_timestamp a + int P * 1000000000 \<and> every_seconds P (b # rs))"
| "every_seconds P _ = True"

lemma periodic_deltas:
  "every_seconds P rs \<Longrightarrow> P * 1000000000 < 2 ^ 53 \<Longrightarrow> arrival_deltas rs = replicate (length rs - 1) (real P)"
proof (induction P rs rule: every_seconds.induct)
  case (1 P a b rs)
  have "rnd64 (real (P * 1000000000)) = real (P * 1000000000)"
    using "1.prems"(2) by (rule fl.of_nat_exact)
  moreover have "rnd64 (real P) = real P"
    using "1.prems"(2) by (intro fl.of_nat_exact) simp
  ultimately have "seconds_of_ns (int P * 1000000000) = real P"
    by (simp add: seconds_of_ns_def)
  with 1 show ?case
    by simp
qed auto

lemma foldl_exact:
  assumes "\<And>i. i \<le> k \<Longrightarrow> rnd64 (real i * d) = real i * d"
  shows "foldl (\<lambda>s x. fadd s x) 0 (replicate k d) = real k * d"
  using assms
proof (induction k)
  case (Suc k)
  have "replicate (Suc k) d = replicate k d @ [d]"
    by (simp add: replicate_append_same)
  then have "foldl (\<lambda>s x. fadd s x) 0 (replicate (Suc k) d) = fadd (foldl (\<lambda>s x. fadd s x) 0 (replicate k d)) d"
    by (simp only: foldl_append foldl_Cons foldl_Nil)
  also have "\<dots> = rnd64 (real (Suc k) * d)"
    using Suc by (simp add: algebra_simps)
  finally show ?case
    using Suc.prems[of "Suc k"] by simp
qed simp

lemma square_loop_zero: "square_loop d (replicate k d) = 0"
  by (induction k) (simp_all add: square_loop_def)

lemma periodic_features:
  assumes "every_seconds P rs" and "P * 1000000000 < 2 ^ 53" and "length rs * P < 2 ^ 53" and "length rs < 2 ^ 53"
    and "1 < length rs"
  shows "mean_ia rs = real P" and "std_ia rs = 0"
proof -
  let ?k = "length rs - 1"
  note d = periodic_deltas[OF assms(1,2)]
  have "rnd64 (real i * real P) = real i * real P" if "i \<le> ?k" for i
  proof -
    have "i * P \<le> length rs * P"
      using that by (intro mult_right_mono) auto
    then have "i * P < 2 ^ 53"
      using assms(3) by (rule le_less_trans)
    from fl.of_nat_exact[OF this] show ?thesis by simp
  qed
  then have "sum_loop (arrival_deltas rs) = real ?k * real P"
    unfolding sum_loop_def d by (rule foldl_exact)
  moreover have "rnd64 (real P) = real P"
    using assms(2) by (intro fl.of_nat_exact) simp
  moreover have "rnd64 (real ?k) = real ?k"
    using assms(4) by (intro fl.of_nat_exact) simp
  ultimately show m: "mean_ia rs = real P"
    using assms(5) by (simp add: mean_ia_def length_arrival_deltas)
  show "std_ia rs = 0"
    unfolding std_ia_def m by (simp add: d square_loop_zero)
qed

section \<open>Windows of the window manager\<close>

lemma gaps_le_nth:
  "(\<And>i. Suc i < length rs \<Longrightarrow> 0 \<le> rec_timestamp (rs ! Suc i) - rec_timestamp (rs ! i) \<and>
     rec_timestamp (rs ! Suc i) - rec_timestamp (rs ! i) \<le> g) \<Longrightarrow> gaps_le g rs"
proof (induction g rs rule: gaps_le.induct)
  case (1 g a b rs)
  have "gaps_le g (b # rs)"
    using "1.prems"[of "Suc i" for i] by (intro "1.IH") simp
  then show ?case
    using "1.prems"[of 0] by simp
qed auto

lemma window_ok_gaps: "window_ok wsize w \<Longrightarrow> gaps_le wsize (records w)"
  by (rule gaps_le_nth) (rule wm.emitted_gap, auto)

section \<open>Properties\<close>

text \<open>A window of records with given time, write flag, function code and address; an iteration order.\<close>

definition sample_record :: "timestamp \<Rightarrow> bool \<Rightarrow> u8 \<Rightarrow> u16 \<Rightarrow> parsed_record" where
  "sample_record t w f a = \<lparr>rec_timestamp = t, protocol = ''Modbus'', isRequest = True, isWrite = w,
     functionCode = f, address = a\<rparr>"

definition sample_window :: "parsed_record list \<Rightarrow> window" where
  "sample_window rs = \<lparr>startTime = 0, endTime = 5000000000, records = rs\<rparr>"

definition insertion_order :: hash_order where
  "insertion_order = \<lparr>func_order = \<lambda>m. m, addr_order = \<lambda>m. m, proto_order = rev\<rparr>"

lemma insertion_order_ok: "hash_order_ok insertion_order"
  by (simp add: hash_order_ok_def insertion_order_def)

definition sample_four :: "parsed_record list" where
  "sample_four = [sample_record 0 True 5 10, sample_record 1000000000 False 3 11,
     sample_record 2000000000 True 5 12, sample_record 3000000000 True 6 13]"

text \<open>
  C33. What the count features mean. Whatever order the hash maps iterate in, the vector of a
  nonempty window has eight entries; the first is the number of records, and entries 1, 2, 4 and 7
  are the correctly rounded fractions of writes, of the most frequent function code, of the most
  frequent protocol and of the most frequent address.
\<close>

theorem count_features_meaning:
  assumes "hash_order_ok ord" and "records win \<noteq> []" and "length (records win) < 2 ^ 53"
  shows "let rs = records win; n = length rs; v = feature_values (FeatureExtractor_compute ord win) in
    length v = 8 \<and> v ! 0 = real n \<and>
    v ! 1 = fdiv (real (length (filter isWrite rs))) (real n) \<and>
    v ! 2 = fdiv (real (most_common (map functionCode rs))) (real n) \<and>
    v ! 4 = fdiv (real (most_common (map protocol rs))) (real n) \<and>
    v ! 7 = fdiv (real (most_common (map address rs))) (real n)"
  unfolding compute_values[OF assms] Let_def by (simp add: ratio_def)

theorem count_features_meaning_witness:
  "feature_values (FeatureExtractor_compute insertion_order (sample_window sample_four)) ! 1 = fdiv 3 4"
  using count_features_meaning[OF insertion_order_ok, of "sample_window sample_four"]
  by (simp add: Let_def sample_window_def sample_four_def sample_record_def)

text \<open>
  Hash order. Two iteration orders of the hash maps give the same features except, through
  rounding of the sum, the entropy.
\<close>

lemma features_independent_of_hash_order:
  assumes "hash_order_ok ord" and "hash_order_ok ord'" and "length (records win) < 2 ^ 53" and "i \<noteq> 3"
  shows "feature_values (FeatureExtractor_compute ord win) ! i = feature_values (FeatureExtractor_compute ord' win) ! i"
proof (cases "records win = []")
  case True
  then show ?thesis by (simp add: FeatureExtractor_compute_def Let_def)
next
  case False
  then show ?thesis
    unfolding compute_values[OF assms(1) False assms(3)] compute_values[OF assms(2) False assms(3)] Let_def
    using assms(4) by (simp add: nth_Cons split: nat.split)
qed

definition reverse_order :: hash_order where
  "reverse_order = \<lparr>func_order = rev, addr_order = rev, proto_order = rev\<rparr>"

lemma features_independent_of_hash_order_witness:
  "feature_values (FeatureExtractor_compute insertion_order (sample_window sample_four)) ! 7 =
   feature_values (FeatureExtractor_compute reverse_order (sample_window sample_four)) ! 7"
  by (rule features_independent_of_hash_order[OF insertion_order_ok])
    (simp_all add: hash_order_ok_def reverse_order_def sample_window_def sample_four_def)

text \<open>
  Entropy zero. For a nonempty window of fewer than \<^verbatim>\<open>2 ^ 31\<close> records, the computed address
  entropy is zero exactly when all records have the same address, in spite of rounding.
\<close>

lemma entropy_zero_iff_one_address:
  assumes ord: "hash_order_ok ord" and ne: "records win \<noteq> []" and n: "length (records win) < 2 ^ 31"
  shows "feature_values (FeatureExtractor_compute ord win) ! 3 = 0 \<longleftrightarrow>
         (\<exists>a. \<forall>r \<in> set (records win). address r = a)"
proof -
  have n': "length (records win) < 2 ^ 53"
    using n by simp
  have "entropy_of ord (records win) = 0" if "\<forall>r \<in> set (records win). address r = a" for a
    using entropy_single[OF ord ne] that by blast
  moreover have "entropy_of ord (records win) \<noteq> 0" if several: "\<not> (\<exists>a. \<forall>r \<in> set (records win). address r = a)"
  proof -
    have "hd (records win) \<in> set (records win)"
      using ne by simp
    moreover obtain r where "r \<in> set (records win)" "address r \<noteq> address (hd (records win))"
      using several by blast
    ultimately show ?thesis
      using entropy_several[OF ord n, of r "hd (records win)"] by auto
  qed
  ultimately show ?thesis
    unfolding compute_values[OF ord ne n'] Let_def by auto
qed

lemma entropy_zero_iff_one_address_witness:
  "feature_values (FeatureExtractor_compute insertion_order (sample_window sample_four)) ! 3 \<noteq> 0"
  using entropy_zero_iff_one_address[OF insertion_order_ok, of "sample_window sample_four"]
  by (simp add: sample_window_def sample_four_def sample_record_def)

text \<open>
  Entropy of a spray. When a window spreads its records evenly over \<^verbatim>\<open>2 ^ j\<close> addresses, the
  computed entropy is exactly \<^verbatim>\<open>j\<close> bits: every step of the double computation is exact.
\<close>

lemma entropy_of_even_spray:
  assumes "hash_order_ok ord" and "length (records win) < 2 ^ 53" and "0 < c" and "j \<le> 16"
    and "card (address ` set (records win)) = 2 ^ j"
    and "\<And>a. a \<in> address ` set (records win) \<Longrightarrow> count_list (map address (records win)) a = c"
  shows "feature_values (FeatureExtractor_compute ord win) ! 3 = real j"
proof -
  have ne: "records win \<noteq> []"
    using assms(5) by auto
  show ?thesis
    unfolding compute_values[OF assms(1) ne assms(2)] Let_def
    using entropy_uniform[OF assms(1,3,4,5,6)] by simp
qed

lemma entropy_of_even_spray_witness:
  "feature_values (FeatureExtractor_compute insertion_order (sample_window sample_four)) ! 3 = 2"
proof -
  let ?w = "sample_window sample_four"
  have addr: "map address (records ?w) = [10, 11, 12, 13]"
    by (simp add: sample_window_def sample_four_def sample_record_def)
  then have img: "address ` set (records ?w) = {10, 11, 12, 13}"
    by (metis list.set_map list.simps(15) list.set(1))
  have cnt: "count_list (map address (records ?w)) a = 1" if "a \<in> address ` set (records ?w)" for a
    using that unfolding addr img by auto
  have "feature_values (FeatureExtractor_compute insertion_order ?w) ! 3 = real 2"
    by (rule entropy_of_even_spray[OF insertion_order_ok _ _ _ _ cnt])
      (simp_all add: img, simp add: sample_window_def sample_four_def)
  then show ?thesis
    by simp
qed

text \<open>
  Strictly periodic traffic. If consecutive records are exactly \<^verbatim>\<open>P\<close> whole seconds apart, the
  mean inter-arrival feature is exactly \<^verbatim>\<open>P\<close> and the deviation exactly 0.
\<close>

lemma periodic_traffic_features:
  assumes "hash_order_ok ord" and "every_seconds P (records win)" and "1 < length (records win)"
    and "P * 1000000000 < 2 ^ 53" and "length (records win) * P < 2 ^ 53" and "length (records win) < 2 ^ 53"
  shows "feature_values (FeatureExtractor_compute ord win) ! 5 = real P \<and>
    feature_values (FeatureExtractor_compute ord win) ! 6 = 0"
proof -
  have ne: "records win \<noteq> []"
    using assms(3) by auto
  show ?thesis
    unfolding compute_values[OF assms(1) ne assms(6)] Let_def
    using periodic_features[OF assms(2,4,5,6,3)] assms(3) by simp_all
qed

lemma periodic_traffic_features_witness:
  "feature_values (FeatureExtractor_compute insertion_order (sample_window sample_four)) ! 5 = 1 \<and>
   feature_values (FeatureExtractor_compute insertion_order (sample_window sample_four)) ! 6 = 0"
  using periodic_traffic_features[OF insertion_order_ok, of 1 "sample_window sample_four"]
  by (simp add: sample_window_def sample_four_def sample_record_def)

end
