(* ===== verification/Detectors.thy ===== *)
theory Detectors
  imports Feature_Extractor
begin

text \<open>
  The two detectors: \<^verbatim>\<open>detection/hst.cpp\<close>, a linear score of the write ratio, the function
  concentration and the product of entropy and write ratio, and \<^verbatim>\<open>detection/burst.cpp\<close>, the
  distance of the inter-arrival variance from a fixed baseline. Both return 0 for a vector of fewer
  than eight features.

  What the risk model relies on is the locale \<^verbatim>\<open>detector\<close>: scores of well-formed vectors are
  never negative. It is interpreted on both scores.
\<close>

definition HalfSpaceTrees_score :: "feature_vector \<Rightarrow> real" where
  "HalfSpaceTrees_score fv =
    (let v = feature_values fv
     in if length v < 8 then 0
        else let writeRisk = fmul (v ! 1) (lit 50);
                 funcRisk = fmul (v ! 2) (lit (5 / 2));
                 sprayRisk = fmul (fmul (v ! 3) (v ! 1)) (lit 20)
             in fadd (fadd writeRisk funcRisk) sprayRisk)"

definition BASE_SIGMA :: real where "BASE_SIGMA = lit (5 / 100)"
definition EPSILON :: real where "EPSILON = lit (1 / 1000)"

definition BurstDetector_score :: "feature_vector \<Rightarrow> real" where
  "BurstDetector_score fv =
    (let v = feature_values fv
     in if length v < 8 then 0
        else let currentSigma = v ! 6;
                 varCurrent = fmul currentSigma currentSigma;
                 varBase = fmul BASE_SIGMA BASE_SIGMA;
                 numerator = \<bar>fsub varCurrent varBase\<bar>;
                 denominator = fadd EPSILON BASE_SIGMA
             in fdiv numerator denominator)"

section \<open>The contract of a detector\<close>

definition features_ok :: "feature_vector \<Rightarrow> bool" where
  "features_ok fv \<longleftrightarrow> (let v = feature_values fv in length v = 8 \<and>
     0 \<le> v ! 1 \<and> v ! 1 \<le> 1 \<and> 0 \<le> v ! 2 \<and> v ! 2 \<le> 1 \<and> 0 \<le> v ! 3 \<and> 0 \<le> v ! 6)"

locale detector =
  fixes score :: "feature_vector \<Rightarrow> real"
  assumes short: "length (feature_values fv) < 8 \<Longrightarrow> score fv = 0"
    and ok_nonneg: "features_ok fv \<Longrightarrow> 0 \<le> score fv"
begin

lemma score_nonneg: "features_ok fv \<or> length (feature_values fv) < 8 \<Longrightarrow> 0 \<le> score fv"
  using short ok_nonneg by auto

end

section \<open>The linear score\<close>

lemma hst_mono:
  assumes len: "length (feature_values a) = 8" "length (feature_values b) = 8"
    and w: "0 \<le> feature_values a ! 1" "feature_values a ! 1 \<le> feature_values b ! 1"
    and f: "feature_values a ! 2 \<le> feature_values b ! 2"
    and e: "0 \<le> feature_values a ! 3" "feature_values a ! 3 \<le> feature_values b ! 3"
  shows "HalfSpaceTrees_score a \<le> HalfSpaceTrees_score b"
proof -
  have "feature_values a ! 3 * feature_values a ! 1 \<le> feature_values b ! 3 * feature_values b ! 1"
    using w e by (intro mult_mono) auto
  then have "fadd (fadd (fmul (feature_values a ! 1) 50) (fmul (feature_values a ! 2) (5 / 2)))
        (fmul (fmul (feature_values a ! 3) (feature_values a ! 1)) 20)
      \<le> fadd (fadd (fmul (feature_values b ! 1) 50) (fmul (feature_values b ! 2) (5 / 2)))
        (fmul (fmul (feature_values b ! 3) (feature_values b ! 1)) 20)"
    using w f by (intro fl.mono add_mono mult_right_mono) auto
  then show ?thesis
    using len by (simp add: HalfSpaceTrees_score_def Let_def)
qed

lemma hst_nonneg: "features_ok fv \<Longrightarrow> 0 \<le> HalfSpaceTrees_score fv"
  by (auto simp: HalfSpaceTrees_score_def features_ok_def Let_def intro!: fl.nonneg add_nonneg_nonneg mult_nonneg_nonneg)

lemma hst_read_only:
  assumes "features_ok fv" and "feature_values fv ! 1 = 0"
  shows "HalfSpaceTrees_score fv \<le> 5 / 2"
proof -
  have "fmul (feature_values fv ! 2) (5 / 2) \<le> 5 / 2"
    using assms(1) by (intro fl.le_exact) (auto simp: features_ok_def Let_def)
  then show ?thesis
    using assms by (simp add: HalfSpaceTrees_score_def features_ok_def Let_def)
qed

text \<open>A write ratio of at least \<^verbatim>\<open>21 / 64\<close> alone already scores at least 16.\<close>

lemma hst_writes:
  assumes ok: "features_ok fv" and w: "21 / 64 \<le> feature_values fv ! 1"
  shows "16 \<le> HalfSpaceTrees_score fv"
proof -
  let ?v = "feature_values fv"
  have "16 \<le> fmul (?v ! 1) 50"
    using w by (intro fl.ge_exact) auto
  moreover have nn: "0 \<le> fmul (?v ! 2) (5 / 2)" "0 \<le> fmul (fmul (?v ! 3) (?v ! 1)) 20"
    using ok by (auto simp: features_ok_def Let_def intro!: fl.nonneg mult_nonneg_nonneg)
  ultimately have "16 \<le> fadd (fmul (?v ! 1) 50) (fmul (?v ! 2) (5 / 2))"
    by (intro fl.ge_exact) (simp, linarith)
  with nn(2) have "16 \<le> fadd (fadd (fmul (?v ! 1) 50) (fmul (?v ! 2) (5 / 2))) (fmul (fmul (?v ! 3) (?v ! 1)) 20)"
    by (intro fl.ge_exact) (simp, linarith)
  then show ?thesis
    using ok by (simp add: HalfSpaceTrees_score_def features_ok_def Let_def)
qed

section \<open>The burst score\<close>

lemma base_bounds:
  "3 / 64 \<le> BASE_SIGMA" "BASE_SIGMA \<le> 13 / 256" "0 \<le> EPSILON" "EPSILON \<le> 1 / 512"
  unfolding BASE_SIGMA_def EPSILON_def
  subgoal by (rule fl.ge_exact) simp_all
  subgoal by (rule fl.le_exact) simp_all
  subgoal by (rule fl.nonneg) simp
  subgoal by (rule fl.le_exact) simp_all
  done

lemma var_base_bounds: "0 \<le> fmul BASE_SIGMA BASE_SIGMA" "fmul BASE_SIGMA BASE_SIGMA \<le> 1 / 256"
proof -
  have "BASE_SIGMA * BASE_SIGMA \<le> (13 / 256) * (13 / 256)"
    using base_bounds(1,2) by (intro mult_mono) auto
  then have "BASE_SIGMA * BASE_SIGMA \<le> 1 / 256"
    by simp
  then show "fmul BASE_SIGMA BASE_SIGMA \<le> 1 / 256"
    by (intro fl.le_exact) simp_all
qed (intro fl.nonneg zero_le_square)

lemma denominator_bounds: "3 / 64 \<le> fadd EPSILON BASE_SIGMA" "fadd EPSILON BASE_SIGMA \<le> 27 / 512"
proof -
  have s: "3 / 64 \<le> EPSILON + BASE_SIGMA" "EPSILON + BASE_SIGMA \<le> 27 / 512"
    using base_bounds by linarith+
  from s(1) show "3 / 64 \<le> fadd EPSILON BASE_SIGMA"
    by (rule fl.ge_exact[rotated]) simp
  from s(2) show "fadd EPSILON BASE_SIGMA \<le> 27 / 512"
    by (rule fl.le_exact[rotated]) simp
qed

lemma burst_nonneg: "features_ok fv \<Longrightarrow> 0 \<le> BurstDetector_score fv"
proof -
  have "0 \<le> fadd EPSILON BASE_SIGMA"
    using denominator_bounds(1) by linarith
  then have "0 \<le> fdiv \<bar>x\<bar> (fadd EPSILON BASE_SIGMA)" for x
    by (intro fl.nonneg[of "\<bar>x\<bar> / _"] divide_nonneg_nonneg) simp_all
  then show ?thesis
    by (simp add: BurstDetector_score_def Let_def)
qed

text \<open>A deviation of at most a quarter of a second scores at most 3/2; one of a second or more, at least 16.\<close>

lemma burst_small:
  assumes len: "length (feature_values fv) = 8" and s: "0 \<le> feature_values fv ! 6" "feature_values fv ! 6 \<le> 1 / 4"
  shows "BurstDetector_score fv \<le> 3 / 2"
proof -
  let ?s = "feature_values fv ! 6" and ?b = "fmul BASE_SIGMA BASE_SIGMA" and ?d = "fadd EPSILON BASE_SIGMA"
  have "?s * ?s \<le> (1 / 4) * (1 / 4)"
    using s by (intro mult_mono) auto
  then have "fmul ?s ?s \<le> 1 / 16"
    by (intro fl.le_exact) simp_all
  moreover have "0 \<le> fmul ?s ?s"
    by (intro fl.nonneg zero_le_square)
  ultimately have v: "fmul ?s ?s - ?b \<le> 1 / 16" "- (1 / 16) \<le> fmul ?s ?s - ?b"
    using var_base_bounds by linarith+
  have "fsub (fmul ?s ?s) ?b \<le> 1 / 16"
    using v(1) by (rule fl.le_exact[rotated]) simp
  moreover have "- (1 / 16) \<le> fsub (fmul ?s ?s) ?b"
    using v(2) by (rule fl.ge_exact[rotated]) simp
  ultimately have n: "\<bar>fsub (fmul ?s ?s) ?b\<bar> \<le> 1 / 16"
    by linarith
  have "\<bar>fsub (fmul ?s ?s) ?b\<bar> / ?d \<le> (1 / 16) / (3 / 64)"
    using n denominator_bounds(1) by (intro frac_le) linarith+
  also have "\<dots> \<le> 3 / 2"
    by simp
  finally have "fdiv \<bar>fsub (fmul ?s ?s) ?b\<bar> ?d \<le> 3 / 2"
    by (intro fl.le_exact) simp_all
  then show ?thesis
    using len by (simp add: BurstDetector_score_def Let_def)
qed

lemma burst_large:
  assumes len: "length (feature_values fv) = 8" and s: "1 \<le> feature_values fv ! 6"
  shows "16 \<le> BurstDetector_score fv"
proof -
  let ?s = "feature_values fv ! 6" and ?b = "fmul BASE_SIGMA BASE_SIGMA" and ?d = "fadd EPSILON BASE_SIGMA"
  have "1 * 1 \<le> ?s * ?s"
    using s by (intro mult_mono) auto
  then have "1 \<le> fmul ?s ?s"
    by (intro fl.ge_exact) auto
  then have "255 / 256 \<le> fmul ?s ?s - ?b"
    using var_base_bounds by linarith
  then have "255 / 256 \<le> fsub (fmul ?s ?s) ?b"
    by (intro fl.ge_exact) simp_all
  then have n: "255 / 256 \<le> \<bar>fsub (fmul ?s ?s) ?b\<bar>"
    by linarith
  have "16 \<le> (255 / 256) / (27 / 512 :: real)"
    by simp
  also have "\<dots> \<le> \<bar>fsub (fmul ?s ?s) ?b\<bar> / ?d"
    using n denominator_bounds by (intro frac_le) linarith+
  finally have "16 \<le> fdiv \<bar>fsub (fmul ?s ?s) ?b\<bar> ?d"
    by (intro fl.ge_exact) auto
  then show ?thesis
    using len by (simp add: BurstDetector_score_def Let_def)
qed

interpretation hst: detector HalfSpaceTrees_score
  by unfold_locales (simp_all add: hst_nonneg, simp add: HalfSpaceTrees_score_def)

interpretation burst: detector BurstDetector_score
  by unfold_locales (simp_all add: burst_nonneg, simp add: BurstDetector_score_def)

end
