(* ===== verification/Risk_Model.thy ===== *)
theory Risk_Model
  imports Detectors
begin

text \<open>
  The risk model of \<^verbatim>\<open>risk/risk_model.cpp\<close>: both scores are divided by 10, passed through a
  sigmoid, combined by the maximum, and fed to a two-threshold switch with hysteresis. The state is
  the private flag \<^verbatim>\<open>isOn_\<close>.
\<close>

record risk_model =
  isOn :: bool

definition tauOn :: real where "tauOn = lit (7 / 10)"
definition tauOff :: real where "tauOff = lit (5 / 10)"
definition k_sigmoid :: real where "k_sigmoid = lit 2"

definition sigmoid :: "real \<Rightarrow> real" where
  "sigmoid z = fdiv 1 (fadd 1 (fexp (fmul (- k_sigmoid) (fsub z 1))))"

definition RiskModel_fuse :: "real \<Rightarrow> real \<Rightarrow> detection_result" where
  "RiskModel_fuse hst burst = \<lparr>hstScore = hst, burstScore = burst\<rparr>"

definition RiskModel_evaluate :: "risk_model \<Rightarrow> detection_result \<Rightarrow> risk_model \<times> risk_decision" where
  "RiskModel_evaluate m detection =
    (let z_hst = fdiv (hstScore detection) (lit 10);
         z_burst = fdiv (burstScore detection) (lit 10);
         p_hst = sigmoid z_hst;
         p_burst = sigmoid z_burst;
         p_max = max p_hst p_burst;
         m = (if \<not> isOn m \<and> tauOn \<le> p_max then m\<lparr>isOn := True\<rparr>
              else if isOn m \<and> p_max \<le> tauOff then m\<lparr>isOn := False\<rparr> else m);
         decision = (if isOn m then \<lparr>level = High, escalate = True, restrictWrites = True, probability = 0\<rparr>
                     else if \<not> isOn m \<and> lit (4 / 10) < p_max
                          then \<lparr>level = Medium, escalate = False, restrictWrites = False, probability = 0\<rparr>
                     else \<lparr>level = Low, escalate = False, restrictWrites = False, probability = 0\<rparr>)
     in (m, decision\<lparr>probability := p_max\<rparr>))"

section \<open>The sigmoid\<close>

lemma k_sigmoid_2 [simp]: "k_sigmoid = 2"
  by (simp add: k_sigmoid_def)

lemma tauOff_half [simp]: "tauOff = 1 / 2"
  by (simp add: tauOff_def)

lemma threshold_bounds: "11 / 16 \<le> tauOn" "tauOn \<le> 45 / 64" "3 / 8 \<le> lit (4 / 10)"
  unfolding tauOn_def
  subgoal by (rule fl.ge_exact) simp_all
  subgoal by (rule fl.le_exact) simp_all
  subgoal by (rule fl.ge_exact) simp_all
  done

lemma sigmoid_denominator: "1 \<le> fadd 1 (fexp x)"
  using fl.nonneg[of "exp x"] by (intro fl.ge_exact) auto

lemma sigmoid_mono: "z \<le> z' \<Longrightarrow> sigmoid z \<le> sigmoid z'"
proof -
  assume "z \<le> z'"
  then have "fsub z 1 \<le> fsub z' 1"
    by (intro fl.mono) simp
  then have "fmul (- 2) (fsub z' 1) \<le> fmul (- 2) (fsub z 1)"
    by (intro fl.mono) simp
  then have "fadd 1 (fexp (fmul (- 2) (fsub z' 1))) \<le> fadd 1 (fexp (fmul (- 2) (fsub z 1)))"
    by (intro fl.mono add_left_mono) simp
  moreover have "0 < fadd 1 (fexp x)" for x
    using sigmoid_denominator[of x] by linarith
  ultimately have "1 / fadd 1 (fexp (fmul (- 2) (fsub z 1))) \<le> 1 / fadd 1 (fexp (fmul (- 2) (fsub z' 1)))"
    by (intro divide_left_mono mult_pos_pos) auto
  then show ?thesis
    unfolding sigmoid_def k_sigmoid_2 by (rule fl.mono)
qed

lemma sigmoid_range: "0 \<le> sigmoid z \<and> sigmoid z \<le> 1"
  unfolding sigmoid_def
  using sigmoid_denominator[of "fmul (- k_sigmoid) (fsub z 1)"]
  by (intro fdiv_ratio) simp_all

lemma sigmoid_one: "sigmoid 1 = 1 / 2"
  by (simp add: sigmoid_def)

text \<open>A normalised score of at least \<^verbatim>\<open>51 / 32\<close> passes the upper threshold.\<close>

lemma exp_lower: "0 \<le> x \<Longrightarrow> 1 + x + x\<^sup>2 / 2 \<le> exp (x :: real)"
  by (rule exp_lower_Taylor_quadratic)

lemma sigmoid_high: "51 / 32 \<le> z \<Longrightarrow> tauOn \<le> sigmoid z"
proof -
  assume z: "51 / 32 \<le> z"
  have "19 / 32 \<le> fsub z 1"
    using z by (intro fl.ge_exact) auto
  then have m: "fmul (- 2) (fsub z 1) \<le> - (19 / 16)"
    by (intro fl.le_exact) auto
  have "64 / 25 \<le> exp (19 / 16 :: real)"
    using exp_lower[of "19 / 16"] by (simp add: power2_eq_square)
  then have "exp (- (19 / 16) :: real) \<le> 25 / 64"
    by (simp add: exp_minus field_simps)
  with m have "exp (fmul (- 2) (fsub z 1)) \<le> 25 / 64"
    by (meson exp_le_cancel_iff order_trans)
  then have "fexp (fmul (- 2) (fsub z 1)) \<le> 25 / 64"
    by (intro fl.le_exact) simp_all
  then have "fadd 1 (fexp (fmul (- 2) (fsub z 1))) \<le> 89 / 64"
    by (intro fl.le_exact) auto
  then have "1 / (89 / 64) \<le> 1 / fadd 1 (fexp (fmul (- 2) (fsub z 1)))"
    using sigmoid_denominator[of "fmul (- 2) (fsub z 1)"] by (intro divide_left_mono) auto
  then have "45 / 64 \<le> sigmoid z"
    unfolding sigmoid_def k_sigmoid_2 by (intro fl.ge_exact) auto
  with threshold_bounds(2) show ?thesis
    by linarith
qed

text \<open>A normalised score of at most a quarter stays at or below a probability of 1/4.\<close>

lemma sigmoid_low: "z \<le> 1 / 4 \<Longrightarrow> sigmoid z \<le> 1 / 4"
proof -
  assume z: "z \<le> 1 / 4"
  have "fsub z 1 \<le> - (3 / 4)"
    using z by (intro fl.le_exact) auto
  then have "3 / 2 \<le> fmul (- 2) (fsub z 1)"
    by (intro fl.ge_exact) auto
  moreover have "3 \<le> exp (3 / 2 :: real)"
    using exp_lower[of "3 / 2"] by (simp add: power2_eq_square)
  ultimately have "3 \<le> exp (fmul (- 2) (fsub z 1))"
    by (meson exp_le_cancel_iff order_trans)
  then have "3 \<le> fexp (fmul (- 2) (fsub z 1))"
    by (intro fl.ge_exact) auto
  then have "4 \<le> fadd 1 (fexp (fmul (- 2) (fsub z 1)))"
    by (intro fl.ge_exact) auto
  then have "1 / fadd 1 (fexp (fmul (- 2) (fsub z 1))) \<le> 1 / 4"
    by (intro divide_left_mono) auto
  then show ?thesis
    unfolding sigmoid_def k_sigmoid_2 by (intro fl.le_exact) auto
qed

section \<open>One evaluation\<close>

definition risk_probability :: "detection_result \<Rightarrow> real" where
  "risk_probability d = max (sigmoid (fdiv (hstScore d) 10)) (sigmoid (fdiv (burstScore d) 10))"

definition next_on :: "bool \<Rightarrow> real \<Rightarrow> bool" where
  "next_on b p \<longleftrightarrow> (if b then 1 / 2 < p else tauOn \<le> p)"

lemma evaluate_state: "isOn (fst (RiskModel_evaluate m d)) = next_on (isOn m) (risk_probability d)"
  by (simp add: RiskModel_evaluate_def Let_def risk_probability_def next_on_def)

lemma evaluate_decision:
  "snd (RiskModel_evaluate m d) =
    (let p = risk_probability d; on = next_on (isOn m) p
     in \<lparr>level = (if on then High else if lit (4 / 10) < p then Medium else Low),
         escalate = on, restrictWrites = on, probability = p\<rparr>)"
  by (simp add: RiskModel_evaluate_def Let_def risk_probability_def next_on_def)

lemma risk_probability_mono:
  assumes "hstScore d \<le> hstScore d'" and "burstScore d \<le> burstScore d'"
  shows "risk_probability d \<le> risk_probability d'"
  using assms unfolding risk_probability_def
  by (intro max.mono sigmoid_mono fl.mono divide_right_mono) auto

lemma risk_probability_high:
  assumes "16 \<le> hstScore d \<or> 16 \<le> burstScore d" shows "tauOn \<le> risk_probability d"
proof -
  have "51 / 32 \<le> fdiv x 10" if "16 \<le> x" for x
    using that by (intro fl.ge_exact) auto
  then show ?thesis
    using assms sigmoid_high unfolding risk_probability_def by (auto simp: le_max_iff_disj)
qed

lemma risk_probability_off:
  assumes "hstScore d \<le> 10" and "burstScore d \<le> 10" shows "risk_probability d \<le> 1 / 2"
proof -
  have "fdiv x 10 \<le> 1" if "x \<le> 10" for x
    using that by (intro fl.le_one) simp
  then show ?thesis
    using assms sigmoid_mono[of _ 1] unfolding risk_probability_def sigmoid_one max.bounded_iff by blast
qed

lemma risk_probability_low:
  assumes "hstScore d \<le> 5 / 2" and "burstScore d \<le> 5 / 2" shows "risk_probability d \<le> 1 / 4"
proof -
  have "fdiv x 10 \<le> 1 / 4" if "x \<le> 5 / 2" for x
    using that by (intro fl.le_exact) auto
  then show ?thesis
    using assms sigmoid_low unfolding risk_probability_def max.bounded_iff by blast
qed

lemma tauOn_gt_half: "1 / 2 < tauOn"
  using threshold_bounds(1) by linarith


text \<open>The flag never turns on below the upper threshold nor off above the lower one.\<close>

lemma next_on_cases:
  "next_on b p \<longleftrightarrow> tauOn \<le> p \<or> b \<and> 1 / 2 < p"
  using tauOn_gt_half by (auto simp: next_on_def)

lemma next_on_mono: "(b \<longrightarrow> b') \<Longrightarrow> p \<le> p' \<Longrightarrow> next_on b p \<Longrightarrow> next_on b' p'"
  by (auto simp: next_on_cases)

lemmas evaluate_simps = evaluate_state evaluate_decision

text \<open>The contract of the detectors bounds every probability of a well-formed vector from below.\<close>

lemma probability_floor:
  assumes "features_ok fv"
  shows "sigmoid 0 \<le> risk_probability (RiskModel_fuse (HalfSpaceTrees_score fv) (BurstDetector_score fv))"
proof -
  have "0 \<le> fdiv (HalfSpaceTrees_score fv) 10"
    using hst.ok_nonneg[OF assms] by (intro fl.nonneg) simp
  then show ?thesis
    by (auto simp: risk_probability_def RiskModel_fuse_def le_max_iff_disj intro: sigmoid_mono)
qed

section \<open>Runs of the model\<close>

definition risk_init :: risk_model where
  "risk_init = \<lparr>isOn = False\<rparr>"

fun risk_run :: "risk_model \<Rightarrow> detection_result list \<Rightarrow> risk_model \<times> risk_decision list" where
  "risk_run m [] = (m, [])"
| "risk_run m (d # ds) =
     (let (m, dec) = RiskModel_evaluate m d; (m, decs) = risk_run m ds in (m, dec # decs))"

lemma risk_run_Cons:
  "risk_run m (d # ds) =
    (fst (risk_run (fst (RiskModel_evaluate m d)) ds),
     snd (RiskModel_evaluate m d) # snd (risk_run (fst (RiskModel_evaluate m d)) ds))"
  by (simp add: case_prod_unfold Let_def)

lemma risk_run_append:
  "risk_run m (xs @ ys) =
    (let (m1, ds1) = risk_run m xs; (m2, ds2) = risk_run m1 ys in (m2, ds1 @ ds2))"
  by (induction xs arbitrary: m) (auto split: prod.splits)

lemma risk_run_on: "isOn (fst (risk_run m ds)) = foldl next_on (isOn m) (map risk_probability ds)"
proof (induction ds arbitrary: m)
  case (Cons d ds)
  show ?case
    using Cons[of "fst (RiskModel_evaluate m d)"] evaluate_state[of m d] by (simp add: risk_run_Cons del: risk_run.simps)
qed simp

lemma foldl_next_on:
  "foldl next_on b ps \<longleftrightarrow>
     b \<and> (\<forall>p \<in> set ps. 1 / 2 < p) \<or> (\<exists>xs p ys. ps = xs @ p # ys \<and> tauOn \<le> p \<and> (\<forall>q \<in> set ys. 1 / 2 < q))"
proof (induction ps rule: rev_induct)
  case (snoc p ps)
  show ?case
  proof (cases "1 / 2 < p")
    case False
    then have "\<not> next_on c p" for c
      using tauOn_gt_half by (auto simp: next_on_cases)
    moreover have "\<not> (\<exists>xs q ys. ps @ [p] = xs @ q # ys \<and> tauOn \<le> q \<and> (\<forall>r \<in> set ys. 1 / 2 < r))"
    proof
      assume "\<exists>xs q ys. ps @ [p] = xs @ q # ys \<and> tauOn \<le> q \<and> (\<forall>r \<in> set ys. 1 / 2 < r)"
      then obtain xs q ys where e: "ps @ [p] = xs @ q # ys" and q: "tauOn \<le> q" "\<forall>r \<in> set ys. 1 / 2 < r"
        by blast
      show False
        using e q False tauOn_gt_half by (cases ys rule: rev_cases) auto
    qed
    ultimately show ?thesis
      using False by simp
  next
    case True
    have "(\<exists>xs q ys. ps @ [p] = xs @ q # ys \<and> tauOn \<le> q \<and> (\<forall>r \<in> set ys. 1 / 2 < r)) \<longleftrightarrow>
        tauOn \<le> p \<or> (\<exists>xs q ys. ps = xs @ q # ys \<and> tauOn \<le> q \<and> (\<forall>r \<in> set ys. 1 / 2 < r))" (is "?l \<longleftrightarrow> ?r")
    proof
      assume ?l
      then obtain xs q ys where e: "ps @ [p] = xs @ q # ys" and q: "tauOn \<le> q" "\<forall>r \<in> set ys. 1 / 2 < r"
        by blast
      show ?r
        using e q by (cases ys rule: rev_cases) auto
    next
      assume ?r
      then show ?l
      proof
        assume "tauOn \<le> p"
        then show ?l by (intro exI[of _ ps] exI[of _ p] exI[of _ "[]"]) simp
      next
        assume "\<exists>xs q ys. ps = xs @ q # ys \<and> tauOn \<le> q \<and> (\<forall>r \<in> set ys. 1 / 2 < r)"
        then obtain xs q ys where "ps = xs @ q # ys" "tauOn \<le> q" "\<forall>r \<in> set ys. 1 / 2 < r"
          by blast
        with True show ?l by (intro exI[of _ xs] exI[of _ q] exI[of _ "ys @ [p]"]) auto
      qed
    qed
    with snoc.IH True show ?thesis
      by (auto simp: next_on_cases)
  qed
qed simp

section \<open>Properties\<close>

text \<open>
  C8. Hysteresis over a whole run: after any sequence of evaluations of a fresh model the
  enforcement flag is on exactly when some evaluation reached the upper threshold 0.7 and every
  evaluation since stayed strictly above 0.5.
\<close>

theorem hysteresis_of_runs:
  "isOn (fst (risk_run risk_init ds)) \<longleftrightarrow>
    (\<exists>xs d ys. ds = xs @ d # ys \<and> tauOn \<le> risk_probability d \<and> (\<forall>e \<in> set ys. 1 / 2 < risk_probability e))"
proof -
  have "isOn (fst (risk_run risk_init ds)) \<longleftrightarrow>
      (\<exists>xs p ys. map risk_probability ds = xs @ p # ys \<and> tauOn \<le> p \<and> (\<forall>q \<in> set ys. 1 / 2 < q))"
    unfolding risk_run_on foldl_next_on by (simp add: risk_init_def)
  also have "\<dots> \<longleftrightarrow>
      (\<exists>xs d ys. ds = xs @ d # ys \<and> tauOn \<le> risk_probability d \<and> (\<forall>e \<in> set ys. 1 / 2 < risk_probability e))"
    by (fastforce simp: map_eq_append_conv map_eq_Cons_conv)
  finally show ?thesis .
qed

theorem hysteresis_of_runs_witness:
  "isOn (fst (risk_run risk_init [\<lparr>hstScore = 20, burstScore = 0\<rparr>, \<lparr>hstScore = 30, burstScore = 1\<rparr>]))"
  unfolding hysteresis_of_runs
proof (intro exI conjI)
  let ?a = "\<lparr>hstScore = 20, burstScore = 0\<rparr> :: detection_result" and ?b = "\<lparr>hstScore = 30, burstScore = 1\<rparr> :: detection_result"
  show "[?a, ?b] = [] @ ?a # [?b]"
    by simp
  show "tauOn \<le> risk_probability ?a" "\<forall>e \<in> set [?b]. 1 / 2 < risk_probability e"
    using risk_probability_high[of ?a] risk_probability_high[of ?b] tauOn_gt_half by auto
qed

text \<open>
  Every decision is consistent: escalation, write restriction and level High are the same
  bit, which is the flag after the evaluation; the probability reported is the larger of the two
  sigmoids and lies between 0 and 1; and a decision other than High is Medium exactly above 0.4.
\<close>

lemma decisions_consistent:
  "case RiskModel_evaluate m d of (m', dec) \<Rightarrow>
     escalate dec = isOn m' \<and> restrictWrites dec = isOn m' \<and> (level dec = High) = isOn m' \<and>
     (level dec = Medium) = (\<not> isOn m' \<and> lit (4 / 10) < probability dec) \<and>
     0 \<le> probability dec \<and> probability dec \<le> 1 \<and>
     probability dec = max (sigmoid (fdiv (hstScore d) 10)) (sigmoid (fdiv (burstScore d) 10)) \<and>
     (isOn m' = isOn m \<or> tauOn \<le> probability dec \<or> probability dec \<le> tauOff)"
proof -
  obtain m' dec where e: "RiskModel_evaluate m d = (m', dec)"
    by fastforce
  have s: "isOn m' = next_on (isOn m) (risk_probability d)"
    using evaluate_state[where m = m and d = d] by (simp add: e)
  have dec: "dec = (let p = risk_probability d; on = next_on (isOn m) p
     in \<lparr>level = (if on then High else if lit (4 / 10) < p then Medium else Low),
         escalate = on, restrictWrites = on, probability = p\<rparr>)"
    using evaluate_decision[where m = m and d = d] by (simp add: e)
  have "0 \<le> risk_probability d \<and> risk_probability d \<le> 1"
    using sigmoid_range by (simp add: risk_probability_def le_max_iff_disj)
  then show ?thesis
    by (auto simp: e s dec Let_def next_on_def risk_probability_def)
qed

text \<open>
  C25. The model is monotone over whole runs: if every pair of scores of one run is at most that of
  another, and the first model was not already on without the second, then no decision of the
  first run is at a higher risk level than the corresponding decision of the second.
\<close>

theorem runs_monotone:
  assumes "list_all2 (\<lambda>d d'. hstScore d \<le> hstScore d' \<and> burstScore d \<le> burstScore d') ds ds'"
    and "isOn m \<longrightarrow> isOn m'"
  shows "list_all2 (\<lambda>x y. level x \<le> level y) (snd (risk_run m ds)) (snd (risk_run m' ds'))"
  using assms
proof (induction ds ds' arbitrary: m m' rule: list_all2_induct)
  case (Cons d ds d' ds')
  let ?m = "fst (RiskModel_evaluate m d)" and ?m' = "fst (RiskModel_evaluate m' d')"
  have p: "risk_probability d \<le> risk_probability d'"
    using Cons.hyps by (intro risk_probability_mono) auto
  have on: "isOn ?m \<longrightarrow> isOn ?m'"
    using next_on_mono[OF Cons.prems p] by (simp add: evaluate_state)
  have "level (snd (RiskModel_evaluate m d)) \<le> level (snd (RiskModel_evaluate m' d'))"
    using next_on_mono[OF Cons.prems p] p by (auto simp: evaluate_decision Let_def less_eq_risk_level_def)
  with Cons.IH[OF on] show ?case
    by (simp add: risk_run_Cons del: risk_run.simps)
qed simp

theorem runs_monotone_witness:
  "list_all2 (\<lambda>x y. level x \<le> level y) (snd (risk_run risk_init [\<lparr>hstScore = 1, burstScore = 0\<rparr>]))
     (snd (risk_run risk_init [\<lparr>hstScore = 20, burstScore = 3\<rparr>]))"
  by (rule runs_monotone) simp_all

text \<open>
  C26. What the normalised scale means: whatever the state, a score of 16 or more in either
  detector makes the decision High; both scores at most 10 make it not High, even when the
  flag was on; and both at most 5/2 make it Low.
\<close>

theorem score_scale:
  "(16 \<le> hstScore d \<or> 16 \<le> burstScore d \<longrightarrow> level (snd (RiskModel_evaluate m d)) = High) \<and>
   (hstScore d \<le> 10 \<and> burstScore d \<le> 10 \<longrightarrow> level (snd (RiskModel_evaluate m d)) \<noteq> High) \<and>
   (hstScore d \<le> 5 / 2 \<and> burstScore d \<le> 5 / 2 \<longrightarrow> level (snd (RiskModel_evaluate m d)) = Low)"
  using risk_probability_high[of d] risk_probability_off[of d] risk_probability_low[of d] threshold_bounds tauOn_gt_half
  by (auto simp: evaluate_decision Let_def next_on_def)

theorem score_scale_witness:
  "level (snd (RiskModel_evaluate risk_init \<lparr>hstScore = 50, burstScore = 0\<rparr>)) = High"
  using score_scale[of "\<lparr>hstScore = 50, burstScore = 0\<rparr>" risk_init] by simp

end
