(* ===== verification/Enforcement.thy ===== *)
theory Enforcement
  imports Risk_Model Sockets
begin

text \<open>
  The enforcement engine of \<^verbatim>\<open>enforcement/enforcer.cpp\<close>: it turns a decision into an action text,
  and on the first High decision sends the safety coil to the PLC on port 502 of the local host.

  The results of the three system calls \<^verbatim>\<open>socket\<close>, \<^verbatim>\<open>connect\<close> and \<^verbatim>\<open>write\<close> are arguments
  (\<^verbatim>\<open>net_outcome\<close>); the calls made, with the bytes written, are part of the result, in order.
\<close>

section \<open>The engine\<close>

record net_outcome =
  socket_ret :: int
  connect_ret :: int
  write_ret :: int

record enforcement_engine =
  locked :: bool

definition safety_pdu :: "u16 \<Rightarrow> bytes" where
  "safety_pdu value = [0x00, 0x01, 0x00, 0x00, 0x00, 0x06, 0x01, 0x05, 0xFF, 0xFF, hi8 value, lo8 value]"

definition sendSafetyCoil :: "net_outcome \<Rightarrow> u16 \<Rightarrow> bool \<times> event list" where
  "sendSafetyCoil io value =
    (let fd = socket_ret io
     in if fd < 0 then (False, [Socket fd])
        else if connect_ret io < 0
             then (False, [Socket fd, Connect fd ''127.0.0.1'' 502 (connect_ret io), Close fd])
        else let pdu = safety_pdu value; sent = write_ret io
             in (sent = int (length pdu),
                 [Socket fd, Connect fd ''127.0.0.1'' 502 (connect_ret io), Send fd pdu, Close fd]))"

definition engaged_message :: string where
  "engaged_message = ''ENFORCEMENT: Safety coil 0xFFFF engaged '' @ em_dash @
     '' write-lock signal sent to PLC (Modbus FC5)''"

definition EnforcementEngine_apply ::
  "net_outcome \<Rightarrow> risk_decision \<Rightarrow> enforcement_engine \<Rightarrow> string \<times> enforcement_engine \<times> event list \<times> log_call list" where
  "EnforcementEngine_apply io decision e =
    (case level decision of
       Low \<Rightarrow> (''Monitoring only'', e, [], [])
     | Medium \<Rightarrow> (''Alert operators'', e, [], [])
     | High \<Rightarrow>
         if restrictWrites decision then
           if \<not> locked e then
             (case sendSafetyCoil io 0xFF00 of
                (True, calls) \<Rightarrow> (''Write-lock ENGAGED (coil 0xFFFF)'', e\<lparr>locked := True\<rparr>, calls, [Error engaged_message])
              | (False, calls) \<Rightarrow> (''Write-lock FAILED (could not reach PLC)'', e, calls, []))
           else (''Write-lock active (already engaged)'', e, [], [])
         else (''Escalation without restriction'', e, [], []))"

section \<open>Runs\<close>

definition engine_new :: enforcement_engine where
  "engine_new = \<lparr>locked = False\<rparr>"

definition apply_engine :: "net_outcome \<times> risk_decision \<Rightarrow> enforcement_engine \<Rightarrow> enforcement_engine" where
  "apply_engine x e = fst (snd (EnforcementEngine_apply (fst x) (snd x) e))"

definition apply_action :: "net_outcome \<times> risk_decision \<Rightarrow> enforcement_engine \<Rightarrow> string" where
  "apply_action x e = fst (EnforcementEngine_apply (fst x) (snd x) e)"

definition apply_calls :: "net_outcome \<times> risk_decision \<Rightarrow> enforcement_engine \<Rightarrow> event list" where
  "apply_calls x e = fst (snd (snd (EnforcementEngine_apply (fst x) (snd x) e)))"

lemmas apply_parts = apply_engine_def apply_action_def apply_calls_def

text \<open>The inputs for which a fresh engine succeeds: a restricting High decision and a complete write.\<close>

definition wants_lock :: "risk_decision \<Rightarrow> bool" where
  "wants_lock d \<longleftrightarrow> level d = High \<and> restrictWrites d"

definition net_ok :: "net_outcome \<Rightarrow> bool" where
  "net_ok io \<longleftrightarrow> 0 \<le> socket_ret io \<and> 0 \<le> connect_ret io \<and> write_ret io = 12"

definition engages :: "net_outcome \<times> risk_decision \<Rightarrow> bool" where
  "engages x \<longleftrightarrow> wants_lock (snd x) \<and> net_ok (fst x)"

lemma send_ok: "fst (sendSafetyCoil io v) \<longleftrightarrow> net_ok io"
  by (auto simp: sendSafetyCoil_def net_ok_def safety_pdu_def Let_def)

lemma apply_engine_locked: "locked (apply_engine x e) \<longleftrightarrow> locked e \<or> engages x"
  using send_ok[of "fst x" "0xFF00"]
  by (auto simp: apply_engine_def EnforcementEngine_apply_def engages_def wants_lock_def
      split: risk_level.split prod.split bool.split)

lemma apply_when_locked:
  assumes "locked e" shows "apply_calls x e = []" "apply_engine x e = e"
  using assms by (auto simp: apply_parts EnforcementEngine_apply_def split: risk_level.split)

lemma apply_action_engaged:
  "apply_action x e = ''Write-lock ENGAGED (coil 0xFFFF)'' \<longleftrightarrow> \<not> locked e \<and> engages x"
  using send_ok[of "fst x" "0xFF00"]
  by (auto simp: apply_action_def EnforcementEngine_apply_def engages_def wants_lock_def
      split: risk_level.split prod.split bool.split)

interpretation engine: latch apply_engine locked
  by unfold_locales (simp add: apply_engine_locked)

fun engine_actions :: "(net_outcome \<times> risk_decision) list \<Rightarrow> enforcement_engine \<Rightarrow> string list" where
  "engine_actions [] e = []"
| "engine_actions (x # xs) e = apply_action x e # engine_actions xs (apply_engine x e)"

lemma apply_calls_neutral: "fds_after (apply_calls x e) fds = fds"
  by (auto simp: apply_calls_def EnforcementEngine_apply_def sendSafetyCoil_def Let_def
      split: risk_level.split prod.split bool.split)

interpretation engine_fds: fd_neutral apply_engine apply_calls
  by unfold_locales (rule apply_calls_neutral)

definition engine_calls :: "(net_outcome \<times> risk_decision) list \<Rightarrow> enforcement_engine \<Rightarrow> event list" where
  "engine_calls = engine_fds.trace"

lemma engine_calls_simps [simp]:
  "engine_calls [] e = []" "engine_calls (x # xs) e = apply_calls x e @ engine_calls xs (apply_engine x e)"
  by (simp_all add: engine_calls_def)

lemma engine_calls_append: "engine_calls (xs @ ys) e = engine_calls xs e @ engine_calls ys (fold apply_engine xs e)"
  unfolding engine_calls_def by (rule engine_fds.trace_append)

lemma engine_calls_locked: "locked e \<Longrightarrow> engine_calls xs e = []"
  by (induction xs arbitrary: e) (simp_all add: apply_when_locked)

lemma fold_engine_locked: "locked (fold apply_engine xs e) \<longleftrightarrow> locked e \<or> (\<exists>x \<in> set xs. engages x)"
  by (induction xs arbitrary: e) (auto simp: apply_engine_locked)

lemma engaged_actions_locked:
  "locked e \<Longrightarrow> filter (\<lambda>a. a = ''Write-lock ENGAGED (coil 0xFFFF)'') (engine_actions xs e) = []"
  by (induction xs arbitrary: e) (simp_all add: apply_when_locked apply_action_engaged)

section \<open>Properties\<close>

text \<open>
  C11. The write lock engages at most once per process. Over any sequence of decisions and network
  outcomes, a fresh engine ends up locked exactly when some restricting High decision could reach
  the PLC; then it reports the engagement exactly once, and otherwise never.
\<close>

theorem lock_engages_once:
  "let xs' = engine_actions xs engine_new; n = length (filter (\<lambda>a. a = ''Write-lock ENGAGED (coil 0xFFFF)'') xs')
   in locked (fold apply_engine xs engine_new) = (\<exists>x \<in> set xs. engages x) \<and>
      n = (if \<exists>x \<in> set xs. engages x then 1 else 0)"
proof -
  have "length (filter (\<lambda>a. a = ''Write-lock ENGAGED (coil 0xFFFF)'') (engine_actions xs e)) =
      (if \<exists>x \<in> set xs. engages x then 1 else 0)" if "\<not> locked e" for e
    using that
  proof (induction xs arbitrary: e)
    case (Cons x xs)
    show ?case
    proof (cases "engages x")
      case True
      then have "locked (apply_engine x e)"
        by (simp add: apply_engine_locked)
      then show ?thesis
        using True Cons.prems engaged_actions_locked by (simp add: apply_action_engaged)
    next
      case False
      then show ?thesis
        using Cons by (simp add: apply_action_engaged apply_engine_locked)
    qed
  qed simp
  then show ?thesis
    by (simp add: fold_engine_locked engine_new_def Let_def)
qed

text \<open>
  After the first success the engine is silent: whatever decisions and outcomes follow, it
  makes no system call any more, so a PLC that releases the coil is never locked again.
\<close>

lemma silent_after_engagement:
  assumes "engages x"
  shows "engine_calls (xs @ x # ys) e = engine_calls (xs @ [x]) e"
proof -
  have "locked (apply_engine x (fold apply_engine xs e))"
    using assms by (simp add: apply_engine_locked)
  then show ?thesis
    using engine_calls_locked by (simp add: engine_calls_append)
qed

definition high_decision :: risk_decision where
  "high_decision = \<lparr>level = High, escalate = True, restrictWrites = True, probability = 1\<rparr>"

definition net_good :: net_outcome where
  "net_good = \<lparr>socket_ret = 3, connect_ret = 0, write_ret = 12\<rparr>"

lemma silent_after_engagement_witness:
  "engine_calls [(net_good, high_decision), (net_good, high_decision)] engine_new =
   [Socket 3, Connect 3 ''127.0.0.1'' 502 0, Send 3 (safety_pdu 0xFF00), Close 3]"
proof -
  have "engages (net_good, high_decision)"
    by (simp add: engages_def wants_lock_def net_ok_def net_good_def high_decision_def)
  from silent_after_engagement[OF this, of "[]" "[(net_good, high_decision)]" engine_new] show ?thesis
    by (simp add: apply_calls_def EnforcementEngine_apply_def sendSafetyCoil_def safety_pdu_def Let_def
        net_good_def high_decision_def engine_new_def)
qed

text \<open>
  No descriptor leaks: over any run of decisions and network outcomes, from any state, the
  engine leaves exactly the descriptors open that were open before, on every failure path too.
\<close>

lemma engine_closes_sockets: "fds_after (engine_calls xs e) fds = fds"
  unfolding engine_calls_def by (rule engine_fds.trace_neutral)

text \<open>
  What the risk model's decisions lead to: never the branch "Escalation without restriction",
  and a High decision of the model always finds the engine locked afterwards or failed to reach the PLC.
\<close>

lemma action_of_model_decision:
  "let d = snd (RiskModel_evaluate m det) in
   apply_action (io, d) e \<noteq> ''Escalation without restriction'' \<and>
   (level d \<noteq> High \<or> locked (apply_engine (io, d) e) \<or>
    apply_action (io, d) e = ''Write-lock FAILED (could not reach PLC)'')"
  using send_ok[of io "0xFF00"]
  by (auto simp: evaluate_decision Let_def apply_parts EnforcementEngine_apply_def
      split: risk_level.split prod.split bool.split)

end
