(* ===== verification/Viz.thy ===== *)
theory Viz
  imports Risk_Model Format
begin

text \<open>
  The console helpers of \<^verbatim>\<open>utils/viz_utils.cpp\<close>, a label and a bar for a probability, and the alert
  dispatcher of \<^verbatim>\<open>alert/alert_system.cpp\<close>, a list of callbacks run in order of registration.
\<close>

section \<open>Labels and bars\<close>

definition getFuzzyLabel :: "real \<Rightarrow> string" where
  "getFuzzyLabel p =
    (if p < lit (2 / 10) then ''SAFE'' else if p < lit (5 / 10) then ''SUSPICIOUS''
     else if p < lit (8 / 10) then ''THREAT'' else ''CRITICAL'')"

text \<open>\<^verbatim>\<open>static_cast<int>\<close> truncates towards zero.\<close>

definition cast_int :: "real \<Rightarrow> int" where
  "cast_int x = (if x < 0 then \<lceil>x\<rceil> else \<lfloor>x\<rfloor>)"

definition getProgressBar :: "real \<Rightarrow> int \<Rightarrow> string" where
  "getProgressBar p width =
    (let fill = cast_int (fmul p (rnd64 (of_int width)));
         fill = (if width < fill then width else fill);
         fill = (if fill < 0 then 0 else fill)
     in ''['' @ replicate (nat fill) (CHR ''#'') @ replicate (nat (width - fill)) (CHR ''.'') @ '']'')"

section \<open>The dispatcher\<close>

text \<open>A handler acts on the world \<^verbatim>\<open>'w\<close>.\<close>

record 'w alert_dispatcher =
  handlers :: "(alert_context \<Rightarrow> 'w \<Rightarrow> 'w) list"

definition registerHandler :: "(alert_context \<Rightarrow> 'w \<Rightarrow> 'w) \<Rightarrow> 'w alert_dispatcher \<Rightarrow> 'w alert_dispatcher" where
  "registerHandler handler d = d\<lparr>handlers := handlers d @ [handler]\<rparr>"

definition dispatch :: "alert_context \<Rightarrow> 'w alert_dispatcher \<Rightarrow> 'w \<Rightarrow> 'w" where
  "dispatch ctx d w = fold (\<lambda>handler w. handler ctx w) (handlers d) w"

lemma handlers_registered: "handlers (fold registerHandler hs d) = handlers d @ hs"
  by (induction hs arbitrary: d) (simp_all add: registerHandler_def)

lemma dispatch_registered:
  "dispatch ctx (fold registerHandler hs \<lparr>handlers = []\<rparr>) w = fold (\<lambda>h. h ctx) hs w"
  by (simp add: dispatch_def handlers_registered)

section \<open>Lemmas on the bar\<close>

lemma cast_int_mono: "x \<le> y \<Longrightarrow> cast_int x \<le> cast_int y"
  by (auto simp: cast_int_def floor_mono ceiling_mono intro: order_trans[of _ 0])

lemma bar_fill:
  assumes "0 \<le> p" and "p \<le> 1" and "0 \<le> width" and "width < 2 ^ 53"
  shows "0 \<le> cast_int (fmul p (rnd64 (of_int width)))" "cast_int (fmul p (rnd64 (of_int width))) \<le> width"
proof -
  have w: "rnd64 (of_int width) = of_int width"
    using assms by (intro fl.of_int_exact) simp
  have "0 \<le> fmul p (of_int width)"
    using assms by (intro fl.nonneg) simp
  moreover have "fmul p (of_int width) \<le> of_int width"
    using assms w by (intro fl.le_exact) (simp_all add: mult_left_le_one_le)
  ultimately show "0 \<le> cast_int (fmul p (rnd64 (of_int width)))" "cast_int (fmul p (rnd64 (of_int width))) \<le> width"
    unfolding w by (auto simp: cast_int_def le_floor_iff floor_le_iff)
qed

section \<open>Properties\<close>

text \<open>
  The bar of a probability is always two brackets around exactly \<^verbatim>\<open>width\<close> cells, with
  the whole bar filled for probability 1; and a larger probability never fills fewer cells.
\<close>

lemma progress_bar_shape:
  assumes "0 \<le> p" and "p \<le> q" and "q \<le> 1" and "0 \<le> width" and "width < 2 ^ 53"
  shows "length (getProgressBar p width) = nat width + 2 \<and>
    count_list (getProgressBar p width) (CHR ''#'') \<le> count_list (getProgressBar q width) (CHR ''#'') \<and>
    count_list (getProgressBar 1 width) (CHR ''#'') = nat width"
proof -
  have cnt: "count_list (replicate n x) y = (if x = y then n else 0)" for n x and y :: char
    by (induction n) auto
  have w: "rnd64 (of_int width) = of_int width"
    using assms by (intro fl.of_int_exact) simp
  have cast_one: "cast_int (of_int width) = width"
    using assms by (simp add: cast_int_def)
  have "fmul p (of_int width) \<le> fmul q (of_int width)"
    using assms by (intro fl.mono mult_right_mono) auto
  then have "cast_int (fmul p (of_int width)) \<le> cast_int (fmul q (of_int width))"
    by (rule cast_int_mono)
  then show ?thesis
    using bar_fill[of p width] bar_fill[of q width] assms
    by (auto simp: getProgressBar_def Let_def w cnt cast_one nat_mono nat_add_distrib[symmetric])
qed

lemma progress_bar_shape_witness:
  "length (getProgressBar (1 / 2) 20) = 22 \<and> count_list (getProgressBar 1 20) (CHR ''#'') = 20"
  using progress_bar_shape[of "1 / 2" 1 20] by simp

text \<open>
  Label against level. Whatever its state, the risk model decides High for a probability
  labelled CRITICAL, Low for one labelled SAFE, not High for one labelled SUSPICIOUS, and
  Medium or High for one labelled THREAT.
\<close>

lemma label_agrees_with_level:
  "let d = snd (RiskModel_evaluate m det); l = getFuzzyLabel (probability d) in
   (l = ''CRITICAL'' \<longrightarrow> level d = High) \<and> (l = ''SAFE'' \<longrightarrow> level d = Low) \<and>
   (l = ''SUSPICIOUS'' \<longrightarrow> level d \<noteq> High) \<and> (l = ''THREAT'' \<longrightarrow> level d \<noteq> Low)"
proof -
  have t: "lit (2 / 10) \<le> 1 / 4" "lit (5 / 10) = 1 / 2" "3 / 4 \<le> lit (8 / 10)" "tauOn \<le> 3 / 4" "lit (4 / 10) \<le> 7 / 16"
    subgoal by (rule fl.le_exact) simp_all
    subgoal by simp
    subgoal by (rule fl.ge_exact) simp_all
    subgoal using threshold_bounds by linarith
    subgoal by (rule fl.le_exact) simp_all
    done
  have "lit (2 / 10) \<le> lit (4 / 10)"
    by (intro fl.mono) simp
  with t show ?thesis
    using threshold_bounds tauOn_gt_half
    by (auto simp: evaluate_decision Let_def getFuzzyLabel_def next_on_cases)
qed

lemma label_agrees_with_level_witness:
  "getFuzzyLabel (probability (snd (RiskModel_evaluate risk_init \<lparr>hstScore = 10, burstScore = 10\<rparr>))) = ''THREAT'' \<and>
   level (snd (RiskModel_evaluate risk_init \<lparr>hstScore = 10, burstScore = 10\<rparr>)) = Medium"
proof -
  have p: "probability (snd (RiskModel_evaluate risk_init \<lparr>hstScore = 10, burstScore = 10\<rparr>)) = 1 / 2"
    by (simp add: evaluate_decision Let_def risk_probability_def sigmoid_one)
  have "getFuzzyLabel (1 / 2) = ''THREAT''"
    using fl.le_exact[of "1 / 4" "2 / 10"] fl.ge_exact[of "3 / 4" "8 / 10"] by (simp add: getFuzzyLabel_def)
  moreover from label_agrees_with_level[of risk_init "\<lparr>hstScore = 10, burstScore = 10\<rparr>"] this
  have "level (snd (RiskModel_evaluate risk_init \<lparr>hstScore = 10, burstScore = 10\<rparr>)) \<noteq> Low"
    unfolding Let_def p by simp
  moreover have "level (snd (RiskModel_evaluate risk_init \<lparr>hstScore = 10, burstScore = 10\<rparr>)) \<noteq> High"
    using tauOn_gt_half
    by (simp add: evaluate_decision Let_def risk_init_def next_on_def risk_probability_def sigmoid_one)
  ultimately show ?thesis
    unfolding p by (cases "level (snd (RiskModel_evaluate risk_init \<lparr>hstScore = 10, burstScore = 10\<rparr>))") auto
qed

end
