(* ===== verification/Pipeline.thy ===== *)
theory Pipeline
  imports Parsers Enforcement Viz
begin

text \<open>
  The main program, \<^verbatim>\<open>main.cpp\<close>: what it does with one captured packet, and the two loops that feed it
  packets, the \<^verbatim>\<open>poll\<close> loop with its bounded drain and the fallback loop.

  The objects that live across packets are the fields of \<^verbatim>\<open>prism\<close>. One packet's effects are a
  \<^verbatim>\<open>packet_result\<close>: whether the drain counter moves, the window analysed and the decision if there was one,
  the system calls of the enforcement engine and the calls of the logger, in order. What the program
  cannot know is an argument: the iteration order of the hash maps and the answers of the network.
\<close>

section \<open>One packet\<close>

record prism =
  windowManager :: window_manager
  current_window :: window
  riskModel :: risk_model
  enforcer :: enforcement_engine

record env =
  hash :: hash_order
  net :: net_outcome

record packet_result =
  counted :: bool
  analysed :: "(window \<times> risk_decision) option"
  calls :: "event list"
  log_lines :: "log_call list"

definition prism_new :: prism where
  "prism_new = \<lparr>windowManager = WindowManager_new 5000 1000,
     current_window = \<lparr>startTime = 0, endTime = 0, records = []\<rparr>,
     riskModel = risk_init, enforcer = engine_new\<rparr>"

definition fcName :: "string \<Rightarrow> u8 \<Rightarrow> string" where
  "fcName pr fc =
    (if pr = ''Modbus'' then
       (if fc = 1 then ''Read Coils'' else if fc = 2 then ''Read Discrete Inputs''
        else if fc = 3 then ''Read Holding Registers'' else if fc = 4 then ''Read Input Registers''
        else if fc = 5 then ''Write Single Coil'' else if fc = 6 then ''Write Single Register''
        else if fc = 8 then ''Diagnostics'' else if fc = 15 then ''Write Multiple Coils''
        else if fc = 16 then ''Write Multiple Registers'' else ''Unknown'')
     else if pr = ''DNP3'' then
       (if fc = 1 then ''Read'' else if fc = 2 then ''Write'' else if fc = 3 then ''Select''
        else if fc = 4 then ''Operate'' else if fc = 130 then ''Unsolicited Response''
        else ''FC '' @ nat_str (unat fc))
     else if pr = ''IEC104'' then
       (if fc = 1 then ''Single Point Info'' else if fc = 13 then ''Measured Float''
        else if fc = 30 then ''Single Point w/ Timestamp'' else if fc = 45 then ''Single Command''
        else if fc = 46 then ''Double Command'' else if fc = 100 then ''Interrogation''
        else ''Type '' @ nat_str (unat fc))
     else ''Unknown'')"

definition alert_line :: "risk_decision \<Rightarrow> string \<Rightarrow> log_call" where
  "alert_line decision action =
    (let label = getFuzzyLabel (probability decision);
         bar = getProgressBar (probability decision) 20;
         pct = fixed_str 2 (fmul (probability decision) 100) @ ''%'';
         msg = ''ALERT: '' @ label @ '' '' @ bar @ '' Risk: '' @ pct @ '' '' @ em_dash @ '' '' @ action
     in if level decision = High then Error msg
        else if level decision = Medium then Warn msg
        else Info msg)"

definition identity_line :: "parsed_record \<Rightarrow> log_call" where
  "identity_line rec =
    (let dir = (if isRequest rec then ''Request'' else ''Response'');
         fcLabel = fcName (protocol rec) (functionCode rec)
     in Info ('' '' @ protocol rec @ '' '' @ dir @ '' | FC '' @ nat_str (unat (functionCode rec)) @
              '' ('' @ fcLabel @ '')'' @ '' | Address: '' @ nat_str (unat (address rec))))"

definition metrics_line :: "feature_vector \<Rightarrow> log_call" where
  "metrics_line fv =
    (let v = feature_values fv
     in Info ('' Packets: '' @ fixed_str 0 (v ! 0) @ '' | Write%: '' @ fixed_str 0 (fmul (v ! 1) 100) @
              '' | Func Spread: '' @ fixed_str 2 (v ! 2) @ '' | Entropy: '' @ fixed_str 2 (v ! 3) @
              '' | Proto Mix: '' @ fixed_str 2 (v ! 4) @ '' | Density: '' @ fixed_str 2 (v ! 7)))"

text \<open>From the features of a window that is not empty to the log lines.\<close>

definition analyse_window :: "env \<Rightarrow> parsed_record \<Rightarrow> window \<Rightarrow> prism \<Rightarrow> prism \<times> packet_result" where
  "analyse_window en rec win st =
    (let fv = FeatureExtractor_compute (hash en) win;
         hst_score = HalfSpaceTrees_score fv;
         burst_score = BurstDetector_score fv;
         det = RiskModel_fuse hst_score burst_score
     in case RiskModel_evaluate (riskModel st) det of (rm, decision) \<Rightarrow>
        case EnforcementEngine_apply (net en) decision (enforcer st) of (action, eng, evs, elogs) \<Rightarrow>
          (st\<lparr>riskModel := rm, enforcer := eng\<rparr>,
           \<lparr>counted = True, analysed = Some (win, decision), calls = evs,
            log_lines = elogs @ [alert_line decision action, identity_line rec, metrics_line fv]\<rparr>))"

definition parse_by :: "proto \<Rightarrow> raw_packet \<Rightarrow> parsed_record" where
  "parse_by pr packet =
    (case pr of MODBUS \<Rightarrow> ModbusParser_parse packet
     | DNP3 \<Rightarrow> DNP3Parser_parse packet
     | IEC104 \<Rightarrow> IEC104Parser_parse packet
     | UNKNOWN \<Rightarrow> ParsedRecord_init)"

definition no_result :: "bool \<Rightarrow> packet_result" where
  "no_result c = \<lparr>counted = c, analysed = None, calls = [], log_lines = []\<rparr>"

text \<open>The body of the loops. \<^verbatim>\<open>counted\<close> records whether the path taken executes \<^verbatim>\<open>++drained\<close>.\<close>

definition process_packet :: "env \<Rightarrow> raw_packet \<Rightarrow> prism \<Rightarrow> prism \<times> packet_result" where
  "process_packet en packet st =
    (let pr = classify_protocol packet in
     if pr = UNKNOWN then (st, no_result True)
     else let rec = parse_by pr packet in
       if record_discarded rec then (st, no_result False)
       else case WindowManager_addRecord (windowManager st) rec (current_window st) of (wm, win, ready) \<Rightarrow>
         let st = st\<lparr>windowManager := wm, current_window := win\<rparr> in
         if \<not> ready then (st, no_result True)
         else if records win = [] then (st, no_result False)
         else analyse_window en rec win st)"

fun prism_run :: "(env \<times> raw_packet) list \<Rightarrow> prism \<Rightarrow> prism \<times> packet_result list" where
  "prism_run [] st = (st, [])"
| "prism_run (x # xs) st =
     (let (st1, r) = process_packet (fst x) (snd x) st; (st2, rs) = prism_run xs st1 in (st2, r # rs))"

section \<open>The loops\<close>

text \<open>
  One test of the condition of a loop: the value of \<^verbatim>\<open>running\<close> read, what \<^verbatim>\<open>nextPacket\<close> returns if
  it is called, and the environment of the packet.
\<close>

record loop_input =
  still_running :: bool
  next_packet :: "raw_packet option"
  packet_env :: env

definition max_drain :: nat where "max_drain = 1024"

fun drain_loop :: "nat \<Rightarrow> loop_input list \<Rightarrow> prism \<Rightarrow> prism \<times> packet_result list" where
  "drain_loop drained [] st = (st, [])"
| "drain_loop drained (i # is) st =
     (if still_running i \<and> drained < max_drain then
        (case next_packet i of
           None \<Rightarrow> (st, [])
         | Some packet \<Rightarrow>
             let (st1, r) = process_packet (packet_env i) packet st;
                 (st2, rs) = drain_loop (if counted r then drained + 1 else drained) is st1
             in (st2, r # rs))
      else (st, []))"

text \<open>One iteration of the outer loop: the result of \<^verbatim>\<open>poll\<close>, \<^verbatim>\<open>errno\<close>, and the returned events.\<close>

record poll_input =
  poll_running :: bool
  poll_rc :: int
  poll_eintr :: bool
  pollin :: bool
  arrivals :: "loop_input list"

text \<open>
  The loops of \<^verbatim>\<open>main\<close> also say whether they have been left; if not, the inputs are used up and the
  program is still at the test of the loop. A drain whose inputs are used up has found no further packet.
\<close>

fun poll_loop :: "poll_input list \<Rightarrow> prism \<Rightarrow> prism \<times> packet_result list \<times> bool" where
  "poll_loop [] st = (st, [], False)"
| "poll_loop (p # ps) st =
     (if poll_running p then
        if poll_rc p < 0 then (if poll_eintr p then poll_loop ps st else (st, [], True))
        else if poll_rc p = 0 then poll_loop ps st
        else if pollin p then
          let (st1, rs) = drain_loop 0 (arrivals p) st; (st2, rs', left) = poll_loop ps st1 in (st2, rs @ rs', left)
        else poll_loop ps st
      else (st, [], True))"

fun fallback_loop :: "loop_input list \<Rightarrow> prism \<Rightarrow> prism \<times> packet_result list \<times> bool" where
  "fallback_loop [] st = (st, [], False)"
| "fallback_loop (i # is) st =
     (if still_running i then
        (case next_packet i of
           None \<Rightarrow> fallback_loop is st
         | Some packet \<Rightarrow>
             let (st1, r) = process_packet (packet_env i) packet st; (st2, rs, left) = fallback_loop is st1
             in (st2, r # rs, left))
      else (st, [], True))"

section \<open>The program\<close>

text \<open>
  \<^verbatim>\<open>main\<close> from start to end. Its inputs are the arguments, the result of \<^verbatim>\<open>pthread_sigmask\<close>, the result of opening the
  device (an error text or nothing), the selectable descriptor, and what the loop chosen receives. It prints a usage line or an
  error, dies of the exception of the capture's constructor, is still running when the inputs are used up, or has left its loop
  and returns 0. The log is that of the main thread; the one line of the signal watcher is \<^verbatim>\<open>watcher_line\<close>, from
  the result of \<^verbatim>\<open>sigwait\<close> and the signal.
\<close>

datatype main_result =
    Usage_error
  | Sigmask_error
  | Uncaught string "log_call list"
  | Running prism "log_call list"
  | Finished prism "log_call list"

fun exit_code :: "main_result \<Rightarrow> int option" where
  "exit_code Usage_error = Some 1"
| "exit_code Sigmask_error = Some 1"
| "exit_code (Uncaught msg ls) = None"
| "exit_code (Running st ls) = None"
| "exit_code (Finished st ls) = Some 0"

definition main_end :: "log_call list \<Rightarrow> prism \<times> packet_result list \<times> bool \<Rightarrow> main_result" where
  "main_end start_lines result =
    (case result of (st, rs, left) \<Rightarrow>
      let ls = start_lines @ concat (map log_lines rs)
      in if left then Finished st (ls @ [Info ''PRISM shutting down.'']) else Running st ls)"

definition prism_main ::
  "string list \<Rightarrow> int \<Rightarrow> string option \<Rightarrow> int \<Rightarrow> poll_input list \<Rightarrow> loop_input list \<Rightarrow> main_result" where
  "prism_main argv sigmask_r open_error pcapFd polls is =
    (if length argv < 2 then Usage_error
     else if sigmask_r \<noteq> 0 then Sigmask_error
     else let iface = argv ! 1; started = Info (''PRISM starting on interface '' @ iface) in
       case open_error of
         Some errbuf \<Rightarrow> Uncaught (''pcap_open_live failed: '' @ errbuf) [started]
       | None \<Rightarrow>
           if 0 \<le> pcapFd then main_end [started] (poll_loop polls prism_new)
           else main_end [started, Warn ''pcap_get_selectable_fd returned -1; using timeout fallback.'']
                  (fallback_loop is prism_new))"

definition watcher_line :: "int \<Rightarrow> int \<Rightarrow> log_call" where
  "watcher_line rc sig =
    (if rc = 0 then Info (''Signal received ('' @ int_str sig @ ''), shutting down.'') else Warn ''sigwait failed'')"

end
