(* ===== verification/Detection.thy ===== *)
theory Detection
  imports Pipeline
begin

text \<open>
  What the pipeline decides about traffic, from packets to the write lock. The lemmas follow one packet
  through parser, window, features, scores and decision; the properties speak of whole runs of the
  program from its initial state.
\<close>

section \<open>One packet, in terms of the record it carries\<close>

definition kept_record :: "raw_packet \<Rightarrow> parsed_record option" where
  "kept_record packet =
    (if classify_protocol packet = UNKNOWN then None
     else let rec = parse_by (classify_protocol packet) packet
          in if record_discarded rec then None else Some rec)"

definition packet_state :: "env \<Rightarrow> raw_packet \<Rightarrow> prism \<Rightarrow> prism" where
  "packet_state en p st = fst (process_packet en p st)"

definition packet_out :: "env \<Rightarrow> raw_packet \<Rightarrow> prism \<Rightarrow> packet_result" where
  "packet_out en p st = snd (process_packet en p st)"

definition scores :: "hash_order \<Rightarrow> window \<Rightarrow> detection_result" where
  "scores ord w = (let fv = FeatureExtractor_compute ord w
     in RiskModel_fuse (HalfSpaceTrees_score fv) (BurstDetector_score fv))"

lemma prism_run_Cons:
  "prism_run (x # xs) st =
    (fst (prism_run xs (packet_state (fst x) (snd x) st)),
     packet_out (fst x) (snd x) st # snd (prism_run xs (packet_state (fst x) (snd x) st)))"
  by (simp add: packet_state_def packet_out_def case_prod_unfold Let_def)

declare prism_run.simps(2) [simp del]

lemma prism_run_append:
  "fst (prism_run (xs @ ys) st) = fst (prism_run ys (fst (prism_run xs st)))"
  "snd (prism_run (xs @ ys) st) = snd (prism_run xs st) @ snd (prism_run ys (fst (prism_run xs st)))"
  by (induction xs arbitrary: st) (simp_all add: prism_run_Cons)

lemma packet_dropped:
  "kept_record p = None \<Longrightarrow> packet_state en p st = st \<and> calls (packet_out en p st) = [] \<and> analysed (packet_out en p st) = None"
  by (auto simp: packet_state_def packet_out_def process_packet_def kept_record_def no_result_def Let_def split: if_splits)

text \<open>The window step of a kept record.\<close>

definition add_to :: "prism \<Rightarrow> parsed_record \<Rightarrow> window_manager \<times> window \<times> bool" where
  "add_to st rec = WindowManager_addRecord (windowManager st) rec (current_window st)"

lemma packet_kept:
  assumes "kept_record p = Some rec" and "add_to st rec = (wm, win, b)"
  shows "process_packet en p st =
    (let st' = st\<lparr>windowManager := wm, current_window := win\<rparr>
     in if \<not> b then (st', no_result True)
        else if records win = [] then (st', no_result False)
        else analyse_window en rec win st')"
  using assms by (auto simp: process_packet_def kept_record_def add_to_def Let_def split: if_splits)

lemma analyse_parts:
  "riskModel (fst (analyse_window en rec win st)) = fst (RiskModel_evaluate (riskModel st) (scores (hash en) win))"
  "analysed (snd (analyse_window en rec win st)) =
     Some (win, snd (RiskModel_evaluate (riskModel st) (scores (hash en) win)))"
  "enforcer (fst (analyse_window en rec win st)) =
     apply_engine (net en, snd (RiskModel_evaluate (riskModel st) (scores (hash en) win))) (enforcer st)"
  "calls (snd (analyse_window en rec win st)) =
     apply_calls (net en, snd (RiskModel_evaluate (riskModel st) (scores (hash en) win))) (enforcer st)"
  "windowManager (fst (analyse_window en rec win st)) = windowManager st"
  "current_window (fst (analyse_window en rec win st)) = current_window st"
  by (simp_all add: analyse_window_def scores_def apply_parts Let_def split: prod.split)

text \<open>What an analysis result says about the packet and the state before it.\<close>

lemma packet_analysed:
  assumes "analysed (packet_out en p st) = Some (w, d)"
  obtains rec wm where "kept_record p = Some rec" "add_to st rec = (wm, w, True)" "records w \<noteq> []"
    "d = snd (RiskModel_evaluate (riskModel st) (scores (hash en) w))"
    "riskModel (packet_state en p st) = fst (RiskModel_evaluate (riskModel st) (scores (hash en) w))"
    "enforcer (packet_state en p st) = apply_engine (net en, d) (enforcer st)"
    "calls (packet_out en p st) = apply_calls (net en, d) (enforcer st)"
proof -
  obtain rec where r: "kept_record p = Some rec"
    using assms packet_dropped[of p en st] by (cases "kept_record p") auto
  obtain wm win b where a: "add_to st rec = (wm, win, b)"
    by (cases "add_to st rec")
  note pk = packet_kept[OF r a, of en]
  have b: "b" "records win \<noteq> []"
    using assms unfolding packet_out_def pk by (auto simp: no_result_def Let_def split: if_splits)
  let ?st = "st\<lparr>windowManager := wm, current_window := win\<rparr>"
  have "process_packet en p st = analyse_window en rec win ?st"
    using b by (simp add: pk)
  then have e: "packet_state en p st = fst (analyse_window en rec win ?st)"
    "packet_out en p st = snd (analyse_window en rec win ?st)"
    by (simp_all add: packet_state_def packet_out_def)
  have w: "win = w" "d = snd (RiskModel_evaluate (riskModel st) (scores (hash en) w))"
    using assms by (auto simp: e analyse_parts)
  show thesis
    using that[of rec wm] r a b w by (simp add: e analyse_parts)
qed

lemma packet_decision:
  assumes "analysed (packet_out en p st) = Some (w, d)"
  shows "d = snd (RiskModel_evaluate (riskModel st) (scores (hash en) w))"
    and "riskModel (packet_state en p st) = fst (RiskModel_evaluate (riskModel st) (scores (hash en) w))"
    and "enforcer (packet_state en p st) = apply_engine (net en, d) (enforcer st)"
    and "calls (packet_out en p st) = apply_calls (net en, d) (enforcer st)"
  by (rule packet_analysed[OF assms], assumption)+

lemma packet_window_manager:
  "windowManager (packet_state en p st) =
    (case kept_record p of None \<Rightarrow> windowManager st | Some rec \<Rightarrow> fst (add_to st rec))"
proof (cases "kept_record p")
  case None
  then show ?thesis by (simp add: packet_dropped)
next
  case (Some rec)
  obtain wm win b where a: "add_to st rec = (wm, win, b)"
    by (cases "add_to st rec")
  show ?thesis
    using packet_kept[OF Some a, of en] Some a
    by (simp add: packet_state_def analyse_parts Let_def)
qed

lemma packet_quiet:
  "analysed (packet_out en p st) = None \<Longrightarrow>
   riskModel (packet_state en p st) = riskModel st \<and> enforcer (packet_state en p st) = enforcer st \<and>
   calls (packet_out en p st) = []"
proof (cases "kept_record p")
  case None
  then show ?thesis by (simp add: packet_dropped)
next
  case (Some rec)
  obtain wm win b where a: "add_to st rec = (wm, win, b)"
    by (cases "add_to st rec")
  assume "analysed (packet_out en p st) = None"
  then show ?thesis
    using packet_kept[OF Some a, of en]
    by (auto simp: packet_state_def packet_out_def no_result_def analyse_parts Let_def split: if_splits)
qed

section \<open>The invariant of runs\<close>

definition prism_ok :: "prism \<Rightarrow> bool" where
  "prism_ok st \<longleftrightarrow> wm_inv (ns_of_ms 5000) (windowManager st)"

lemma prism_ok_new: "prism_ok prism_new"
  by (simp add: prism_ok_def prism_new_def wm_inv_new)

lemma prism_ok_packet: "prism_ok st \<Longrightarrow> prism_ok (packet_state en p st)"
  unfolding prism_ok_def packet_window_manager add_to_def by (auto intro: addRecord_inv split: option.split)

lemma prism_ok_run: "prism_ok st \<Longrightarrow> prism_ok (fst (prism_run xs st))"
  by (induction xs arbitrary: st) (simp_all add: prism_run_Cons prism_ok_packet)

lemma prism_ok_window:
  assumes "prism_ok st" and "add_to st rec = (wm, w, True)" shows "window_ok (ns_of_ms 5000) w"
  using assms addRecord_window_ok unfolding prism_ok_def add_to_def by blast

text \<open>Every result of a run is the result of one of its packets in an earlier state of the run.\<close>

lemma run_result:
  assumes "r \<in> set (snd (prism_run xs st))"
  obtains ys x zs where "xs = ys @ x # zs" "r = packet_out (fst x) (snd x) (fst (prism_run ys st))"
  using assms
proof (induction xs arbitrary: st thesis)
  case (Cons x xs)
  let ?st = "packet_state (fst x) (snd x) st"
  show ?case
  proof (cases "r = packet_out (fst x) (snd x) st")
    case True
    then show ?thesis
      using Cons.prems(1)[of "[]" x xs] by simp
  next
    case False
    then have "r \<in> set (snd (prism_run xs ?st))"
      using Cons.prems(2) by (simp add: prism_run_Cons)
    then obtain ys y zs where "xs = ys @ y # zs" "r = packet_out (fst y) (snd y) (fst (prism_run ys ?st))"
      using Cons.IH by blast
    then show ?thesis
      using Cons.prems(1)[of "x # ys" y zs] by (simp add: prism_run_Cons)
  qed
qed simp

section \<open>Features of a window\<close>

lemma scores_ok:
  assumes ord: "hash_order_ok ord" and w: "window_ok (ns_of_ms 5000) w" "records w \<noteq> []"
    and n: "length (records w) * 25 < 2 ^ 53"
  shows "features_ok (FeatureExtractor_compute ord w)"
proof -
  let ?rs = "records w"
  have n': "length ?rs < 2 ^ 53" "length ?rs * 5\<^sup>2 < 2 ^ 53"
    using n by auto
  have "gaps_le 5000000000 ?rs"
    using window_ok_gaps[OF w(1)] by (simp add: ns_of_ms_def)
  then have "0 \<le> std_ia ?rs" if "1 < length ?rs"
    using deviation_bounds(2)[of 5000000000 ?rs 5 0] that n' by simp
  moreover have "0 \<le> ratio (length (filter isWrite ?rs)) (length ?rs) \<and> ratio (length (filter isWrite ?rs)) (length ?rs) \<le> 1"
    by (intro ratio_bounds) simp
  moreover have "0 \<le> ratio (most_common (map functionCode ?rs)) (length ?rs) \<and> ratio (most_common (map functionCode ?rs)) (length ?rs) \<le> 1"
    using most_common_le[of "map functionCode ?rs"] by (intro ratio_bounds) simp
  ultimately show ?thesis
    unfolding features_ok_def compute_values[OF ord w(2) n'(1)] Let_def
    using entropy_nonneg[OF ord] by simp
qed

lemma write_ratio:
  assumes "hash_order_ok ord" and "records w \<noteq> []" and "length (records w) < 2 ^ 53"
  shows "feature_values (FeatureExtractor_compute ord w) ! 1 =
    ratio (length (filter isWrite (records w))) (length (records w))"
    and "feature_values (FeatureExtractor_compute ord w) ! 6 =
    (if 1 < length (records w) then std_ia (records w) else 0)"
    and "length (feature_values (FeatureExtractor_compute ord w)) = 8"
  unfolding compute_values[OF assms] Let_def by simp_all

text \<open>A third of writes is enough for the linear score, and no writes keep it low.\<close>

lemma third_of_writes:
  assumes "n \<le> 3 * k" and "0 < n" shows "21 / 64 \<le> ratio k n"
proof -
  have "real n \<le> 3 * real k"
    using assms(1) by (metis of_nat_le_iff of_nat_mult of_nat_numeral)
  then have "21 / 64 \<le> real k / real n"
    using assms(2) by (simp add: field_simps)
  then show ?thesis
    unfolding ratio_def by (intro fl.ge_exact) simp_all
qed

lemma scores_writes:
  assumes "hash_order_ok ord" "window_ok (ns_of_ms 5000) w" "records w \<noteq> []" "length (records w) * 25 < 2 ^ 53"
    and "length (records w) \<le> 3 * length (filter isWrite (records w))"
  shows "16 \<le> hstScore (scores ord w)"
proof -
  have n: "length (records w) < 2 ^ 53"
    using assms(4) by simp
  have "21 / 64 \<le> feature_values (FeatureExtractor_compute ord w) ! 1"
    unfolding write_ratio(1)[OF assms(1,3) n] using assms(3,5) by (intro third_of_writes) auto
  with scores_ok[OF assms(1-4)] show ?thesis
    unfolding scores_def RiskModel_fuse_def Let_def by (simp add: hst_writes)
qed

lemma scores_quiet:
  assumes "hash_order_ok ord" "window_ok (ns_of_ms 5000) w" "records w \<noteq> []" "length (records w) * 25 < 2 ^ 53"
    and "\<forall>r \<in> set (records w). \<not> isWrite r" and "gaps_le 250000000 (records w)"
  shows "hstScore (scores ord w) \<le> 5 / 2 \<and> burstScore (scores ord w) \<le> 5 / 2"
proof -
  have n: "length (records w) < 2 ^ 53"
    using assms(4) by simp
  note wr = write_ratio[OF assms(1,3) n]
  have "filter isWrite (records w) = []"
    using assms(5) by (simp add: filter_empty_conv)
  then have v1: "feature_values (FeatureExtractor_compute ord w) ! 1 = 0"
    unfolding wr(1) by (simp add: ratio_def)
  have "0 \<le> std_ia (records w) \<and> std_ia (records w) \<le> 1 / 4" if "1 < length (records w)"
    using deviation_bounds(2)[OF assms(6), of 1 2] that n by simp
  then have "BurstDetector_score (FeatureExtractor_compute ord w) \<le> 3 / 2"
    using wr by (intro burst_small) simp_all
  with hst_read_only[OF scores_ok[OF assms(1-4)] v1] show ?thesis
    by (simp add: scores_def RiskModel_fuse_def Let_def)
qed

lemma scores_jitter:
  assumes "hash_order_ok ord" "records w \<noteq> []" "length (records w) < 2 ^ 53"
    and "1 < length (records w)" "1 \<le> std_ia (records w)"
  shows "16 \<le> burstScore (scores ord w)"
  using write_ratio(2,3)[OF assms(1-3)] assms(4,5) burst_large[of "FeatureExtractor_compute ord w"]
  by (simp add: scores_def RiskModel_fuse_def Let_def)

section \<open>Quiet traffic\<close>

text \<open>
  The buffer of a window manager that has only seen read requests with gaps of at most
  \<^verbatim>\<open>g\<close>, at most \<^verbatim>\<open>n\<close> of them.
\<close>

definition quiet_buffer :: "int \<Rightarrow> nat \<Rightarrow> window_manager \<Rightarrow> bool" where
  "quiet_buffer g n wm \<longleftrightarrow> gaps_le g (buffer wm) \<and> (\<forall>r \<in> set (buffer wm). \<not> isWrite r) \<and>
     length (buffer wm) \<le> n \<and> (buffer wm \<noteq> [] \<longrightarrow> initialized wm \<and> rec_timestamp (last (buffer wm)) = lastTime wm)"

lemma gaps_le_snoc:
  "gaps_le g xs \<Longrightarrow> (xs \<noteq> [] \<Longrightarrow> rec_timestamp (last xs) \<le> rec_timestamp r \<and> rec_timestamp r \<le> rec_timestamp (last xs) + g) \<Longrightarrow>
   gaps_le g (xs @ [r])"
  by (induction g xs rule: gaps_le.induct) auto

lemma gaps_le_tl: "gaps_le g (x # xs) \<Longrightarrow> gaps_le g xs"
  by (cases xs) auto

lemma gaps_le_sorted: "gaps_le g xs \<Longrightarrow> sorted (map rec_timestamp xs)"
proof (induction g xs rule: gaps_le.induct)
  case (1 g a b rs)
  then show ?case by (auto simp: sorted2_simps)
qed auto

lemma gaps_le_evict: "gaps_le g xs \<Longrightarrow> gaps_le g (evict t xs)"
  by (induction xs) (auto dest: gaps_le_tl)

lemma set_evict: "set (evict t xs) \<subseteq> set xs" "length (evict t xs) \<le> length xs"
  by (induction xs) auto

lemma last_evict: "evict t xs \<noteq> [] \<Longrightarrow> last (evict t xs) = last xs"
  by (induction xs) (auto split: if_splits)

lemma gaps_le_interval: "gaps_le g xs \<Longrightarrow> gaps_le g (filter (in_window s e) xs)"
proof (induction g xs rule: gaps_le.induct)
  case (1 g a b rs)
  show ?case
  proof (cases "in_window s e a \<and> \<not> in_window s e b")
    case True
    then have "e < rec_timestamp b"
      using "1.prems" by (auto simp: in_window_def)
    moreover have "sorted (map rec_timestamp (b # rs))"
      using gaps_le_sorted "1.prems" gaps_le_tl by blast
    ultimately have "filter (in_window s e) (b # rs) = []"
      by (force simp: filter_empty_conv in_window_def)
    with True show ?thesis
      by simp
  next
    case False
    with 1 show ?thesis
      by (auto split: if_splits)
  qed
qed auto

lemma quiet_emitted: "quiet_buffer g n wm \<Longrightarrow> quiet_buffer g n (wm_emitted wm)"
  using set_evict(1) set_evict(2)[of _ "buffer wm"] last_evict[of _ "buffer wm"]
  by (fastforce simp: quiet_buffer_def wm_emitted_def intro: gaps_le_evict le_trans)

lemma quiet_add:
  assumes q: "quiet_buffer g n wm" and r: "\<not> isWrite r"
    and gap: "initialized wm \<longrightarrow> lastTime wm \<le> rec_timestamp r \<and> rec_timestamp r \<le> lastTime wm + g"
    and add: "WindowManager_addRecord wm r out = (wm', w, b)"
  shows "quiet_buffer g (Suc n) wm'" "initialized wm'" "lastTime wm' = rec_timestamp r"
    and "b \<Longrightarrow> gaps_le g (records w) \<and> (\<forall>x \<in> set (records w). \<not> isWrite x) \<and> length (records w) \<le> Suc n"
proof -
  have acc: "\<not> (initialized wm \<and> rec_timestamp r < lastTime wm)"
    using gap by auto
  have gaps: "gaps_le g (buffer wm @ [r])"
    using q gap by (intro gaps_le_snoc) (auto simp: quiet_buffer_def)
  have qb: "quiet_buffer g (Suc n) (wm_buffered wm r)"
    using q r gaps by (auto simp: quiet_buffer_def wm_buffered_def)
  have qe: "quiet_buffer g (Suc n) (wm_emitted (wm_buffered wm r))"
    using qb by (rule quiet_emitted)
  have cases: "wm' = (if b then wm_emitted (wm_buffered wm r) else wm_buffered wm r)"
    using add acc by (auto simp: addRecord_cases Let_def split: if_splits)
  show "quiet_buffer g (Suc n) wm'"
    using qb qe by (simp add: cases)
  show "initialized wm'" "lastTime wm' = rec_timestamp r"
    by (simp_all add: cases wm_emitted_def wm_buffered_def)
  show "gaps_le g (records w) \<and> (\<forall>x \<in> set (records w). \<not> isWrite x) \<and> length (records w) \<le> Suc n" if b
  proof -
    have "records w = filter (in_window (startTime w) (endTime w)) (buffer wm @ [r])"
      using add that addRecord_emitted(4) by auto
    then show ?thesis
      using gaps_le_interval[OF gaps] q r
      by (auto simp: quiet_buffer_def intro: le_trans[OF length_filter_le])
  qed
qed

definition quiet_state :: "nat \<Rightarrow> prism \<Rightarrow> bool" where
  "quiet_state n st \<longleftrightarrow> prism_ok st \<and> quiet_buffer 250000000 n (windowManager st) \<and> \<not> isOn (riskModel st)"

text \<open>The records follow on the last one accepted.\<close>

definition follows :: "int \<Rightarrow> window_manager \<Rightarrow> parsed_record list \<Rightarrow> bool" where
  "follows g wm rs \<longleftrightarrow> gaps_le g rs \<and>
     (initialized wm \<longrightarrow> rs = [] \<or> lastTime wm \<le> rec_timestamp (hd rs) \<and> rec_timestamp (hd rs) \<le> lastTime wm + g)"

definition quiet_result :: "packet_result \<Rightarrow> bool" where
  "quiet_result r \<longleftrightarrow> calls r = [] \<and> (case analysed r of None \<Rightarrow> True | Some (w, d) \<Rightarrow> level d = Low)"

lemma quiet_packet:
  assumes q: "quiet_state n st" and ord: "hash_order_ok (hash en)" and n: "Suc n * 25 < 2 ^ 53"
    and rec: "kept_record p = Some rec" "\<not> isWrite rec" and fo: "follows 250000000 (windowManager st) (rec # rs)"
  shows "quiet_state (Suc n) (packet_state en p st)" "quiet_result (packet_out en p st)"
    "follows 250000000 (windowManager (packet_state en p st)) rs"
proof -
  obtain wm win b where a: "add_to st rec = (wm, win, b)"
    by (cases "add_to st rec")
  have wm: "windowManager (packet_state en p st) = wm"
    unfolding packet_window_manager rec(1) by (simp add: a)
  have gap: "initialized (windowManager st) \<longrightarrow> lastTime (windowManager st) \<le> rec_timestamp rec \<and>
      rec_timestamp rec \<le> lastTime (windowManager st) + 250000000"
    using fo by (simp add: follows_def)
  have qa: "quiet_buffer 250000000 n (windowManager st)" and ok: "prism_ok st" and off: "\<not> isOn (riskModel st)"
    using q by (simp_all add: quiet_state_def)
  note add = quiet_add[OF qa rec(2) gap a[unfolded add_to_def]]
  have low: "level d = Low \<and> \<not> isOn (riskModel (packet_state en p st)) \<and> calls (packet_out en p st) = []"
    if an: "analysed (packet_out en p st) = Some (w, d)" for w d
  proof -
    note d = packet_decision(1)[OF an] and m = packet_decision(2)[OF an] and c = packet_decision(4)[OF an]
    obtain rec' wm' where k: "kept_record p = Some rec'" "add_to st rec' = (wm', w, True)" "records w \<noteq> []"
      by (rule packet_analysed[OF an])
    have w: "w = win" "b"
      using k rec(1) a by auto
    have wok: "window_ok (ns_of_ms 5000) w"
      using prism_ok_window[OF ok k(2)] .
    have "length (records w) * 25 < 2 ^ 53"
      using add(4)[OF w(2)] n w(1) by auto
    then have "hstScore (scores (hash en) w) \<le> 5 / 2 \<and> burstScore (scores (hash en) w) \<le> 5 / 2"
      using scores_quiet[OF ord wok k(3)] add(4)[OF w(2)] w(1) by blast
    then have p: "risk_probability (scores (hash en) w) \<le> 1 / 4"
      by (intro risk_probability_low) auto
    then have on: "\<not> next_on (isOn (riskModel st)) (risk_probability (scores (hash en) w))"
      using tauOn_gt_half by (auto simp: next_on_cases)
    moreover have l: "level d = Low"
      using on p threshold_bounds(3) by (auto simp: d evaluate_decision Let_def)
    moreover have "apply_calls (net en, d) (enforcer st) = []"
      using l by (simp add: apply_calls_def EnforcementEngine_apply_def)
    ultimately show ?thesis
      by (simp add: m evaluate_state c)
  qed
  have off': "\<not> isOn (riskModel (packet_state en p st))"
    using low packet_quiet[of en p st] off by (cases "analysed (packet_out en p st)") auto
  show "quiet_state (Suc n) (packet_state en p st)"
    using off' prism_ok_packet[OF ok] add(1) by (simp add: quiet_state_def wm)
  show "quiet_result (packet_out en p st)"
    using low packet_quiet[of en p st] by (auto simp: quiet_result_def split: option.split)
  show "follows 250000000 (windowManager (packet_state en p st)) rs"
    using fo add(2,3) unfolding wm follows_def by (cases rs) auto
qed

lemma quiet_run:
  assumes "quiet_state n st" and "\<forall>x \<in> set xs. hash_order_ok (hash (fst x))" and "(n + length xs) * 25 < 2 ^ 53"
    and "\<forall>r \<in> set (List.map_filter kept_record (map snd xs)). \<not> isWrite r"
    and "follows 250000000 (windowManager st) (List.map_filter kept_record (map snd xs))"
  shows "\<forall>r \<in> set (snd (prism_run xs st)). quiet_result r"
  using assms
proof (induction xs arbitrary: st n)
  case (Cons x xs)
  let ?st = "packet_state (fst x) (snd x) st"
  show ?case
  proof (cases "kept_record (snd x)")
    case None
    have "quiet_result (packet_out (fst x) (snd x) st)" "?st = st"
      using packet_dropped[OF None] by (simp_all add: quiet_result_def)
    moreover have "\<forall>r \<in> set (snd (prism_run xs st)). quiet_result r"
      using Cons.prems None by (intro Cons.IH[of n]) (simp_all add: map_filter_simps)
    ultimately show ?thesis
      by (simp add: prism_run_Cons)
  next
    case (Some rec)
    let ?rs = "List.map_filter kept_record (map snd xs)"
    have pr: "\<not> isWrite rec" "follows 250000000 (windowManager st) (rec # ?rs)" "Suc n * 25 < 2 ^ 53"
      "hash_order_ok (hash (fst x))"
      using Cons.prems Some by (simp_all add: map_filter_simps)
    note q = quiet_packet[OF Cons.prems(1) pr(4,3) Some pr(1,2)]
    have "\<forall>r \<in> set (snd (prism_run xs ?st)). quiet_result r"
      using Cons.prems Some q(1,3) by (intro Cons.IH[of "Suc n"]) (simp_all add: map_filter_simps)
    with q(2) show ?thesis
      by (simp add: prism_run_Cons)
  qed
qed simp

section \<open>High decisions and the lock\<close>

interpretation prism_lock: latch "\<lambda>x. packet_state (fst x) (snd x)" "\<lambda>st. locked (enforcer st)"
proof
  fix x :: "env \<times> raw_packet" and st :: prism
  assume l: "locked (enforcer st)"
  show "locked (enforcer (packet_state (fst x) (snd x) st))"
  proof (cases "analysed (packet_out (fst x) (snd x) st)")
    case None
    then show ?thesis using l packet_quiet by simp
  next
    case (Some wd)
    then have "enforcer (packet_state (fst x) (snd x) st) = apply_engine (net (fst x), snd wd) (enforcer st)"
      by (intro packet_decision(3)[of "fst x" "snd x" st "fst wd"]) simp
    then show ?thesis
      using l by (simp add: apply_engine_locked)
  qed
qed

lemma prism_run_fold: "fst (prism_run xs st) = fold (\<lambda>x. packet_state (fst x) (snd x)) xs st"
  by (induction xs arbitrary: st) (simp_all add: prism_run_Cons)

lemma high_decision_locks:
  assumes an: "analysed (packet_out en p st) = Some (w, d)" and s: "16 \<le> hstScore (scores (hash en) w) \<or> 16 \<le> burstScore (scores (hash en) w)"
  shows "level d = High \<and> restrictWrites d" and "net_ok (net en) \<Longrightarrow> locked (enforcer (packet_state en p st))"
proof -
  note d = packet_decision(1)[OF an] and e = packet_decision(3)[OF an]
  have "next_on (isOn (riskModel st)) (risk_probability (scores (hash en) w))"
    using risk_probability_high[OF s] by (simp add: next_on_cases)
  then show h: "level d = High \<and> restrictWrites d"
    by (simp add: d evaluate_decision Let_def)
  show "locked (enforcer (packet_state en p st))" if "net_ok (net en)"
    using h that by (simp add: e apply_engine_locked engages_def wants_lock_def)
qed

text \<open>A result of a run: the window is well formed, and a lock taken there is still held at the end.\<close>

lemma run_analysed:
  assumes "r \<in> set (snd (prism_run xs prism_new))" and "analysed r = Some (w, d)"
  obtains en p st where "(en, p) \<in> set xs" "r = packet_out en p st" "window_ok (ns_of_ms 5000) w" "records w \<noteq> []"
    "locked (enforcer (packet_state en p st)) \<Longrightarrow> locked (enforcer (fst (prism_run xs prism_new)))"
proof -
  obtain ys x zs where x: "xs = ys @ x # zs" "r = packet_out (fst x) (snd x) (fst (prism_run ys prism_new))"
    using run_result[OF assms(1)] by blast
  let ?st = "fst (prism_run ys prism_new)"
  obtain rec wm where k: "add_to ?st rec = (wm, w, True)" "records w \<noteq> []"
    by (rule packet_analysed[OF assms(2)[unfolded x(2)]])
  have ok: "window_ok (ns_of_ms 5000) w"
    using prism_ok_window[OF prism_ok_run[OF prism_ok_new] k(1)] .
  have held: "locked (enforcer (fst (prism_run xs prism_new)))"
    if "locked (enforcer (packet_state (fst x) (snd x) ?st))"
    using prism_lock.held_fold[OF that, of zs]
    unfolding x(1) by (simp add: prism_run_append prism_run_Cons) (simp add: prism_run_fold)
  show thesis
    using that[of "fst x" "snd x" ?st] x ok k(2) held by simp
qed

section \<open>The loops\<close>

lemma drain_loop_Cons:
  "drain_loop d (i # is) st =
    (if still_running i \<and> d < max_drain then
       (case next_packet i of None \<Rightarrow> (st, [])
        | Some p \<Rightarrow> let r = packet_out (packet_env i) p st;
                        rest = drain_loop (if counted r then d + 1 else d) is (packet_state (packet_env i) p st)
                    in (fst rest, r # snd rest))
     else (st, []))"
  by (simp add: packet_state_def packet_out_def case_prod_unfold Let_def split: option.split)

declare drain_loop.simps(2) [simp del]

definition input_of :: "loop_input \<Rightarrow> (env \<times> raw_packet) option" where
  "input_of i = map_option (\<lambda>p. (packet_env i, p)) (next_packet i)"

definition delivers :: "loop_input \<Rightarrow> bool" where
  "delivers i \<longleftrightarrow> still_running i \<and> next_packet i \<noteq> None"

lemma drain_prefix:
  assumes "d \<le> max_drain"
  shows "\<exists>k \<le> length is. (\<forall>i \<in> set (take k is). delivers i) \<and>
    drain_loop d is st = prism_run (List.map_filter input_of (take k is)) st \<and>
    d + length (filter counted (snd (drain_loop d is st))) \<le> max_drain \<and>
    (k = 0 \<or> d + length (filter counted (butlast (snd (drain_loop d is st)))) < max_drain) \<and>
    (k = length is \<or> \<not> delivers (is ! k) \<or> d + length (filter counted (snd (drain_loop d is st))) = max_drain)"
  using assms
proof (induction "is" arbitrary: d st)
  case (Cons i "is")
  show ?case
  proof (cases "delivers i \<and> d < max_drain")
    case False
    then have "drain_loop d (i # is) st = (st, [])"
      by (auto simp: drain_loop_Cons delivers_def)
    with False Cons.prems show ?thesis
      by (intro exI[of _ 0]) auto
  next
    case True
    then obtain p where p: "next_packet i = Some p" "still_running i"
      by (auto simp: delivers_def)
    let ?r = "packet_out (packet_env i) p st" and ?st = "packet_state (packet_env i) p st"
    let ?d = "if counted ?r then d + 1 else d"
    have e: "drain_loop d (i # is) st = (fst (drain_loop ?d is ?st), ?r # snd (drain_loop ?d is ?st))"
      using True p by (simp add: drain_loop_Cons Let_def)
    obtain k where k: "k \<le> length is" "\<forall>i \<in> set (take k is). delivers i"
      "drain_loop ?d is ?st = prism_run (List.map_filter input_of (take k is)) ?st"
      "?d + length (filter counted (snd (drain_loop ?d is ?st))) \<le> max_drain"
      "k = 0 \<or> ?d + length (filter counted (butlast (snd (drain_loop ?d is ?st)))) < max_drain"
      "k = length is \<or> \<not> delivers (is ! k) \<or> ?d + length (filter counted (snd (drain_loop ?d is ?st))) = max_drain"
    proof -
      have "?d \<le> max_drain"
        using True by auto
      from Cons.IH[OF this, of ?st] show thesis
        using that by blast
    qed
    have "input_of i = Some (packet_env i, p)"
      using p by (simp add: input_of_def)
    moreover have "d + length (filter counted (butlast (?r # snd (drain_loop ?d is ?st)))) < max_drain"
      using True k(3,5) by (cases "k = 0") (auto simp: map_filter_simps)
    ultimately show ?thesis
      unfolding e using k True
      by (intro exI[of _ "Suc k"]) (auto simp: map_filter_simps prism_run_Cons)
  qed
qed simp

text \<open>A packet on the DNP3 port that is too short for the parser: dropped, without counting.\<close>

lemma short_dnp3_dropped:
  assumes "classify_protocol p = DNP3" and "length (payload p) < 13"
  shows "process_packet en p st = (st, no_result False)"
proof -
  have "srcPort p = 20000 \<or> dstPort p = 20000"
    using assms(1) by (auto simp: classify_protocol_def split: if_splits)
  then have "\<not> dnp3_accepts p"
    using assms(2) by (simp add: dnp3_accepts_def)
  then have "record_discarded (DNP3Parser_parse p)"
    by (simp add: dnp3.discarded_iff)
  then show ?thesis
    using assms(1) by (simp add: process_packet_def parse_by_def)
qed

section \<open>Concrete packets\<close>

definition modbus_packet :: "timestamp \<Rightarrow> u8 \<Rightarrow> u16 \<Rightarrow> raw_packet" where
  "modbus_packet t fc a = \<lparr>pkt_timestamp = t,
     payload = [0, 1, 0, 0, 0, 6, 1, fc, hi8 a, lo8 a, 0, 0], srcIp = ''10.0.0.2'', dstIp = ''10.0.0.1'',
     srcPort = 40000, dstPort = 502\<rparr>"

definition seconds :: "int \<Rightarrow> timestamp" where
  "seconds n = n * 1000000000"

definition good_env :: env where
  "good_env = \<lparr>hash = insertion_order, net = net_good\<rparr>"

lemma kept_modbus:
  "kept_record (modbus_packet t fc a) =
     Some \<lparr>rec_timestamp = t, protocol = ''Modbus'', isRequest = True, isWrite = (fc \<in> {5, 6, 15, 16}),
           functionCode = fc, address = a\<rparr>"
proof -
  have "modbus_accepts (modbus_packet t fc a)" "classify_protocol (modbus_packet t fc a) = MODBUS"
    by (simp_all add: modbus_accepts_def modbus_packet_def classify_protocol_def)
  moreover have "record_discarded (ModbusParser_parse (modbus_packet t fc a)) = False"
    using calculation(1) modbus.discarded_iff by blast
  ultimately show ?thesis
    by (simp add: kept_record_def parse_by_def modbus_fields Let_def) (simp add: modbus_packet_def byte_simps)
qed

section \<open>Concrete runs\<close>

text \<open>The window manager after a run depends on the records only.\<close>

lemma addRecord_out:
  "fst (WindowManager_addRecord wm r out) = fst (WindowManager_addRecord wm r out')"
  "WindowManager_addRecord wm r out = (wm', w, True) \<Longrightarrow> WindowManager_addRecord wm r out' = (wm', w, True)"
  by (auto simp: addRecord_cases Let_def split: if_splits)

definition manager_after :: "parsed_record list \<Rightarrow> window_manager" where
  "manager_after rs = fold (\<lambda>r wm. fst (WindowManager_addRecord wm r no_window)) rs (WindowManager_new 5000 1000)"

lemma run_manager:
  "windowManager (fst (prism_run xs prism_new)) = manager_after (List.map_filter kept_record (map snd xs))"
proof (induction xs rule: rev_induct)
  case (snoc x xs)
  let ?st = "fst (prism_run xs prism_new)"
  have "windowManager (packet_state (fst x) (snd x) ?st) =
      (case kept_record (snd x) of None \<Rightarrow> windowManager ?st
       | Some r \<Rightarrow> fst (WindowManager_addRecord (windowManager ?st) r no_window))"
    unfolding packet_window_manager add_to_def by (auto split: option.split intro: addRecord_out)
  then show ?case
    by (cases "kept_record (snd x)")
      (simp_all add: prism_run_append prism_run_Cons snoc map_filter_simps List.map_filter_def manager_after_def)
qed (simp add: map_filter_simps manager_after_def prism_new_def)

lemma last_packet_analysed:
  assumes "List.map_filter kept_record (map snd ys) = rs" and "kept_record p = Some r"
    and "WindowManager_addRecord (manager_after rs) r no_window = (wm, w, True)" and "records w \<noteq> []"
  obtains x d where "x \<in> set (snd (prism_run (ys @ [(en, p)]) prism_new))" "analysed x = Some (w, d)"
proof -
  let ?st = "fst (prism_run ys prism_new)"
  have a: "add_to ?st r = (wm, w, True)"
    unfolding add_to_def run_manager assms(1) using assms(3) by (rule addRecord_out(2))
  have "packet_out en p ?st = snd (analyse_window en r w (?st\<lparr>windowManager := wm, current_window := w\<rparr>))"
    unfolding packet_out_def packet_kept[OF assms(2) a] using assms(4) by simp
  then have "\<exists>d. analysed (packet_out en p ?st) = Some (w, d)"
    by (simp add: analyse_parts)
  then show thesis
    using that by (auto simp: prism_run_append prism_run_Cons)
qed

section \<open>Properties\<close>

text \<open>
  C5. No false alarm on quiet traffic. From the start of the program, over any run of packets of any protocols in
  which no accepted record is a write and successive accepted records are at most a quarter of a second
  apart, every decision is Low and the enforcement engine makes no system call at all.
\<close>

theorem quiet_traffic_never_locks:
  assumes "\<forall>x \<in> set xs. hash_order_ok (hash (fst x))" and "length xs * 25 < 2 ^ 53"
    and "\<forall>r \<in> set (List.map_filter kept_record (map snd xs)). \<not> isWrite r"
    and "gaps_le 250000000 (List.map_filter kept_record (map snd xs))"
  shows "\<forall>r \<in> set (snd (prism_run xs prism_new)). calls r = [] \<and>
    (case analysed r of None \<Rightarrow> True | Some (w, d) \<Rightarrow> level d = Low)"
proof -
  have "quiet_state 0 prism_new"
    by (simp add: quiet_state_def prism_ok_new) (simp add: quiet_buffer_def prism_new_def WindowManager_new_def risk_init_def)
  moreover have "follows 250000000 (windowManager prism_new) (List.map_filter kept_record (map snd xs))"
    using assms(4) by (simp add: follows_def prism_new_def WindowManager_new_def)
  ultimately show ?thesis
    using quiet_run[of 0 prism_new xs] assms unfolding quiet_result_def by simp
qed

theorem quiet_traffic_never_locks_witness:
  "concat (map calls
     (snd (prism_run [(good_env, modbus_packet 0 3 10), (good_env, modbus_packet 200000000 4 11)] prism_new))) = []"
proof -
  let ?xs = "[(good_env, modbus_packet 0 3 10), (good_env, modbus_packet 200000000 4 11)]"
  have "List.map_filter kept_record (map snd ?xs) =
      [sample_record 0 False 3 10, sample_record 200000000 False 4 11]"
    by (simp add: map_filter_simps kept_modbus sample_record_def)
  moreover have "\<forall>x \<in> set ?xs. hash_order_ok (hash (fst x))"
    by (simp add: good_env_def insertion_order_ok)
  ultimately show ?thesis
    using quiet_traffic_never_locks[of ?xs] by (simp add: sample_record_def)
qed

text \<open>
  C1. Write attacks are caught. In every run of the program, a window of which at least a third are writes
  is decided High with write restriction, whatever the timing, addresses and function codes and
  whatever was decided before; and if the PLC can be reached then, the run ends with the lock engaged.
\<close>

theorem write_attacks_lock:
  assumes "\<forall>x \<in> set xs. hash_order_ok (hash (fst x)) \<and> net_ok (net (fst x))"
    and "r \<in> set (snd (prism_run xs prism_new))" and "analysed r = Some (w, d)"
    and "length (records w) * 25 < 2 ^ 53"
    and "length (records w) \<le> 3 * length (filter isWrite (records w))"
  shows "level d = High \<and> restrictWrites d \<and> locked (enforcer (fst (prism_run xs prism_new)))"
proof -
  obtain en p st where x: "(en, p) \<in> set xs" "r = packet_out en p st" "window_ok (ns_of_ms 5000) w" "records w \<noteq> []"
    "locked (enforcer (packet_state en p st)) \<Longrightarrow> locked (enforcer (fst (prism_run xs prism_new)))"
    using run_analysed[OF assms(2,3)] by blast
  have ord: "hash_order_ok (hash en)" "net_ok (net en)"
    using assms(1) x(1) by force+
  have "16 \<le> hstScore (scores (hash en) w)"
    by (rule scores_writes[OF ord(1) x(3,4) assms(4,5)])
  then show ?thesis
    using high_decision_locks[of en p st w d] assms(3) x(2,5) ord(2) by blast
qed

definition attack_run :: "(env \<times> raw_packet) list" where
  "attack_run = [(good_env, modbus_packet 0 5 10), (good_env, modbus_packet (seconds 6) 3 10)]"

theorem write_attacks_lock_witness: "locked (enforcer (fst (prism_run attack_run prism_new)))"
proof -
  let ?r = "sample_record 0 True 5 10"
  let ?w = "\<lparr>startTime = 0, endTime = 5000000000, records = [?r]\<rparr>"
  have run: "attack_run = [(good_env, modbus_packet 0 5 10)] @ [(good_env, modbus_packet (seconds 6) 3 10)]"
    by (simp add: attack_run_def)
  have k: "List.map_filter kept_record (map snd [(good_env, modbus_packet 0 5 10)]) = [?r]"
    "kept_record (modbus_packet (seconds 6) 3 10) = Some (sample_record 6000000000 False 3 10)"
    by (simp_all add: map_filter_simps kept_modbus sample_record_def seconds_def)
  have "snd (WindowManager_addRecord (manager_after [?r]) (sample_record 6000000000 False 3 10) no_window) = (?w, True)"
    by code_simp
  then obtain wm where e: "WindowManager_addRecord (manager_after [?r]) (sample_record 6000000000 False 3 10) no_window = (wm, ?w, True)"
    by (metis prod.collapse)
  obtain x d where x: "x \<in> set (snd (prism_run attack_run prism_new))" "analysed x = Some (?w, d)"
    unfolding run by (rule last_packet_analysed[OF k(1,2) e, of good_env]) simp_all
  have "\<forall>x \<in> set attack_run. hash_order_ok (hash (fst x)) \<and> net_ok (net (fst x))"
    by (simp add: attack_run_def good_env_def insertion_order_ok net_ok_def net_good_def)
  from write_attacks_lock[OF this x] show ?thesis
    by (simp add: sample_record_def)
qed

text \<open>
  C20. The burst detector alone also locks: in every run, a window whose inter-arrival times deviate by a
  second or more is decided High with write restriction, even if it holds read requests only.
\<close>

theorem jitter_locks:
  assumes "\<forall>x \<in> set xs. hash_order_ok (hash (fst x)) \<and> net_ok (net (fst x))"
    and "r \<in> set (snd (prism_run xs prism_new))" and "analysed r = Some (w, d)"
    and "length (records w) < 2 ^ 53" and "1 < length (records w)" and "1 \<le> std_ia (records w)"
  shows "level d = High \<and> restrictWrites d \<and> locked (enforcer (fst (prism_run xs prism_new)))"
proof -
  obtain en p st where x: "(en, p) \<in> set xs" "r = packet_out en p st" "window_ok (ns_of_ms 5000) w" "records w \<noteq> []"
    "locked (enforcer (packet_state en p st)) \<Longrightarrow> locked (enforcer (fst (prism_run xs prism_new)))"
    using run_analysed[OF assms(2,3)] by blast
  have ord: "hash_order_ok (hash en)" "net_ok (net en)"
    using assms(1) x(1) by force+
  have "16 \<le> burstScore (scores (hash en) w)"
    by (rule scores_jitter[OF ord(1) x(4) assms(4-6)])
  then show ?thesis
    using high_decision_locks[of en p st w d] assms(3) x(2,5) ord(2) by blast
qed

definition jitter_run :: "(env \<times> raw_packet) list" where
  "jitter_run = [(good_env, modbus_packet 0 3 10), (good_env, modbus_packet (seconds 1) 3 10),
     (good_env, modbus_packet (seconds 4) 3 10), (good_env, modbus_packet (seconds 6) 3 10)]"

lemma jitter_deviation:
  "std_ia [sample_record 0 False 3 10, sample_record 1000000000 False 3 10, sample_record 4000000000 False 3 10] = 1"
  by (simp add: std_ia_def mean_ia_def sample_record_def seconds_of_ns_def sum_loop_def square_loop_def rnd64_minus)

theorem jitter_locks_witness:
  "filter isWrite (List.map_filter kept_record (map snd jitter_run)) = [] \<and>
   locked (enforcer (fst (prism_run jitter_run prism_new)))"
proof -
  let ?rs = "[sample_record 0 False 3 10, sample_record 1000000000 False 3 10, sample_record 4000000000 False 3 10]"
  let ?w = "\<lparr>startTime = 0, endTime = 5000000000, records = ?rs\<rparr>"
  let ?ys = "butlast jitter_run"
  have run: "jitter_run = ?ys @ [(good_env, modbus_packet (seconds 6) 3 10)]"
    by (simp add: jitter_run_def)
  have k: "List.map_filter kept_record (map snd ?ys) = ?rs"
    "kept_record (modbus_packet (seconds 6) 3 10) = Some (sample_record 6000000000 False 3 10)"
    by (simp_all add: jitter_run_def map_filter_simps kept_modbus sample_record_def seconds_def)
  have "snd (WindowManager_addRecord (manager_after ?rs) (sample_record 6000000000 False 3 10) no_window) = (?w, True)"
    by code_simp
  then obtain wm where e: "WindowManager_addRecord (manager_after ?rs) (sample_record 6000000000 False 3 10) no_window = (wm, ?w, True)"
    by (metis prod.collapse)
  obtain x d where x: "x \<in> set (snd (prism_run jitter_run prism_new))" "analysed x = Some (?w, d)"
    by (rule last_packet_analysed[OF k(1,2) e, of good_env]) (simp_all add: run[symmetric])
  have "\<forall>x \<in> set jitter_run. hash_order_ok (hash (fst x)) \<and> net_ok (net (fst x))"
    by (simp add: jitter_run_def good_env_def insertion_order_ok net_ok_def net_good_def)
  from jitter_locks[OF this x] have "locked (enforcer (fst (prism_run jitter_run prism_new)))"
    by (simp add: jitter_deviation)
  then show ?thesis
    by (simp add: jitter_run_def map_filter_simps kept_modbus)
qed

text \<open>
  C21. One drain of the poll loop. It handles a prefix of what the capture delivers, exactly as a plain run over those packets,
  never more than 1024 of them on paths that count, and stops only when the capture has nothing,
  when shutdown was requested, or when 1024 have been counted.
\<close>

theorem drain_is_bounded_run:
  "\<exists>k \<le> length is. (\<forall>i \<in> set (take k is). still_running i \<and> next_packet i \<noteq> None) \<and>
    drain_loop 0 is st = prism_run (List.map_filter input_of (take k is)) st \<and>
    length (filter counted (snd (drain_loop 0 is st))) \<le> 1024 \<and>
    (k = length is \<or> \<not> still_running (is ! k) \<or> next_packet (is ! k) = None \<or>
     length (filter counted (snd (drain_loop 0 is st))) = 1024)"
  using drain_prefix[of 0 "is" st] by (simp add: delivers_def max_drain_def) blast

theorem drain_is_bounded_run_witness:
  "length (filter counted (snd (drain_loop 0
     (replicate 2000 \<lparr>still_running = True, next_packet = Some (modbus_packet 0 3 10), packet_env = good_env\<rparr>) prism_new))) \<le> 1024"
  using drain_is_bounded_run[of
      "replicate 2000 \<lparr>still_running = True, next_packet = Some (modbus_packet 0 3 10), packet_env = good_env\<rparr>" prism_new]
  by blast

text \<open>
  C24. The bound does not hold for all packets: frames on the DNP3 port too short for the parser are not counted, so
  one drain handles any number of them, without returning to \<^verbatim>\<open>poll\<close>, and leaves the state unchanged.
\<close>

theorem drain_unbounded_on_short_frames:
  assumes "\<forall>i \<in> set is. still_running i \<and>
     (\<exists>p. next_packet i = Some p \<and> classify_protocol p = DNP3 \<and> length (payload p) < 13)"
  shows "length (snd (drain_loop 0 is st)) = length is \<and> fst (drain_loop 0 is st) = st"
proof -
  have "length (snd (drain_loop d is st)) = length is \<and> fst (drain_loop d is st) = st" if "d < max_drain" for d
    using assms
  proof (induction "is")
    case (Cons i "is")
    then obtain p where p: "next_packet i = Some p" "classify_protocol p = DNP3" "length (payload p) < 13"
      by auto
    have "packet_state (packet_env i) p st = st" "\<not> counted (packet_out (packet_env i) p st)"
      using short_dnp3_dropped[OF p(2,3)] by (simp_all add: packet_state_def packet_out_def no_result_def)
    with Cons p that show ?case
      by (simp add: drain_loop_Cons Let_def)
  qed simp
  then show ?thesis
    by (simp add: max_drain_def)
qed

definition short_frame :: raw_packet where
  "short_frame = \<lparr>pkt_timestamp = 0, payload = replicate 12 0, srcIp = '''', dstIp = '''', srcPort = 40000, dstPort = 20000\<rparr>"

theorem drain_unbounded_on_short_frames_witness:
  "length (snd (drain_loop 0 (replicate 5000 \<lparr>still_running = True, next_packet = Some short_frame, packet_env = good_env\<rparr>)
     prism_new)) = 5000"
  using drain_unbounded_on_short_frames[of
      "replicate 5000 \<lparr>still_running = True, next_packet = Some short_frame, packet_env = good_env\<rparr>" prism_new]
  by (simp add: classify_protocol_def short_frame_def)

end
