(* ===== verification/Window_Timing.thy ===== *)
theory Window_Timing
  imports Window_Manager
begin

text \<open>
  When windows are emitted on dense traffic. As long as records arrive in order with gaps of at most one
  step, the manager keeps up: no grid window is skipped, the window that ends at a time is emitted by the first
  record that is not before that time, and it holds all records of its interval that have arrived.
\<close>

section \<open>The specification after a dense history\<close>

definition spec_after :: "int \<Rightarrow> int \<Rightarrow> parsed_record list \<Rightarrow> window_spec" where
  "spec_after wsize step rs = fst (spec_run wsize step \<lparr>history = [], emitted = 0\<rparr> rs)"

lemma spec_after_Nil [simp]: "spec_after wsize step [] = \<lparr>history = [], emitted = 0\<rparr>"
  by (simp add: spec_after_def)

lemma spec_run_snoc:
  "fst (spec_run wsize step sp (rs @ [r])) = fst (spec_add wsize step (fst (spec_run wsize step sp rs)) r)"
proof (induction rs arbitrary: sp)
  case (Cons x rs)
  then show ?case
    unfolding append_Cons spec_run_Cons by simp
qed (simp add: spec_run_Cons)

lemma spec_after_snoc: "spec_after wsize step (rs @ [r]) = fst (spec_add wsize step (spec_after wsize step rs) r)"
  by (simp add: spec_after_def spec_run_snoc)

text \<open>Records in time order are all accepted.\<close>

lemma spec_after_history: "sorted (map rec_timestamp rs) \<Longrightarrow> history (spec_after wsize step rs) = rs"
proof (induction rs rule: rev_induct)
  case (snoc r rs)
  then have h: "history (spec_after wsize step rs) = rs" "\<forall>x \<in> set rs. rec_timestamp x \<le> rec_timestamp r"
    by (simp_all add: sorted_append)
  then have "\<not> (rs \<noteq> [] \<and> rec_timestamp r < rec_timestamp (last rs))"
    by (metis last_in_set linorder_not_less)
  then show ?case
    by (simp add: spec_after_snoc spec_add_def h(1) Let_def)
qed simp

lemma gaps_le_append: "gaps_le g (xs @ ys) \<Longrightarrow> gaps_le g xs \<and> gaps_le g ys"
proof (induction xs)
  case (Cons a xs)
  then show ?case by (cases xs; cases ys) auto
qed simp

lemma gaps_le_last: "gaps_le g (xs @ [r]) \<Longrightarrow> xs \<noteq> [] \<Longrightarrow>
  rec_timestamp (last xs) \<le> rec_timestamp r \<and> rec_timestamp r \<le> rec_timestamp (last xs) + g"
  by (induction g xs rule: gaps_le.induct) auto

text \<open>
  The invariant: every record was accepted, the last one is before the end of the window that is next, and not before the end of
  the one emitted last.
\<close>

definition keeps_up :: "int \<Rightarrow> int \<Rightarrow> parsed_record list \<Rightarrow> bool" where
  "keeps_up wsize step rs \<longleftrightarrow>
    (let sp = spec_after wsize step rs; e = spec_start step sp + wsize in
     history sp = rs \<and> rec_timestamp (last rs) < e \<and> (emitted sp \<noteq> 0 \<longrightarrow> e - step \<le> rec_timestamp (last rs)))"

lemma keeps_up_single: "0 < wsize \<Longrightarrow> keeps_up wsize step [r]"
  using spec_after_snoc[of wsize step "[]" r]
  by (simp add: keeps_up_def spec_add_def spec_start_def Let_def)

lemma keeps_up_add:
  assumes k: "keeps_up wsize step rs" and rs: "rs \<noteq> []" and g: "g \<le> step"
    and r: "rec_timestamp (last rs) \<le> rec_timestamp r" "rec_timestamp r \<le> rec_timestamp (last rs) + g"
  shows "keeps_up wsize step (rs @ [r])"
    and "spec_start step (spec_after wsize step rs) + wsize \<le> rec_timestamp r \<Longrightarrow>
      spec_start step (spec_after wsize step (rs @ [r])) = spec_start step (spec_after wsize step rs) + step \<and>
      snd (spec_add wsize step (spec_after wsize step rs) r) =
      (let s = spec_start step (spec_after wsize step rs)
       in Some \<lparr>startTime = s, endTime = s + wsize, records = filter (in_window s (s + wsize)) (rs @ [r])\<rparr>)"
    and "rec_timestamp r < spec_start step (spec_after wsize step rs) + wsize \<Longrightarrow>
      spec_start step (spec_after wsize step (rs @ [r])) = spec_start step (spec_after wsize step rs)"
proof -
  let ?sp = "spec_after wsize step rs"
  have h: "history ?sp = rs"
    using k by (simp add: keeps_up_def Let_def)
  have start: "spec_start step (?sp\<lparr>history := rs @ [r]\<rparr>) = spec_start step ?sp"
    using rs h by (simp add: spec_start_def)
  have add: "spec_add wsize step ?sp r =
    (let s = spec_start step ?sp in
     if s + wsize \<le> rec_timestamp r
     then (\<lparr>history = rs @ [r], emitted = Suc (emitted ?sp)\<rparr>,
           Some \<lparr>startTime = s, endTime = s + wsize, records = filter (in_window s (s + wsize)) (rs @ [r])\<rparr>)
     else (\<lparr>history = rs @ [r], emitted = emitted ?sp\<rparr>, None))"
    using r(1) start by (simp add: spec_add_def h Let_def)
  have st: "spec_start step \<lparr>history = rs @ [r], emitted = n\<rparr> = rec_timestamp (hd rs) + int n * step" for n
    using rs by (simp add: spec_start_def)
  have sp: "spec_start step ?sp = rec_timestamp (hd rs) + int (emitted ?sp) * step"
    by (simp add: spec_start_def h)
  show "keeps_up wsize step (rs @ [r])"
    using k r g unfolding keeps_up_def spec_after_snoc add Let_def
    by (auto simp: st sp algebra_simps)
  show "spec_start step ?sp + wsize \<le> rec_timestamp r \<Longrightarrow>
      spec_start step (spec_after wsize step (rs @ [r])) = spec_start step ?sp + step \<and>
      snd (spec_add wsize step ?sp r) = (let s = spec_start step ?sp
       in Some \<lparr>startTime = s, endTime = s + wsize, records = filter (in_window s (s + wsize)) (rs @ [r])\<rparr>)"
    unfolding spec_after_snoc add Let_def by (simp add: st sp algebra_simps)
  show "rec_timestamp r < spec_start step ?sp + wsize \<Longrightarrow>
      spec_start step (spec_after wsize step (rs @ [r])) = spec_start step ?sp"
    unfolding spec_after_snoc add Let_def by (simp add: st sp)
qed

lemma dense_keeps_up:
  assumes "0 < wsize" and "g \<le> step" and "gaps_le g rs" and "rs \<noteq> []"
  shows "keeps_up wsize step rs"
  using assms(3,4)
proof (induction rs rule: rev_induct)
  case (snoc r rs)
  show ?case
  proof (cases "rs = []")
    case True
    then show ?thesis using keeps_up_single[OF assms(1)] by simp
  next
    case False
    then show ?thesis
      using snoc gaps_le_append[of g rs "[r]"] gaps_le_last[of g rs r] keeps_up_add(1)[OF _ False assms(2)] by blast
  qed
qed simp

text \<open>
  The window that starts \<^verbatim>\<open>i\<close> steps after the first record is emitted by the first record that is not before its end.
\<close>

lemma dense_emits:
  assumes w: "0 < wsize" and g: "0 \<le> g" "g \<le> step" and gaps: "gaps_le g rs" and rs: "rs \<noteq> []"
    and s: "s = rec_timestamp (hd rs) + int i * step" and z: "z \<in> set rs" "s + wsize \<le> rec_timestamp z"
  obtains us x vs where "rs = us @ x # vs" "us \<noteq> []" "\<forall>u \<in> set us. rec_timestamp u < s + wsize"
    "s + wsize \<le> rec_timestamp x" "rec_timestamp x \<le> s + wsize + g"
    "snd (spec_add wsize step (spec_after wsize step us) x) =
     Some \<lparr>startTime = s, endTime = s + wsize, records = filter (in_window s (s + wsize)) (us @ [x])\<rparr>"
proof -
  let ?e = "s + wsize"
  obtain us x vs where d: "rs = us @ x # vs" "?e \<le> rec_timestamp x" "\<forall>u \<in> set us. rec_timestamp u < ?e"
    using split_list_first_prop[of rs "\<lambda>r. ?e \<le> rec_timestamp r"] z by (auto simp: not_le)
  have "0 \<le> int i * step"
    using g by simp
  then have "rec_timestamp (hd rs) < ?e"
    using w by (simp add: s)
  then have us: "us \<noteq> []"
    using d by auto
  have gu: "gaps_le g us" "gaps_le g (us @ [x])"
    using gaps gaps_le_append[of g us "x # vs"] gaps_le_append[of g "us @ [x]" vs] unfolding d(1) by simp_all
  note x = gaps_le_last[OF gu(2) us]
  note k = dense_keeps_up[OF w g(2) gu(1) us]
  have l: "rec_timestamp (last us) < ?e"
    using d(3) us by simp
  let ?sp = "spec_after wsize step us"
  have hd: "hd rs = hd us"
    using us by (simp add: d(1))
  have start: "spec_start step ?sp = rec_timestamp (hd rs) + int (emitted ?sp) * step"
    using k by (simp add: keeps_up_def spec_start_def hd Let_def)
  have x1: "rec_timestamp x < spec_start step ?sp + wsize + step"
    using k x g(2) by (simp add: keeps_up_def Let_def)
  have x2: "spec_start step ?sp + wsize - step < ?e" if "emitted ?sp \<noteq> 0"
    using k l that by (simp add: keeps_up_def Let_def)
  have step: "0 \<le> step"
    using g by simp
  have "emitted ?sp = i"
  proof (rule ccontr)
    assume "emitted ?sp \<noteq> i"
    then consider "emitted ?sp < i" | "i < emitted ?sp" by linarith
    then show False
    proof cases
      case 1
      then have "int (emitted ?sp) * step + step \<le> int i * step"
        using mult_right_mono[OF _ step, of "int (emitted ?sp) + 1" "int i"] by (simp add: algebra_simps)
      with x1 d(2) show False
        by (simp add: start s)
    next
      case 2
      then have "int i * step + step \<le> int (emitted ?sp) * step"
        using mult_right_mono[OF _ step, of "int i + 1" "int (emitted ?sp)"] by (simp add: algebra_simps)
      with x2 2 show False
        by (simp add: start s)
    qed
  qed
  then have "spec_start step ?sp = s"
    by (simp add: start s)
  then have e: "snd (spec_add wsize step ?sp x) =
      Some \<lparr>startTime = s, endTime = ?e, records = filter (in_window s ?e) (us @ [x])\<rparr>"
    using keeps_up_add(2)[OF k us g(2), of x] x d(2) by (simp add: Let_def)
  have "rec_timestamp x \<le> ?e + g"
    using x l by simp
  from that[OF d(1) us d(3) d(2) this e] show thesis .
qed

text \<open>Among the grid starts there is one within a step after any time from the first record on.\<close>

lemma grid_start:
  assumes "0 < step" and "t0 \<le> (t :: int)"
  obtains i where "t \<le> t0 + int i * step" "t0 + int i * step < t + step"
proof -
  let ?q = "(t - t0 + step - 1) div step"
  have q: "0 \<le> ?q"
    using assms by (intro pos_imp_zdiv_nonneg_iff[THEN iffD2]) simp_all
  have "t - t0 + step - 1 = ?q * step + (t - t0 + step - 1) mod step"
    by (rule div_mult_mod_eq[symmetric])
  moreover have "0 \<le> (t - t0 + step - 1) mod step" "(t - t0 + step - 1) mod step < step"
    using assms by simp_all
  ultimately have "t \<le> t0 + ?q * step" "t0 + ?q * step < t + step"
    by linarith+
  then show thesis
    using that[of "nat ?q"] q by simp
qed

end
