(* ===== verification/Response.thy ===== *)
theory Response
  imports Detection Window_Timing
begin

text \<open>
  How runs of the program answer traffic in time. First, the program as the composition of its components: its decisions are those of the risk
  model on the scores of the windows that the specification of the window manager cuts out of the accepted records.
  Second, how soon an attack is answered and how soon the alarm recedes.
\<close>

section \<open>The program as a composition\<close>

abbreviation kept_records :: "(env \<times> raw_packet) list \<Rightarrow> parsed_record list" where
  "kept_records xs \<equiv> List.map_filter kept_record (map snd xs)"

abbreviation prism_spec_add :: "window_spec \<Rightarrow> parsed_record \<Rightarrow> window_spec \<times> window option" where
  "prism_spec_add \<equiv> spec_add (ns_of_ms 5000) (ns_of_ms 1000)"

abbreviation prism_spec :: "parsed_record list \<Rightarrow> window_spec" where
  "prism_spec \<equiv> spec_after (ns_of_ms 5000) (ns_of_ms 1000)"

lemma length_kept_records: "length (kept_records xs) \<le> length xs"
  by (simp add: List.map_filter_def)

lemma manager_after_snoc:
  "manager_after (rs @ [r]) = fst (WindowManager_addRecord (manager_after rs) r no_window)"
  by (simp add: manager_after_def)

lemma manager_simulates: "wm_rel (ns_of_ms 5000) (ns_of_ms 1000) (manager_after rs) (prism_spec rs)"
proof (induction rs rule: rev_induct)
  case Nil
  show ?case
    using wm_rel_new[of 5000 1000] by (simp add: manager_after_def)
next
  case (snoc r rs)
  then show ?case
    using addRecord_simulates(1)[of "ns_of_ms 5000" "ns_of_ms 1000" "manager_after rs" "prism_spec rs" r no_window]
    by (simp add: manager_after_snoc spec_after_snoc ns_of_ms_def)
qed

lemma run_adds:
  "add_to (fst (prism_run ys prism_new)) r =
    (manager_after (kept_records ys @ [r]),
     (case snd (prism_spec_add (prism_spec (kept_records ys)) r) of
        None \<Rightarrow> (current_window (fst (prism_run ys prism_new)), False) | Some w \<Rightarrow> (w, True)))"
proof -
  let ?st = "fst (prism_run ys prism_new)"
  have "snd (add_to ?st r) =
      (case snd (prism_spec_add (prism_spec (kept_records ys)) r) of None \<Rightarrow> (current_window ?st, False) | Some w \<Rightarrow> (w, True))"
    unfolding add_to_def run_manager
    by (rule addRecord_simulates(2)[OF manager_simulates]) (simp add: ns_of_ms_def)
  moreover have "fst (add_to ?st r) = manager_after (kept_records ys @ [r])"
    unfolding add_to_def run_manager manager_after_snoc by (rule addRecord_out(1))
  ultimately show ?thesis
    by (simp add: prod_eq_iff)
qed

text \<open>The window analysed for a packet, in terms of the records accepted before it.\<close>

definition next_window :: "(env \<times> raw_packet) list \<Rightarrow> raw_packet \<Rightarrow> window option" where
  "next_window ys p =
    (case kept_record p of None \<Rightarrow> None
     | Some r \<Rightarrow> (case snd (prism_spec_add (prism_spec (kept_records ys)) r) of None \<Rightarrow> None
         | Some w \<Rightarrow> if records w = [] then None else Some w))"

lemma packet_next_window:
  fixes ys defines "st \<equiv> fst (prism_run ys prism_new)"
  shows "analysed (packet_out en p st) =
    map_option (\<lambda>w. (w, snd (RiskModel_evaluate (riskModel st) (scores (hash en) w)))) (next_window ys p)"
proof (cases "kept_record p")
  case None
  then show ?thesis
    by (simp add: packet_dropped next_window_def)
next
  case (Some r)
  obtain wm win b where a: "add_to st r = (wm, win, b)"
    by (cases "add_to st r")
  show ?thesis
    using Some a packet_kept[OF Some a, of en] run_adds[of ys r]
    by (auto simp: packet_out_def next_window_def no_result_def analyse_parts st_def Let_def split: option.splits)
qed

lemma spec_run_snoc_windows:
  "snd (spec_run wsize step sp (rs @ [r])) =
   snd (spec_run wsize step sp rs) @
   (case snd (spec_add wsize step (fst (spec_run wsize step sp rs)) r) of None \<Rightarrow> [] | Some w \<Rightarrow> [(r, w)])"
proof (induction rs arbitrary: sp)
  case (Cons x rs)
  then show ?case
    unfolding append_Cons spec_run_Cons by simp
qed (simp add: spec_run_Cons)

text \<open>The windows the specification cuts out of the records, without the empty ones.\<close>

definition spec_windows :: "parsed_record list \<Rightarrow> window list" where
  "spec_windows rs = filter (\<lambda>w. records w \<noteq> [])
     (map snd (snd (spec_run (ns_of_ms 5000) (ns_of_ms 1000) \<lparr>history = [], emitted = 0\<rparr> rs)))"

lemma spec_windows_snoc:
  "spec_windows (kept_records (ys @ [x])) =
    spec_windows (kept_records ys) @ (case next_window ys (snd x) of None \<Rightarrow> [] | Some w \<Rightarrow> [w])"
  by (auto simp: map_filter_snoc next_window_def spec_windows_def spec_run_snoc_windows
      spec_after_def split: option.splits)

lemma risk_run_snoc:
  "fst (risk_run m (ds @ [d])) = fst (RiskModel_evaluate (fst (risk_run m ds)) d)"
  "snd (risk_run m (ds @ [d])) = snd (risk_run m ds) @ [snd (RiskModel_evaluate (fst (risk_run m ds)) d)]"
  by (simp_all add: risk_run_append case_prod_unfold Let_def)

lemma length_risk_run: "length (snd (risk_run m ds)) = length ds"
  by (induction ds arbitrary: m) (simp_all add: risk_run_Cons del: risk_run.simps(2))

lemma run_composes:
  assumes "\<forall>x \<in> set xs. hash (fst x) = ord"
  defines "ws \<equiv> spec_windows (kept_records xs)"
  shows "List.map_filter analysed (snd (prism_run xs prism_new)) = zip ws (snd (risk_run risk_init (map (scores ord) ws)))"
    and "riskModel (fst (prism_run xs prism_new)) = fst (risk_run risk_init (map (scores ord) ws))"
proof -
  let ?ws = "\<lambda>xs. spec_windows (kept_records xs)"
  have "List.map_filter analysed (snd (prism_run xs prism_new)) = zip (?ws xs) (snd (risk_run risk_init (map (scores ord) (?ws xs)))) \<and>
    riskModel (fst (prism_run xs prism_new)) = fst (risk_run risk_init (map (scores ord) (?ws xs)))"
    using assms(1)
  proof (induction xs rule: rev_induct)
    case Nil
    show ?case
      by (simp add: prism_new_def spec_windows_def map_filter_simps)
  next
    case (snoc x xs)
    let ?st = "fst (prism_run xs prism_new)" and ?out = "packet_out (fst x) (snd x) (fst (prism_run xs prism_new))"
    have run: "List.map_filter analysed (snd (prism_run (xs @ [x]) prism_new)) =
        List.map_filter analysed (snd (prism_run xs prism_new)) @ (case analysed ?out of None \<Rightarrow> [] | Some a \<Rightarrow> [a])"
      "riskModel (fst (prism_run (xs @ [x]) prism_new)) = riskModel (packet_state (fst x) (snd x) ?st)"
      by (simp_all add: prism_run_append prism_run_Cons map_filter_snoc)
    have IH: "List.map_filter analysed (snd (prism_run xs prism_new)) = zip (?ws xs) (snd (risk_run risk_init (map (scores ord) (?ws xs))))"
      "riskModel ?st = fst (risk_run risk_init (map (scores ord) (?ws xs)))"
      using snoc by simp_all
    show ?case
    proof (cases "next_window xs (snd x)")
      case None
      then have "analysed ?out = None"
        by (simp add: packet_next_window)
      with None IH show ?thesis
        unfolding run spec_windows_snoc using packet_quiet by simp
    next
      case (Some w)
      have h: "hash (fst x) = ord"
        using snoc.prems by simp
      have a: "analysed ?out = Some (w, snd (RiskModel_evaluate (riskModel ?st) (scores ord w)))"
        using Some h by (simp add: packet_next_window)
      have "riskModel (packet_state (fst x) (snd x) ?st) = fst (RiskModel_evaluate (riskModel ?st) (scores ord w))"
        using packet_decision(2)[OF a] h by simp
      with Some a IH show ?thesis
        unfolding run spec_windows_snoc by (simp add: risk_run_snoc length_risk_run)
    qed
  qed
  then show "List.map_filter analysed (snd (prism_run xs prism_new)) = zip ws (snd (risk_run risk_init (map (scores ord) ws)))"
    and "riskModel (fst (prism_run xs prism_new)) = fst (risk_run risk_init (map (scores ord) ws))"
    by (simp_all add: ws_def)
qed

text \<open>With a reachable PLC the engine is locked exactly when some decision was High.\<close>

lemma run_locked:
  assumes "\<forall>x \<in> set xs. net_ok (net (fst x))"
  shows "locked (enforcer (fst (prism_run xs prism_new))) \<longleftrightarrow>
    (\<exists>(w, d) \<in> set (List.map_filter analysed (snd (prism_run xs prism_new))). level d = High)"
  using assms
proof (induction xs rule: rev_induct)
  case Nil
  show ?case
    by (simp add: prism_new_def engine_new_def map_filter_simps)
next
  case (snoc x xs)
  let ?st = "fst (prism_run xs prism_new)" and ?out = "packet_out (fst x) (snd x) (fst (prism_run xs prism_new))"
  have run: "List.map_filter analysed (snd (prism_run (xs @ [x]) prism_new)) =
      List.map_filter analysed (snd (prism_run xs prism_new)) @ (case analysed ?out of None \<Rightarrow> [] | Some a \<Rightarrow> [a])"
    "enforcer (fst (prism_run (xs @ [x]) prism_new)) = enforcer (packet_state (fst x) (snd x) ?st)"
    by (simp_all add: prism_run_append prism_run_Cons map_filter_snoc)
  show ?case
  proof (cases "analysed ?out")
    case None
    then show ?thesis
      using snoc packet_quiet[OF None] unfolding run by simp
  next
    case (Some a)
    obtain w d where wd: "a = (w, d)"
      by fastforce
    note e = packet_decision(3)[OF Some[unfolded wd]] and dd = packet_decision(1)[OF Some[unfolded wd]]
    have "restrictWrites d = (level d = High)"
      unfolding dd evaluate_decision by (simp add: Let_def)
    then have "engages (net (fst x), d) = (level d = High)"
      using snoc.prems by (auto simp: engages_def wants_lock_def)
    then show ?thesis
      using snoc unfolding run e apply_engine_locked by (auto simp: Some wd)
  qed
qed

section \<open>Windows in time\<close>

lemma kept_records_split:
  assumes "kept_records xs = us @ x # vs"
  obtains ys en p zs where "xs = ys @ (en, p) # zs" "kept_records ys = us" "kept_record p = Some x"
  using assms
proof (induction xs arbitrary: us thesis)
  case Nil
  then show ?case by (simp add: map_filter_simps)
next
  case (Cons y xs)
  show ?case
  proof (cases "kept_record (snd y)")
    case None
    then have "kept_records xs = us @ x # vs"
      using Cons.prems(2) by (simp add: map_filter_simps)
    then obtain ys en p zs where "xs = ys @ (en, p) # zs" "kept_records ys = us" "kept_record p = Some x"
      using Cons.IH by blast
    then show ?thesis
      using None Cons.prems(1)[of "y # ys" en p zs] by (simp add: map_filter_simps)
  next
    case (Some r)
    show ?thesis
    proof (cases us)
      case Nil
      then show ?thesis
        using Some Cons.prems(1)[of "[]" "fst y" "snd y" xs] Cons.prems(2) by (simp add: map_filter_simps)
    next
      case us: (Cons u us')
      then have "kept_records xs = us' @ x # vs" "r = u"
        using Some Cons.prems(2) by (simp_all add: map_filter_simps)
      then obtain ys en p zs where "xs = ys @ (en, p) # zs" "kept_records ys = us'" "kept_record p = Some x"
        using Cons.IH by blast
      then show ?thesis
        using Some \<open>r = u\<close> us Cons.prems(1)[of "y # ys" en p zs] by (simp add: map_filter_simps)
    qed
  qed
qed

text \<open>On dense traffic a window that starts within a second after any record's time is analysed within its end and one gap.\<close>

lemma window_in_time:
  assumes gaps: "gaps_le g (kept_records xs)" and g: "0 \<le> g" "g \<le> ns_of_ms 1000"
    and a: "a \<in> set (kept_records xs)" and z: "z \<in> set (kept_records xs)" "rec_timestamp a + ns_of_ms 6000 \<le> rec_timestamp z"
  obtains ys en p zs x s where "xs = ys @ (en, p) # zs" "kept_record p = Some x"
    "rec_timestamp a \<le> s" "s + ns_of_ms 5000 \<le> rec_timestamp a + ns_of_ms 6000"
    "\<forall>u \<in> set (kept_records ys). rec_timestamp u < s + ns_of_ms 5000"
    "s + ns_of_ms 5000 \<le> rec_timestamp x" "rec_timestamp x \<le> s + ns_of_ms 5000 + g"
    "next_window ys p = Some \<lparr>startTime = s, endTime = s + ns_of_ms 5000,
       records = filter (in_window s (s + ns_of_ms 5000)) (kept_records ys @ [x])\<rparr>"
proof -
  let ?rs = "kept_records xs" and ?W = "ns_of_ms 5000"
  have rs: "?rs \<noteq> []"
    using a by auto
  have "rec_timestamp (hd ?rs) \<le> rec_timestamp a"
    using gaps_le_sorted[OF gaps] a rs by (cases ?rs) auto
  then obtain i where i: "rec_timestamp a \<le> rec_timestamp (hd ?rs) + int i * ns_of_ms 1000"
    "rec_timestamp (hd ?rs) + int i * ns_of_ms 1000 < rec_timestamp a + ns_of_ms 1000"
    using grid_start[of "ns_of_ms 1000" "rec_timestamp (hd ?rs)" "rec_timestamp a"] by (auto simp: ns_of_ms_def)
  define s where s: "s = rec_timestamp (hd ?rs) + int i * ns_of_ms 1000"
  have sa: "rec_timestamp a \<le> s" "s + ?W \<le> rec_timestamp a + ns_of_ms 6000"
    using i by (simp_all add: s ns_of_ms_def)
  have W: "0 < ?W" "s + ?W \<le> rec_timestamp z"
    using sa z(2) by (simp_all add: ns_of_ms_def)
  obtain us x vs where d: "?rs = us @ x # vs" "us \<noteq> []" "\<forall>u \<in> set us. rec_timestamp u < s + ?W"
    "s + ?W \<le> rec_timestamp x" "rec_timestamp x \<le> s + ?W + g"
    "snd (prism_spec_add (prism_spec us) x) = Some \<lparr>startTime = s, endTime = s + ?W,
       records = filter (in_window s (s + ?W)) (us @ [x])\<rparr>"
    by (rule dense_emits[OF W(1) g gaps rs s z(1) W(2)])
  have "gaps_le g (us @ [x])"
    using gaps gaps_le_append[of g "us @ [x]" vs] by (simp add: d(1))
  from gaps_le_last[OF this d(2)] have "s \<le> rec_timestamp (last us)"
    using d(4) g(2) by (simp add: ns_of_ms_def)
  moreover have "rec_timestamp (last us) < s + ?W"
    using d(2,3) by simp
  ultimately have "last us \<in> set (filter (in_window s (s + ?W)) (us @ [x]))"
    using d(2) by (simp add: in_window_def)
  then have ne: "filter (in_window s (s + ?W)) (us @ [x]) \<noteq> []"
    by (metis empty_iff empty_set)
  obtain ys en p zs where xs: "xs = ys @ (en, p) # zs" "kept_records ys = us" "kept_record p = Some x"
    using kept_records_split[OF d(1)] .
  have "next_window ys p = Some \<lparr>startTime = s, endTime = s + ?W, records = filter (in_window s (s + ?W)) (kept_records ys @ [x])\<rparr>"
    unfolding next_window_def xs(2,3) option.case d(6) using ne by simp
  then show thesis
    using that[OF xs(1,3) sa] d(3-5) xs(2) by simp
qed

text \<open>Every window analysed holds accepted records, in their order.\<close>

lemma next_window_records:
  assumes "next_window ys p = Some w" and "gaps_le g (kept_records (ys @ [(en, p)]))"
  obtains rec where "kept_record p = Some rec" "records w \<noteq> []"
    "records w = filter (in_window (startTime w) (endTime w)) (kept_records (ys @ [(en, p)]))"
proof -
  obtain rec where r: "kept_record p = Some rec" "snd (prism_spec_add (prism_spec (kept_records ys)) rec) = Some w" "records w \<noteq> []"
    using assms(1) by (auto simp: next_window_def split: option.splits if_splits)
  have k: "kept_records (ys @ [(en, p)]) = kept_records ys @ [rec]"
    using r(1) by (simp add: map_filter_snoc)
  have "sorted (map rec_timestamp (kept_records ys))"
    using gaps_le_sorted[OF assms(2)] unfolding k by (simp add: sorted_append)
  then have "history (prism_spec (kept_records ys)) = kept_records ys"
    by (rule spec_after_history)
  then have "records w = filter (in_window (startTime w) (endTime w)) (kept_records (ys @ [(en, p)]))"
    using r(2) unfolding k by (cases rule: spec_add_cases[of "ns_of_ms 5000" "ns_of_ms 1000" "prism_spec (kept_records ys)" rec]) auto
  with r that show thesis
    by blast
qed

section \<open>One decision of a run\<close>

lemma packet_scored:
  assumes "next_window ys p = Some w"
  defines "st \<equiv> fst (prism_run ys prism_new)"
  obtains d where "analysed (packet_out en p st) = Some (w, d)" "window_ok (ns_of_ms 5000) w" "records w \<noteq> []"
    "d = snd (RiskModel_evaluate (riskModel st) (scores (hash en) w))"
    "riskModel (packet_state en p st) = fst (RiskModel_evaluate (riskModel st) (scores (hash en) w))"
proof -
  let ?d = "snd (RiskModel_evaluate (riskModel st) (scores (hash en) w))"
  have a: "analysed (packet_out en p st) = Some (w, ?d)"
    using assms(1) by (simp add: packet_next_window st_def)
  obtain rec wm where "add_to st rec = (wm, w, True)" "records w \<noteq> []"
    by (rule packet_analysed[OF a])
  moreover from this have "window_ok (ns_of_ms 5000) w"
    using prism_ok_window[OF prism_ok_run[OF prism_ok_new]] by (simp add: st_def)
  ultimately show thesis
    using that[OF a] packet_decision(2)[OF a] by blast
qed

lemma next_window_small:
  assumes "next_window ys p = Some w" and "gaps_le g (kept_records (ys @ [(en, p)]))"
    and "length (ys @ [(en, p)]) * 25 < 2 ^ 53"
  shows "length (records w) * 25 < 2 ^ 53"
proof -
  have "length (records w) \<le> length (kept_records (ys @ [(en, p)]))"
    using next_window_records[OF assms(1,2)] by (metis length_filter_le)
  also have "\<dots> \<le> length (ys @ [(en, p)])"
    by (rule length_kept_records)
  finally show ?thesis
    using assms(3) by linarith
qed

text \<open>A window of quiet records is decided Low and turns the flag off, whatever came before.\<close>

lemma quiet_window:
  assumes w: "next_window ys p = Some w" and ord: "hash_order_ok (hash en)"
    and gaps: "gaps_le 250000000 (kept_records (ys @ [(en, p)]))" and n: "length (ys @ [(en, p)]) * 25 < 2 ^ 53"
    and quiet: "\<forall>r \<in> set (kept_records (ys @ [(en, p)])). startTime w \<le> rec_timestamp r \<longrightarrow> \<not> isWrite r"
    and d: "analysed (packet_out en p (fst (prism_run ys prism_new))) = Some (w', d)"
  shows "level d = Low \<and> \<not> isOn (riskModel (packet_state en p (fst (prism_run ys prism_new))))"
proof -
  let ?st = "fst (prism_run ys prism_new)"
  obtain d' where d': "analysed (packet_out en p ?st) = Some (w, d')" "window_ok (ns_of_ms 5000) w" "records w \<noteq> []"
    "d' = snd (RiskModel_evaluate (riskModel ?st) (scores (hash en) w))"
    "riskModel (packet_state en p ?st) = fst (RiskModel_evaluate (riskModel ?st) (scores (hash en) w))"
    using packet_scored[OF w] .
  have r: "records w = filter (in_window (startTime w) (endTime w)) (kept_records (ys @ [(en, p)]))"
    by (rule next_window_records[OF w gaps])
  have "\<forall>r \<in> set (records w). \<not> isWrite r" "gaps_le 250000000 (records w)"
    using quiet gaps_le_interval[OF gaps] unfolding r by (auto simp: in_window_def)
  then have s: "hstScore (scores (hash en) w) \<le> 5 / 2 \<and> burstScore (scores (hash en) w) \<le> 5 / 2"
    using scores_quiet[OF ord d'(2,3) next_window_small[OF w gaps n]] by blast
  then have p: "risk_probability (scores (hash en) w) \<le> 1 / 4"
    by (intro risk_probability_low) auto
  then have "\<not> next_on (isOn (riskModel ?st)) (risk_probability (scores (hash en) w))"
    using tauOn_gt_half by (auto simp: next_on_cases)
  moreover have "d = d'"
    using d d'(1) by simp
  ultimately show ?thesis
    using p threshold_bounds(3) by (auto simp: d'(4,5) evaluate_state evaluate_decision Let_def)
qed

section \<open>Steady traffic, for concrete runs\<close>

definition steady :: "u8 \<Rightarrow> timestamp list \<Rightarrow> (env \<times> raw_packet) list" where
  "steady fc ts = map (\<lambda>t. (good_env, modbus_packet t fc 10)) ts"

lemma kept_steady: "kept_records (steady fc ts) = map (\<lambda>t. sample_record t (fc \<in> {5, 6, 15, 16}) fc 10) ts"
  by (induction ts) (simp_all add: steady_def map_filter_simps kept_modbus sample_record_def)

lemma steady_env: "x \<in> set (steady fc ts) \<Longrightarrow> hash_order_ok (hash (fst x)) \<and> net_ok (net (fst x)) \<and> hash (fst x) = insertion_order"
  by (auto simp: steady_def good_env_def insertion_order_ok net_ok_def net_good_def)

lemma length_steady [simp]: "length (steady fc ts) = length ts"
  by (simp add: steady_def)

section \<open>Properties\<close>

text \<open>
  Traffic is an attack from a time on if every stretch of five seconds that starts after it and that the traffic has covered consists of at
  least a third of writes, seen at any moment.
\<close>

definition under_attack :: "timestamp \<Rightarrow> parsed_record list \<Rightarrow> bool" where
  "under_attack t rs \<longleftrightarrow>
    (\<forall>us vs s. rs = us @ vs \<and> t \<le> s \<and> (\<exists>u \<in> set us. s + ns_of_ms 5000 \<le> rec_timestamp u) \<longrightarrow>
      (let ws = filter (in_window s (s + ns_of_ms 5000)) us in length ws \<le> 3 * length (filter isWrite ws)))"

lemma only_writes_attack: "\<forall>r \<in> set rs. t \<le> rec_timestamp r \<longrightarrow> isWrite r \<Longrightarrow> under_attack t rs"
proof -
  assume w: "\<forall>r \<in> set rs. t \<le> rec_timestamp r \<longrightarrow> isWrite r"
  have "filter isWrite (filter (in_window s e) us) = filter (in_window s e) us" if "rs = us @ vs" "t \<le> s" for us vs s e
    using w that by (intro filter_True) (auto simp: in_window_def)
  then show ?thesis
    by (auto simp: under_attack_def Let_def)
qed

lemma attack_answered:
  assumes "\<forall>x \<in> set xs. hash_order_ok (hash (fst x)) \<and> net_ok (net (fst x))" and "length xs * 25 < 2 ^ 53"
    and "gaps_le g (kept_records xs)" and "0 \<le> g" and "g \<le> ns_of_ms 1000"
    and "a \<in> set (kept_records xs)" and "under_attack (rec_timestamp a) (kept_records xs)"
    and "z \<in> set (kept_records xs)" and "rec_timestamp a + ns_of_ms 6000 \<le> rec_timestamp z"
  shows "\<exists>ys zs. xs = ys @ zs \<and>
    (\<forall>r \<in> set (kept_records ys). rec_timestamp r \<le> rec_timestamp a + ns_of_ms 6000 + g) \<and>
    (\<exists>r \<in> set (snd (prism_run ys prism_new)). \<exists>w d. analysed r = Some (w, d) \<and> level d = High \<and>
       rec_timestamp a \<le> startTime w) \<and>
    locked (enforcer (fst (prism_run ys prism_new)))"
proof -
  obtain ys en p zs x s where xs: "xs = ys @ (en, p) # zs" "kept_record p = Some x"
    and s: "rec_timestamp a \<le> s" "s + ns_of_ms 5000 \<le> rec_timestamp a + ns_of_ms 6000"
    and u: "\<forall>u \<in> set (kept_records ys). rec_timestamp u < s + ns_of_ms 5000"
    and x: "s + ns_of_ms 5000 \<le> rec_timestamp x" "rec_timestamp x \<le> s + ns_of_ms 5000 + g"
    and w: "next_window ys p = Some \<lparr>startTime = s, endTime = s + ns_of_ms 5000,
       records = filter (in_window s (s + ns_of_ms 5000)) (kept_records ys @ [x])\<rparr>" (is "_ = Some ?w")
    by (rule window_in_time[OF assms(3-6,8,9)])
  let ?st = "fst (prism_run ys prism_new)"
  have k: "kept_records xs = (kept_records ys @ [x]) @ kept_records zs"
    using xs(2) by (simp add: xs(1) map_filter_append map_filter_simps)
  have k': "kept_records (ys @ [(en, p)]) = kept_records ys @ [x]"
    using xs(2) by (simp add: map_filter_snoc)
  have ord: "hash_order_ok (hash en)" "net_ok (net en)"
    using assms(1) xs(1) by force+
  have third: "length (records ?w) \<le> 3 * length (filter isWrite (records ?w))"
    using assms(7) k s(1) x(1) unfolding under_attack_def Let_def window.select_convs
    by (meson in_set_conv_decomp)
  have gaps: "gaps_le g (kept_records (ys @ [(en, p)]))"
    using assms(3) gaps_le_append unfolding k k' by blast
  obtain d where d: "analysed (packet_out en p ?st) = Some (?w, d)" "window_ok (ns_of_ms 5000) ?w" "records ?w \<noteq> []"
    using packet_scored[OF w] .
  have "16 \<le> hstScore (scores (hash en) ?w)"
    using assms(2) by (intro scores_writes[OF ord(1) d(2,3) _ third] next_window_small[OF w gaps]) (simp add: xs(1))
  then have "level d = High" "locked (enforcer (packet_state en p ?st))"
    using high_decision_locks[OF d(1)] ord(2) by blast+
  moreover have "packet_out en p ?st \<in> set (snd (prism_run (ys @ [(en, p)]) prism_new))"
    "fst (prism_run (ys @ [(en, p)]) prism_new) = packet_state en p ?st"
    by (simp_all add: prism_run_append prism_run_Cons)
  moreover have "\<forall>r \<in> set (kept_records (ys @ [(en, p)])). rec_timestamp r \<le> rec_timestamp a + ns_of_ms 6000 + g"
    using u x s assms(4) unfolding k' by fastforce
  ultimately show ?thesis
    using d(1) s(1) xs(1) by (intro exI[of _ "ys @ [(en, p)]"] exI[of _ zs]) (auto intro!: bexI[of _ "packet_out en p ?st"])
qed

text \<open>
  C2. An attack is answered in time. Let records arrive in order with gaps of at most g, at most one second, and let
  the traffic be an attack from some record on, lasting for six seconds. Then, whatever came before, at the latest six seconds
  and one gap after that record a window that starts in the attack has been decided High and the lock is engaged.
\<close>

theorem attack_answered_in_time:
  assumes "\<forall>x \<in> set xs. hash_order_ok (hash (fst x)) \<and> net_ok (net (fst x))" and "length xs * 25 < 2 ^ 53"
    and "gaps_le g (kept_records xs)" and "0 \<le> g" and "g \<le> ns_of_ms 1000"
    and "a \<in> set (kept_records xs)" and "under_attack (rec_timestamp a) (kept_records xs)"
    and "z \<in> set (kept_records xs)" and "rec_timestamp a + ns_of_ms 6000 \<le> rec_timestamp z"
  shows "\<exists>ys zs. xs = ys @ zs \<and>
    (\<forall>r \<in> set (kept_records ys). rec_timestamp r \<le> rec_timestamp a + ns_of_ms 6000 + g) \<and>
    (\<exists>r \<in> set (snd (prism_run ys prism_new)). \<exists>w d. analysed r = Some (w, d) \<and> level d = High \<and>
       rec_timestamp a \<le> startTime w) \<and>
    locked (enforcer (fst (prism_run ys prism_new)))"
  by (rule attack_answered[OF assms])

definition flood_times :: "timestamp list" where
  "flood_times = map seconds [0, 1, 2, 3, 4, 5, 6, 7, 8]"

theorem attack_answered_in_time_witness:
  "\<exists>n \<le> 8. locked (enforcer (fst (prism_run (take n (steady 5 flood_times)) prism_new)))"
proof -
  let ?xs = "steady 5 flood_times" and ?r = "\<lambda>t. sample_record t True 5 10"
  have k: "kept_records ?xs = map ?r flood_times"
    by (simp add: kept_steady)
  have t: "flood_times = [0, 1000000000, 2000000000, 3000000000, 4000000000, 5000000000, 6000000000, 7000000000, 8000000000]"
    by (simp add: flood_times_def seconds_def)
  have env: "\<forall>x \<in> set ?xs. hash_order_ok (hash (fst x)) \<and> net_ok (net (fst x))"
    using steady_env by blast
  have n: "length ?xs * 25 < 2 ^ 53"
    by (simp add: t)
  have gaps: "gaps_le 1000000000 (kept_records ?xs)" "(0 :: int) \<le> 1000000000" "1000000000 \<le> ns_of_ms 1000"
    unfolding k by (simp_all add: t sample_record_def ns_of_ms_def)
  have a: "?r 0 \<in> set (kept_records ?xs)" "?r 6000000000 \<in> set (kept_records ?xs)"
    unfolding k by (simp_all add: t)
  have u: "under_attack (rec_timestamp (?r 0)) (kept_records ?xs)"
    by (rule only_writes_attack) (simp add: k sample_record_def)
  have z: "rec_timestamp (?r 0) + ns_of_ms 6000 \<le> rec_timestamp (?r 6000000000)"
    by (simp add: sample_record_def ns_of_ms_def)
  obtain ys zs where d: "?xs = ys @ zs"
    "\<forall>r \<in> set (kept_records ys). rec_timestamp r \<le> rec_timestamp (?r 0) + ns_of_ms 6000 + 1000000000"
    "locked (enforcer (fst (prism_run ys prism_new)))"
    using attack_answered_in_time[OF env n gaps a(1) u a(2) z] by blast
  have "zs \<noteq> []"
  proof
    assume "zs = []"
    then have "?r 8000000000 \<in> set (kept_records ys)"
      using d(1) k by (simp add: t)
    with d(2) have "rec_timestamp (?r 8000000000) \<le> rec_timestamp (?r 0) + ns_of_ms 6000 + 1000000000"
      by blast
    then show False
      by (simp add: sample_record_def ns_of_ms_def)
  qed
  moreover have "length ys + length zs = 9"
    using arg_cong[OF d(1), of length] by (simp add: t)
  ultimately have "length ys \<le> 8"
    by (cases zs) auto
  with d show ?thesis
    by (intro exI[of _ "length ys"]) simp
qed

text \<open>The hypotheses on a run, read off for a packet of it.\<close>

lemma run_prefix:
  assumes "xs = ys @ (en, p) # zs" and "\<forall>x \<in> set xs. hash_order_ok (hash (fst x))" and "length xs * 25 < 2 ^ 53"
    and "gaps_le (ns_of_ms 250) (kept_records xs)"
  shows "gaps_le 250000000 (kept_records (ys @ [(en, p)]))" and "length (ys @ [(en, p)]) * 25 < 2 ^ 53"
    and "hash_order_ok (hash en)" and "set (kept_records (ys @ [(en, p)])) \<subseteq> set (kept_records xs)"
proof -
  have k: "kept_records xs = kept_records (ys @ [(en, p)]) @ kept_records zs"
    by (simp add: assms(1) map_filter_append map_filter_simps split: option.split)
  have "ns_of_ms 250 = 250000000"
    by (simp add: ns_of_ms_def)
  then show "gaps_le 250000000 (kept_records (ys @ [(en, p)]))"
    using assms(4) gaps_le_append[of _ "kept_records (ys @ [(en, p)])"] by (simp only: k)
  show "length (ys @ [(en, p)]) * 25 < 2 ^ 53" "hash_order_ok (hash en)"
    using assms(2,3) by (simp_all add: assms(1))
  show "set (kept_records (ys @ [(en, p)])) \<subseteq> set (kept_records xs)"
    by (simp only: k set_append Un_upper1)
qed

lemma calm_window:
  assumes "\<forall>x \<in> set xs. hash_order_ok (hash (fst x))" and "length xs * 25 < 2 ^ 53"
    and "gaps_le (ns_of_ms 250) (kept_records xs)"
    and "\<forall>r \<in> set (kept_records xs). t \<le> rec_timestamp r \<longrightarrow> \<not> isWrite r"
    and "xs = ys @ (en, p) # zs" and "t \<le> startTime w"
    and "analysed (packet_out en p (fst (prism_run ys prism_new))) = Some (w, d)"
  shows "level d = Low" and "\<not> isOn (riskModel (fst (prism_run (ys @ [(en, p)]) prism_new)))"
proof -
  note pr = run_prefix[OF assms(5,1,2,3)]
  have w: "next_window ys p = Some w"
    using assms(7) by (auto simp: packet_next_window)
  have "\<forall>r \<in> set (kept_records (ys @ [(en, p)])). startTime w \<le> rec_timestamp r \<longrightarrow> \<not> isWrite r"
    using pr(4) assms(4,6) by (meson order_trans subsetD)
  from quiet_window[OF w pr(3,1,2) this assms(7)]
  show "level d = Low" "\<not> isOn (riskModel (fst (prism_run (ys @ [(en, p)]) prism_new)))"
    by (simp_all add: prism_run_append prism_run_Cons)
qed

lemma calm_flag_off:
  assumes "\<forall>x \<in> set xs. hash_order_ok (hash (fst x))" and "length xs * 25 < 2 ^ 53"
    and "gaps_le (ns_of_ms 250) (kept_records xs)"
    and "\<forall>r \<in> set (kept_records xs). rec_timestamp a \<le> rec_timestamp r \<longrightarrow> \<not> isWrite r"
    and "a \<in> set (kept_records xs)" and "z \<in> set (kept_records xs)" "rec_timestamp a + ns_of_ms 6000 \<le> rec_timestamp z"
  shows "\<exists>ys zs. xs = ys @ zs \<and> (\<forall>r \<in> set (kept_records ys). rec_timestamp r \<le> rec_timestamp a + ns_of_ms 6250) \<and>
    \<not> isOn (riskModel (fst (prism_run ys prism_new)))"
proof -
  obtain ys en p zs x s where xs: "xs = ys @ (en, p) # zs" "kept_record p = Some x"
    and s: "rec_timestamp a \<le> s" "s + ns_of_ms 5000 \<le> rec_timestamp a + ns_of_ms 6000"
    and u: "\<forall>u \<in> set (kept_records ys). rec_timestamp u < s + ns_of_ms 5000" "rec_timestamp x \<le> s + ns_of_ms 5000 + ns_of_ms 250"
    and w: "next_window ys p = Some \<lparr>startTime = s, endTime = s + ns_of_ms 5000,
       records = filter (in_window s (s + ns_of_ms 5000)) (kept_records ys @ [x])\<rparr>" (is "_ = Some ?w")
    by (rule window_in_time[OF assms(3) _ _ assms(5,6,7)]) (simp_all add: ns_of_ms_def)
  obtain d where d: "analysed (packet_out en p (fst (prism_run ys prism_new))) = Some (?w, d)"
    using packet_scored[OF w] .
  have "\<not> isOn (riskModel (fst (prism_run (ys @ [(en, p)]) prism_new)))"
    using s(1) by (intro calm_window(2)[OF assms(1-4) xs(1) _ d]) simp
  moreover have "\<forall>r \<in> set (kept_records (ys @ [(en, p)])). rec_timestamp r \<le> rec_timestamp a + ns_of_ms 6250"
    using u s xs(2) by (fastforce simp: map_filter_snoc ns_of_ms_def)
  ultimately show ?thesis
    using xs(1) by (intro exI[of _ "ys @ [(en, p)]"] exI[of _ zs]) simp
qed

text \<open>
  C9. The alarm recedes in time. Let records arrive in order with gaps of at most a quarter of a second, none of
  them a write from some record on. Then every window that starts after that record is decided Low, and if the
  traffic lasts for six seconds the flag of the risk model is off at the latest six and a quarter seconds
  after that record, whatever came before; but a lock that was engaged stays engaged.
\<close>

theorem alarm_recedes_in_time:
  assumes "\<forall>x \<in> set xs. hash_order_ok (hash (fst x))" and "length xs * 25 < 2 ^ 53"
    and "gaps_le (ns_of_ms 250) (kept_records xs)"
    and "a \<in> set (kept_records xs)" and "\<forall>r \<in> set (kept_records xs). rec_timestamp a \<le> rec_timestamp r \<longrightarrow> \<not> isWrite r"
  shows "(\<forall>r \<in> set (snd (prism_run xs prism_new)). \<forall>w d. analysed r = Some (w, d) \<and> rec_timestamp a \<le> startTime w \<longrightarrow> level d = Low) \<and>
    (\<forall>z \<in> set (kept_records xs). rec_timestamp a + ns_of_ms 6000 \<le> rec_timestamp z \<longrightarrow>
      (\<exists>ys zs. xs = ys @ zs \<and>
        (\<forall>r \<in> set (kept_records ys). rec_timestamp r \<le> rec_timestamp a + ns_of_ms 6250) \<and>
        \<not> isOn (riskModel (fst (prism_run ys prism_new))))) \<and>
    (\<forall>ys zs. xs = ys @ zs \<and> locked (enforcer (fst (prism_run ys prism_new))) \<longrightarrow>
      locked (enforcer (fst (prism_run xs prism_new))))"
proof (intro conjI ballI allI impI)
  show "level d = Low" if r: "r \<in> set (snd (prism_run xs prism_new))"
    and an: "analysed r = Some (w, d) \<and> rec_timestamp a \<le> startTime w" for r w d
  proof -
    obtain ys x zs where x: "xs = ys @ x # zs" "r = packet_out (fst x) (snd x) (fst (prism_run ys prism_new))"
      using run_result[OF r] by blast
    from x(1) have "xs = ys @ (fst x, snd x) # zs"
      by simp
    from calm_window(1)[OF assms(1-3,5) this] an show ?thesis
      unfolding x(2) by blast
  qed
  show "\<exists>ys zs. xs = ys @ zs \<and> (\<forall>r \<in> set (kept_records ys). rec_timestamp r \<le> rec_timestamp a + ns_of_ms 6250) \<and>
      \<not> isOn (riskModel (fst (prism_run ys prism_new)))"
    if "z \<in> set (kept_records xs)" "rec_timestamp a + ns_of_ms 6000 \<le> rec_timestamp z" for z
    using calm_flag_off[OF assms(1-3,5,4) that] .
  show "locked (enforcer (fst (prism_run xs prism_new)))"
    if "xs = ys @ zs \<and> locked (enforcer (fst (prism_run ys prism_new)))" for ys zs
    using that prism_lock.held_fold[of "fst (prism_run ys prism_new)" zs] by (auto simp: prism_run_fold)
qed

definition calm_times :: "timestamp list" where
  "calm_times = map (\<lambda>i. i * 250000000) [1, 2, 3, 4, 5, 6, 7, 8, 9, 10, 11, 12, 13, 14, 15, 16, 17, 18, 19, 20, 21, 22, 23, 24, 25]"

theorem alarm_recedes_in_time_witness:
  "\<exists>ys zs. steady 5 [0] @ steady 3 calm_times = ys @ zs \<and> \<not> isOn (riskModel (fst (prism_run ys prism_new)))"
proof -
  let ?xs = "steady 5 [0] @ steady 3 calm_times" and ?w = "sample_record 0 True 5 10" and ?r = "\<lambda>t. sample_record t False 3 10"
  have k: "kept_records ?xs = ?w # map ?r calm_times"
    using kept_steady[of 5 "[0]"] kept_steady[of 3 calm_times] by (simp add: map_filter_append)
  have env: "\<forall>x \<in> set ?xs. hash_order_ok (hash (fst x))"
    using steady_env by auto
  have n: "length ?xs * 25 < 2 ^ 53"
    by (simp add: calm_times_def)
  have gaps: "gaps_le (ns_of_ms 250) (kept_records ?xs)"
    unfolding k by (simp add: calm_times_def sample_record_def ns_of_ms_def)
  have a: "?r 250000000 \<in> set (kept_records ?xs)" "?r 6250000000 \<in> set (kept_records ?xs)"
    unfolding k by (simp_all add: calm_times_def)
  have q: "\<forall>r \<in> set (kept_records ?xs). rec_timestamp (?r 250000000) \<le> rec_timestamp r \<longrightarrow> \<not> isWrite r"
    unfolding k by (simp add: sample_record_def)
  have "rec_timestamp (?r 250000000) + ns_of_ms 6000 \<le> rec_timestamp (?r 6250000000)"
    by (simp add: sample_record_def ns_of_ms_def)
  with alarm_recedes_in_time[OF env n gaps a(1) q] a(2) show ?thesis
    by blast
qed

text \<open>
  C4. The program is the composition of its components. Over any run from the start, in which the hash maps iterate in a fixed way, the windows
  analysed are the windows that the specification of the window manager cuts out of the whole history of accepted
  records, without the empty ones; the decisions are those of one run of a fresh risk model on their scores; and if the PLC can be
  reached the engine is locked at the end exactly when some decision was High.
\<close>

theorem program_composes:
  assumes "\<forall>x \<in> set xs. hash (fst x) = ord \<and> net_ok (net (fst x))"
  shows "let ws = filter (\<lambda>w. records w \<noteq> [])
           (map snd (snd (spec_run (ns_of_ms 5000) (ns_of_ms 1000) \<lparr>history = [], emitted = 0\<rparr> (kept_records xs))));
         ds = snd (risk_run risk_init (map (scores ord) ws))
     in List.map_filter analysed (snd (prism_run xs prism_new)) = zip ws ds \<and>
        locked (enforcer (fst (prism_run xs prism_new))) = (High \<in> level ` set ds)"
proof -
  let ?ws = "spec_windows (kept_records xs)"
  let ?ds = "snd (risk_run risk_init (map (scores ord) ?ws))"
  have c: "List.map_filter analysed (snd (prism_run xs prism_new)) = zip ?ws ?ds"
    using run_composes(1)[of xs ord] assms by simp
  have "locked (enforcer (fst (prism_run xs prism_new))) = (\<exists>(w, d) \<in> set (zip ?ws ?ds). level d = High)"
    using run_locked[of xs] assms unfolding c by simp
  also have "\<dots> = (\<exists>d \<in> snd ` set (zip ?ws ?ds). level d = High)"
    by (simp add: case_prod_unfold)
  also have "snd ` set (zip ?ws ?ds) = set ?ds"
    by (simp add: length_risk_run flip: set_map)
  finally show ?thesis
    using c unfolding Let_def spec_windows_def by force
qed

theorem program_composes_witness:
  "let ws = filter (\<lambda>w. records w \<noteq> [])
           (map snd (snd (spec_run (ns_of_ms 5000) (ns_of_ms 1000) \<lparr>history = [], emitted = 0\<rparr> (kept_records (steady 5 [0, seconds 6])))))
   in List.map_filter analysed (snd (prism_run (steady 5 [0, seconds 6]) prism_new)) =
      zip ws (snd (risk_run risk_init (map (scores insertion_order) ws)))"
proof -
  have "\<forall>x \<in> set (steady 5 [0, seconds 6]). hash (fst x) = insertion_order \<and> net_ok (net (fst x))"
    using steady_env by blast
  from program_composes[OF this] show ?thesis
    unfolding Let_def by blast
qed

end
