(* ===== verification/Run_State.thy ===== *)
theory Run_State
  imports Response
begin

text \<open>
  The well-typedness of the program's state in every run: the constants of the window manager, the order of its buffer, and where the records in
  buffer and window come from.
\<close>

section \<open>Well-typed state\<close>

text \<open>
  What a record may look like: one of the three protocol names, and a write flag that agrees with the function code as the protocol
  defines it.
\<close>

definition record_typed :: "parsed_record \<Rightarrow> bool" where
  "record_typed r \<longleftrightarrow>
     protocol r = ''Modbus'' \<and> isWrite r = (functionCode r \<in> {5, 6, 15, 16}) \<or>
     protocol r = ''DNP3'' \<and> isWrite r = (functionCode r \<in> {2, 5, 6, 0x82}) \<and> address r = 0 \<or>
     protocol r = ''IEC104'' \<and> isWrite r = (45 \<le> functionCode r \<and> functionCode r \<le> 50) \<and> functionCode r \<noteq> 0"

lemma kept_record_typed:
  assumes "kept_record p = Some r" shows "record_typed r" "rec_timestamp r = pkt_timestamp p"
proof -
  have c: "classify_protocol p \<noteq> UNKNOWN" "r = parse_by (classify_protocol p) p" "\<not> record_discarded r"
    using assms by (auto simp: kept_record_def Let_def split: if_splits)
  have "record_typed r \<and> rec_timestamp r = pkt_timestamp p"
  proof (cases "classify_protocol p")
    case UNKNOWN
    with c(1) show ?thesis by blast
  next
    case MODBUS
    then have "r = ModbusParser_parse p"
      using c(2) by (simp add: parse_by_def)
    moreover from this have "modbus_accepts p"
      using c(3) modbus.discarded_iff by blast
    ultimately show ?thesis
      by (simp add: modbus_fields record_typed_def)
  next
    case DNP3
    then have r: "r = DNP3Parser_parse p" and pt: "srcPort p = 20000 \<or> dstPort p = 20000"
      using c(2) by (auto simp: parse_by_def classify_protocol_def split: if_splits)
    then have "13 \<le> length (payload p)"
      using c(3) dnp3.discarded_iff by (auto simp: dnp3_accepts_def)
    from dnp3_fields[OF this pt] show ?thesis
      by (simp add: r record_typed_def)
  next
    case IEC104
    then have "r = IEC104Parser_parse p"
      using c(2) by (simp add: parse_by_def)
    moreover from this have "iec104_accepts p"
      using c(3) iec104.discarded_iff by blast
    ultimately show ?thesis
      by (simp add: iec104_fields record_typed_def) (simp add: iec104_accepts_def)
  qed
  then show "record_typed r" "rec_timestamp r = pkt_timestamp p"
    by blast+
qed

lemma kept_records_typed:
  assumes "r \<in> set (kept_records xs)"
  shows "record_typed r \<and> (\<exists>(en, p) \<in> set xs. kept_record p = Some r \<and> rec_timestamp r = pkt_timestamp p)"
proof -
  obtain en p where p: "(en, p) \<in> set xs" "kept_record p = Some r"
    using assms by (auto simp: List.map_filter_def)
  with kept_record_typed[OF p(2)] show ?thesis
    by blast
qed

lemma spec_after_subset: "set (history (spec_after wsize step rs)) \<subseteq> set rs"
proof (induction rs rule: rev_induct)
  case (snoc r rs)
  then show ?case
    unfolding spec_after_snoc by (cases rule: spec_add_cases[of wsize step "spec_after wsize step rs" r]) auto
qed simp

lemma buffer_subset: "set (buffer (manager_after rs)) \<subseteq> set rs"
proof -
  have "set (buffer (manager_after rs)) \<subseteq> set (history (prism_spec rs))"
    using manager_simulates[of rs] by (auto simp: wm_rel_def split: if_splits)
  then show ?thesis
    using spec_after_subset by blast
qed

lemma current_window_subset:
  "set (records (current_window (fst (prism_run xs prism_new)))) \<subseteq> set (kept_records xs)"
proof (induction xs rule: rev_induct)
  case Nil
  show ?case by (simp add: prism_new_def)
next
  case (snoc x xs)
  let ?st = "fst (prism_run xs prism_new)"
  have run: "fst (prism_run (xs @ [x]) prism_new) = packet_state (fst x) (snd x) ?st"
    by (simp add: prism_run_append prism_run_Cons)
  show ?case
  proof (cases "kept_record (snd x)")
    case None
    then show ?thesis
      using snoc by (simp add: run packet_dropped map_filter_snoc)
  next
    case (Some r)
    obtain wm w b where a: "add_to ?st r = (wm, w, b)"
      by (cases "add_to ?st r")
    have cw: "current_window (packet_state (fst x) (snd x) ?st) = w"
      using packet_kept[OF Some a, of "fst x"] by (simp add: packet_state_def analyse_parts Let_def)
    have "set (records w) \<subseteq> insert r (set (kept_records xs))"
    proof (cases "b = True")
      case True
      have "records w = filter (in_window (startTime w) (endTime w)) (buffer (manager_after (kept_records xs)) @ [r])"
        using addRecord_emitted(4) a unfolding True add_to_def run_manager by blast
      then show ?thesis
        using buffer_subset[of "kept_records xs"] by auto
    next
      case False
      then have "add_to ?st r = (wm, w, False)"
        using a by simp
      then have "w = current_window ?st"
        using addRecord_silent unfolding add_to_def by blast
      then show ?thesis
        using snoc by auto
    qed
    then show ?thesis
      using Some by (simp add: run cw map_filter_snoc)
  qed
qed

text \<open>
  C16. The state of the program is well typed. After any run from the start the window manager has its two
  constants, and the buffer is in time order; every record in the buffer and in the current window carries the
  time stamp of a captured packet that was parsed to it, one of the three protocol names, and a write flag that agrees
  with its function code under that protocol (DNP3 records all have address 0).
\<close>

theorem run_state_well_typed:
  "let st = fst (prism_run xs prism_new) in
     windowSize (windowManager st) = 5 * 10 ^ 9 \<and> stepSize (windowManager st) = 10 ^ 9 \<and>
     sorted (map rec_timestamp (buffer (windowManager st))) \<and>
     (\<forall>r \<in> set (buffer (windowManager st)) \<union> set (records (current_window st)).
        record_typed r \<and> (\<exists>(en, p) \<in> set xs. kept_record p = Some r \<and> rec_timestamp r = pkt_timestamp p))"
proof -
  let ?st = "fst (prism_run xs prism_new)"
  have wm: "windowManager ?st = manager_after (kept_records xs)"
    by (rule run_manager)
  have "windowSize (windowManager ?st) = 5 * 10 ^ 9" "stepSize (windowManager ?st) = 10 ^ 9"
    using manager_simulates[of "kept_records xs"] by (simp_all add: wm wm_rel_def ns_of_ms_def)
  moreover have "sorted (map rec_timestamp (buffer (windowManager ?st)))"
    using prism_ok_run[OF prism_ok_new, of xs] by (simp add: prism_ok_def wm_inv_def)
  moreover have "set (buffer (windowManager ?st)) \<union> set (records (current_window ?st)) \<subseteq> set (kept_records xs)"
    using buffer_subset current_window_subset by (simp add: wm)
  ultimately show ?thesis
    using kept_records_typed unfolding Let_def by blast
qed

theorem run_state_well_typed_witness:
  "\<exists>r. buffer (windowManager (fst (prism_run (steady 5 [7]) prism_new))) = [r] \<and> record_typed r \<and> rec_timestamp r = 7"
proof -
  let ?st = "fst (prism_run (steady 5 [7]) prism_new)"
  have "buffer (windowManager ?st) = [sample_record 7 True 5 10]"
    unfolding run_manager kept_steady by code_simp
  moreover from this have "record_typed (sample_record 7 True 5 10)"
    using run_state_well_typed[of "steady 5 [7]"] by (simp add: Let_def)
  ultimately show ?thesis
    by (simp add: sample_record_def)
qed

end
