(* ===== verification/Capture.thy ===== *)
theory Capture
  imports Prism_Types Format
begin

text \<open>
  Packet capture, \<^verbatim>\<open>capture/pcap.cpp\<close>. libpcap is a parameter: a frame is the length the header
  claims, \<^verbatim>\<open>header->len\<close>, and the bytes captured, which may be fewer. Reading past them is the error
  \<^verbatim>\<open>Out_of_bounds\<close>.

  The life cycle of the handle is a step relation over two threads: the main thread, which captures until
  told to stop and then runs the destructor, and the signal watcher of \<^verbatim>\<open>main.cpp\<close>, which calls
  \<^verbatim>\<open>stop\<close>. Each critical section of the mutex is one step; the calls into libpcap are steps of their own.
\<close>

unbundle bit_operations_syntax

section \<open>Decoding a frame\<close>

datatype capture_error = Out_of_bounds

definition byte_at :: "bytes \<Rightarrow> nat \<Rightarrow> (capture_error, u8) result" where
  "byte_at data i = (if i < length data then Inr (data ! i) else Inl Out_of_bounds)"

definition bytes_at :: "bytes \<Rightarrow> nat \<Rightarrow> nat \<Rightarrow> (capture_error, bytes) result" where
  "bytes_at data i j =
    (if i = j \<or> j \<le> length data then Inr (take (j - i) (drop i data)) else Inl Out_of_bounds)"

definition DLT_NULL :: int where "DLT_NULL = 0"
definition DLT_EN10MB :: int where "DLT_EN10MB = 1"

definition link_header :: "int \<Rightarrow> nat" where
  "link_header linktype = (if linktype = DLT_NULL then 4 else if linktype = DLT_EN10MB then 14 else 0)"

definition inet_ntop :: "bytes \<Rightarrow> string" where
  "inet_ntop bs = dotted (map unat bs)"

text \<open>
  The part of \<^verbatim>\<open>nextPacket\<close> after \<^verbatim>\<open>pcap_next_ex\<close> delivered a frame: \<^verbatim>\<open>None\<close> is the return
  value \<^verbatim>\<open>false\<close>, for which the caller does not look at the packet.
\<close>

definition decode_frame :: "int \<Rightarrow> timestamp \<Rightarrow> nat \<Rightarrow> bytes \<Rightarrow> (capture_error, raw_packet option) result" where
  "decode_frame linktype now len data =
    (let l2 = link_header linktype in
     if len < l2 + 20 then Inr None
     else bind_result (byte_at data l2) (\<lambda>vhl.
       if drop_bit 4 vhl \<noteq> 4 then Inr None
       else let ihl = unat (vhl AND 0x0F) * 4 in
         if ihl < 20 \<or> len < l2 + ihl then Inr None
         else bind_result (bytes_at data (l2 + 12) (l2 + 16)) (\<lambda>src.
           bind_result (bytes_at data (l2 + 16) (l2 + 20)) (\<lambda>dst.
           bind_result (byte_at data (l2 + 9)) (\<lambda>pr.
             let l4 = l2 + ihl in
             if pr = 6 \<and> l2 + ihl + 20 \<le> len then
               bind_result (byte_at data (l4 + 12)) (\<lambda>off.
                 let tcp_hl = unat (drop_bit 4 (off AND 0xF0)) * 4 in
                 if tcp_hl < 20 \<or> len < l2 + ihl + tcp_hl then Inr None
                 else bind_result (bytes_at data l4 (l4 + 4)) (\<lambda>ports.
                   bind_result (bytes_at data (l4 + tcp_hl) len) (\<lambda>body.
                     Inr (Some \<lparr>pkt_timestamp = now, payload = body, srcIp = inet_ntop src, dstIp = inet_ntop dst,
                                srcPort = be16 (ports ! 0) (ports ! 1), dstPort = be16 (ports ! 2) (ports ! 3)\<rparr>))))
             else bind_result (bytes_at data (l2 + ihl) len) (\<lambda>body.
               Inr (Some \<lparr>pkt_timestamp = now, payload = body, srcIp = inet_ntop src, dstIp = inet_ntop dst,
                          srcPort = 0, dstPort = 0\<rparr>)))))))"

text \<open>The whole of \<^verbatim>\<open>nextPacket\<close>: the guard, and the result code of \<^verbatim>\<open>pcap_next_ex\<close> with what it delivers.\<close>

record pcap_result =
  res :: int
  delivered :: "(nat \<times> bytes) option"

definition nextPacket ::
  "bool \<Rightarrow> bool \<Rightarrow> int \<Rightarrow> timestamp \<Rightarrow> pcap_result \<Rightarrow> (capture_error, raw_packet option) result" where
  "nextPacket has_handle active linktype now pr =
    (if \<not> has_handle \<or> \<not> active then Inr None
     else if res pr = 0 then Inr None
     else case delivered pr of
       None \<Rightarrow> Inr None
     | Some (len, data) \<Rightarrow> if res pr \<noteq> 1 then Inr None else decode_frame linktype now len data)"

section \<open>Frames that carry TCP\<close>

definition tcp_frame :: "int \<Rightarrow> bytes \<Rightarrow> bytes \<Rightarrow> bytes \<Rightarrow> bool" where
  "tcp_frame linktype l2 ip_header tcp_header \<longleftrightarrow>
     length l2 = link_header linktype \<and>
     20 \<le> length ip_header \<and> length ip_header = unat (ip_header ! 0 AND 0x0F) * 4 \<and>
     drop_bit 4 (ip_header ! 0) = 4 \<and> ip_header ! 9 = 6 \<and>
     20 \<le> length tcp_header \<and> length tcp_header = unat (drop_bit 4 (tcp_header ! 12)) * 4"

lemma byte_at_simps:
  "i < length xs \<Longrightarrow> byte_at (xs @ ys) i = Inr (xs ! i)"
  "byte_at (xs @ ys) (length xs + i) = byte_at ys i"
  by (auto simp: byte_at_def nth_append)

lemma bytes_at_append:
  "i \<le> j \<Longrightarrow> bytes_at (xs @ ys) (length xs + i) (length xs + j) = bytes_at ys i j"
  "i \<le> j \<Longrightarrow> j \<le> length xs \<Longrightarrow> bytes_at (xs @ ys) i j = Inr (take (j - i) (drop i xs))"
  by (auto simp: bytes_at_def)

lemma high_nibble: "drop_bit 4 (off AND 0xF0 :: u8) = drop_bit 4 off"
proof -
  have "push_bit 4 (mask 4) = (0xF0 :: u8)"
    by (simp add: mask_eq_exp_minus_1)
  moreover have "drop_bit 4 (off AND push_bit 4 (mask 4)) = drop_bit 4 off"
    by (intro bit_eqI) (auto simp: bit_simps dest: bit_imp_le_length)
  ultimately show ?thesis
    by metis
qed

lemma take4_nth: "4 \<le> length xs \<Longrightarrow> take 4 xs ! 0 = xs ! 0 \<and> take 4 xs ! 1 = xs ! 1 \<and> take 4 xs ! 2 = xs ! 2 \<and> take 4 xs ! 3 = xs ! 3"
  by simp

text \<open>What the decoder reads from such a frame.\<close>

lemma tcp_frame_reads:
  assumes "tcp_frame linktype l2 ih th" and d: "d = l2 @ ih @ th @ body" and l: "l = link_header linktype"
  shows "byte_at d l = Inr (ih ! 0)" "byte_at d (l + 9) = Inr (ih ! 9)"
    "bytes_at d (l + 12) (l + 16) = Inr (take 4 (drop 12 ih))" "bytes_at d (l + 16) (l + 20) = Inr (take 4 (drop 16 ih))"
    "byte_at d (l + length ih + 12) = Inr (th ! 12)"
    "bytes_at d (l + length ih) (l + length ih + 4) = Inr (take 4 th)"
    "bytes_at d (l + length ih + length th) (length d) = Inr body"
proof -
  have f: "length l2 = l" "20 \<le> length ih" "20 \<le> length th"
    using assms by (auto simp: tcp_frame_def)
  show "byte_at d l = Inr (ih ! 0)" "byte_at d (l + 9) = Inr (ih ! 9)"
    using f(2) unfolding f(1)[symmetric] d by (auto simp: byte_at_def nth_append)
  show "bytes_at d (l + 12) (l + 16) = Inr (take 4 (drop 12 ih))" "bytes_at d (l + 16) (l + 20) = Inr (take 4 (drop 16 ih))"
    using f(1,2) bytes_at_append(1)[of 12 16 l2 "ih @ th @ body"] bytes_at_append(1)[of 16 20 l2 "ih @ th @ body"]
    by (auto simp: d bytes_at_append(2))
  have l4: "d = (l2 @ ih) @ th @ body" "length (l2 @ ih) = l + length ih"
    using f(1) d by simp_all
  show "byte_at d (l + length ih + 12) = Inr (th ! 12)"
    using f(3) byte_at_simps(2)[of "l2 @ ih" "th @ body" 12] unfolding l4 by (simp add: byte_at_simps(1))
  show "bytes_at d (l + length ih) (l + length ih + 4) = Inr (take 4 th)"
    using f(3) bytes_at_append(1)[of 0 4 "l2 @ ih" "th @ body"] unfolding l4 by (simp add: bytes_at_append(2))
  show "bytes_at d (l + length ih + length th) (length d) = Inr body"
    using f(1) d by (simp add: bytes_at_def)
qed

lemma tcp_frame_fields:
  assumes "tcp_frame linktype l2 ih th"
  shows "length l2 = link_header linktype" "20 \<le> length ih" "unat (ih ! 0 AND 0x0F) * 4 = length ih"
    "drop_bit 4 (ih ! 0) = 4" "ih ! 9 = 6" "20 \<le> length th" "unat (drop_bit 4 (th ! 12)) * 4 = length th"
  using assms by (auto simp: tcp_frame_def)

lemma decode_tcp_frame:
  assumes "tcp_frame linktype l2 ih th"
  shows "decode_frame linktype now (length (l2 @ ih @ th @ body)) (l2 @ ih @ th @ body) =
    Inr (Some \<lparr>pkt_timestamp = now, payload = body, srcIp = inet_ntop (take 4 (drop 12 ih)),
      dstIp = inet_ntop (take 4 (drop 16 ih)), srcPort = be16 (th ! 0) (th ! 1), dstPort = be16 (th ! 2) (th ! 3)\<rparr>)"
  unfolding decode_frame_def Let_def tcp_frame_reads[OF assms refl refl] bind_result_simps tcp_frame_fields(3-5)[OF assms]
    high_nibble tcp_frame_fields(7)[OF assms]
  using tcp_frame_fields(1,2,6)[OF assms] take4_nth[of th] by simp

text \<open>Reading from a truncated capture.\<close>

lemma byte_at_take:
  "byte_at d i = Inr v \<Longrightarrow> byte_at (take n d) i = (if i < n then Inr v else Inl Out_of_bounds)"
  by (auto simp: byte_at_def split: if_splits)

lemma bytes_at_take:
  "bytes_at d i j = Inr v \<Longrightarrow> i < j \<Longrightarrow> bytes_at (take n d) i j = (if j \<le> n then Inr v else Inl Out_of_bounds)"
  by (auto simp: bytes_at_def min_def take_drop split: if_splits)

lemma decode_truncated:
  assumes "tcp_frame linktype l2 ih th" and len: "length (l2 @ ih @ th) < len" "n < len"
  shows "decode_frame linktype now len (take n (l2 @ ih @ th @ body)) = Inl Out_of_bounds"
proof -
  let ?l = "link_header linktype"
  note f = tcp_frame_fields[OF assms(1)] and r = tcp_frame_reads[OF assms(1) refl refl, of body]
  have l: "?l + length ih + length th < len"
    using len(1) f(1) by simp
  have last: "bytes_at (take n (l2 @ ih @ th @ body)) (?l + length ih + length th) len = Inl Out_of_bounds"
    using l len(2) by (simp add: bytes_at_def)
  have lt: "?l + 12 < ?l + 16" "?l + 16 < ?l + 20" "?l + length ih < ?l + length ih + 4"
    by simp_all
  define e where "e = take n (l2 @ ih @ th @ body)"
  have e: "byte_at e ?l = (if ?l < n then Inr (ih ! 0) else Inl Out_of_bounds)"
    "byte_at e (?l + 9) = (if ?l + 9 < n then Inr (ih ! 9) else Inl Out_of_bounds)"
    "byte_at e (?l + length ih + 12) = (if ?l + length ih + 12 < n then Inr (th ! 12) else Inl Out_of_bounds)"
    "bytes_at e (?l + 12) (?l + 16) = (if ?l + 16 \<le> n then Inr (take 4 (drop 12 ih)) else Inl Out_of_bounds)"
    "bytes_at e (?l + 16) (?l + 20) = (if ?l + 20 \<le> n then Inr (take 4 (drop 16 ih)) else Inl Out_of_bounds)"
    "bytes_at e (?l + length ih) (?l + length ih + 4) = (if ?l + length ih + 4 \<le> n then Inr (take 4 th) else Inl Out_of_bounds)"
    "bytes_at e (?l + length ih + length th) len = Inl Out_of_bounds"
    unfolding e_def by (rule byte_at_take[OF r(1)] byte_at_take[OF r(2)] byte_at_take[OF r(5)]
        bytes_at_take[OF r(3) lt(1)] bytes_at_take[OF r(4) lt(2)] bytes_at_take[OF r(6) lt(3)] last)+
  have "bind_result (if c then Inr v else Inl Out_of_bounds) g = (if c then g v else Inl Out_of_bounds)" for c v and g :: "'q \<Rightarrow> (capture_error, 'r) result"
    by simp
  note step = this
  have "decode_frame linktype now len e = Inl Out_of_bounds"
    unfolding decode_frame_def Let_def e step bind_result_simps f(3-5) high_nibble f(7)
    using l f(2,6) by simp
  then show ?thesis
    by (simp only: e_def)
qed

text \<open>A frame captured in full is never read out of bounds.\<close>

lemma decode_complete:
  assumes "len \<le> length data" shows "decode_frame linktype now len data \<noteq> Inl Out_of_bounds"
  using assms by (auto simp: decode_frame_def byte_at_def bytes_at_def bind_result_Inl Let_def)

section \<open>The life cycle of the handle\<close>

text \<open>
  The guarded state: whether \<^verbatim>\<open>handle_\<close> is set, the flag \<^verbatim>\<open>active_\<close>, and, for the proof, whether the handle has been
  closed and whether libpcap was called on it afterwards. \<^verbatim>\<open>running\<close> is the flag of \<^verbatim>\<open>main\<close>.
\<close>

datatype main_pc =
    M_Test        \<comment> \<open>at the test of the loop\<close>
  | M_Next        \<comment> \<open>inside \<^verbatim>\<open>nextPacket\<close>, past the guard, before \<^verbatim>\<open>pcap_next_ex\<close> returns\<close>
  | M_Stop        \<comment> \<open>left the loop, before the lock of \<^verbatim>\<open>stop\<close>\<close>
  | M_Break       \<comment> \<open>inside \<^verbatim>\<open>stop\<close>, before \<^verbatim>\<open>pcap_breakloop\<close>\<close>
  | M_Destroy     \<comment> \<open>at the destructor, before its lock\<close>
  | M_Close       \<comment> \<open>in the destructor, before \<^verbatim>\<open>pcap_close\<close>\<close>
  | M_Exited

datatype watcher_pc =
    W_Wait        \<comment> \<open>in \<^verbatim>\<open>sigwait\<close>\<close>
  | W_Stop        \<comment> \<open>a signal arrived, before the lock of \<^verbatim>\<open>stop\<close>\<close>
  | W_Break       \<comment> \<open>inside \<^verbatim>\<open>stop\<close>, before \<^verbatim>\<open>pcap_breakloop\<close>\<close>
  | W_Clear       \<comment> \<open>before \<^verbatim>\<open>running.store(false)\<close>\<close>
  | W_Done        \<comment> \<open>only the line of the logger is left\<close>

record capture_sys =
  has_handle :: bool
  active :: bool
  running :: bool
  closed :: bool
  used_after_close :: bool
  main_pc :: main_pc
  watcher_pc :: watcher_pc

text \<open>The state once the constructor has opened the device and the watcher was started.\<close>

definition capture_start :: capture_sys where
  "capture_start = \<lparr>has_handle = True, active = True, running = True, closed = False,
     used_after_close = False, main_pc = M_Test, watcher_pc = W_Wait\<rparr>"

definition use_handle :: "capture_sys \<Rightarrow> capture_sys" where
  "use_handle s = s\<lparr>used_after_close := used_after_close s \<or> closed s\<rparr>"

text \<open>The critical sections of \<^verbatim>\<open>stop\<close> (whether it goes on to \<^verbatim>\<open>pcap_breakloop\<close>) and of the destructor.\<close>

definition stop_section :: "capture_sys \<Rightarrow> bool \<times> capture_sys" where
  "stop_section s = (if \<not> has_handle s \<or> \<not> active s then (False, s) else (True, s\<lparr>active := False\<rparr>))"

definition destroy_section :: "capture_sys \<Rightarrow> bool \<times> capture_sys" where
  "destroy_section s = (has_handle s, s\<lparr>has_handle := False, active := False\<rparr>)"

text \<open>
  The main thread in its loop, \<^verbatim>\<open>pf\<close> saying whether it may leave through the error branch of \<^verbatim>\<open>poll\<close>; in \<^verbatim>\<open>stop\<close>, which it calls
  after the loop; and in the destructor at the end of \<^verbatim>\<open>main\<close>.
\<close>

inductive loop_step :: "bool \<Rightarrow> capture_sys \<Rightarrow> capture_sys \<Rightarrow> bool" for pf :: bool where
  leave: "main_pc s = M_Test \<Longrightarrow> \<not> running s \<Longrightarrow> loop_step pf s (s\<lparr>main_pc := M_Stop\<rparr>)"
| poll_error: "main_pc s = M_Test \<Longrightarrow> running s \<Longrightarrow> pf \<Longrightarrow> loop_step pf s (s\<lparr>main_pc := M_Stop\<rparr>)"
| idle: "main_pc s = M_Test \<Longrightarrow> running s \<Longrightarrow> loop_step pf s s"
| enter: "main_pc s = M_Test \<Longrightarrow> running s \<Longrightarrow> has_handle s \<Longrightarrow> active s \<Longrightarrow> loop_step pf s (s\<lparr>main_pc := M_Next\<rparr>)"
| next_ex: "main_pc s = M_Next \<Longrightarrow> loop_step pf s (use_handle s\<lparr>main_pc := M_Test\<rparr>)"

inductive stop_step :: "capture_sys \<Rightarrow> capture_sys \<Rightarrow> bool" where
  stop_idle: "main_pc s = M_Stop \<Longrightarrow> stop_section s = (False, s') \<Longrightarrow> stop_step s (s'\<lparr>main_pc := M_Destroy\<rparr>)"
| stop_go: "main_pc s = M_Stop \<Longrightarrow> stop_section s = (True, s') \<Longrightarrow> stop_step s (s'\<lparr>main_pc := M_Break\<rparr>)"
| breakloop: "main_pc s = M_Break \<Longrightarrow> stop_step s (use_handle s\<lparr>main_pc := M_Destroy\<rparr>)"

inductive destroy_step :: "capture_sys \<Rightarrow> capture_sys \<Rightarrow> bool" where
  destroy: "main_pc s = M_Destroy \<Longrightarrow> destroy_section s = (b, s') \<Longrightarrow>
    destroy_step s (s'\<lparr>main_pc := (if b then M_Close else M_Exited)\<rparr>)"
| close_handle: "main_pc s = M_Close \<Longrightarrow> destroy_step s (use_handle s\<lparr>closed := True, main_pc := M_Exited\<rparr>)"

inductive main_step :: "bool \<Rightarrow> capture_sys \<Rightarrow> capture_sys \<Rightarrow> bool" for pf :: bool where
  in_loop: "loop_step pf s s' \<Longrightarrow> main_step pf s s'"
| in_stop: "stop_step s s' \<Longrightarrow> main_step pf s s'"
| in_destructor: "destroy_step s s' \<Longrightarrow> main_step pf s s'"

lemmas main_steps = loop_step.intros [THEN in_loop] stop_step.intros [THEN in_stop] destroy_step.intros [THEN in_destructor]

text \<open>
  The signal watcher. Its last step is followed only by one line of the logger, which touches neither the capture nor \<^verbatim>\<open>running\<close> and
  may come when the main thread has already finished.
\<close>

inductive watcher_step :: "capture_sys \<Rightarrow> capture_sys \<Rightarrow> bool" where
  signal: "watcher_pc s = W_Wait \<Longrightarrow> watcher_step s (s\<lparr>watcher_pc := W_Stop\<rparr>)"
| fail: "watcher_pc s = W_Wait \<Longrightarrow> watcher_step s (s\<lparr>watcher_pc := W_Done\<rparr>)"
| w_stop_idle: "watcher_pc s = W_Stop \<Longrightarrow> stop_section s = (False, s') \<Longrightarrow> watcher_step s (s'\<lparr>watcher_pc := W_Clear\<rparr>)"
| w_stop_go: "watcher_pc s = W_Stop \<Longrightarrow> stop_section s = (True, s') \<Longrightarrow> watcher_step s (s'\<lparr>watcher_pc := W_Break\<rparr>)"
| w_breakloop: "watcher_pc s = W_Break \<Longrightarrow> watcher_step s (use_handle s\<lparr>watcher_pc := W_Clear\<rparr>)"
| clear: "watcher_pc s = W_Clear \<Longrightarrow> watcher_step s (s\<lparr>running := False, watcher_pc := W_Done\<rparr>)"

inductive capture_reach :: "bool \<Rightarrow> capture_sys \<Rightarrow> bool" for pf :: bool where
  start: "capture_reach pf capture_start"
| main: "capture_reach pf s \<Longrightarrow> main_step pf s s' \<Longrightarrow> capture_reach pf s'"
| watcher: "capture_reach pf s \<Longrightarrow> watcher_step s s' \<Longrightarrow> capture_reach pf s'"

inductive_cases main_step_cases: "main_step pf s s'"
inductive_cases loop_stepE: "loop_step pf s s'"
inductive_cases stop_stepE: "stop_step s s'"
inductive_cases destroy_stepE: "destroy_step s s'"
inductive_cases watcher_stepE: "watcher_step s s'"

lemmas part_stepE = loop_stepE stop_stepE destroy_stepE

lemmas section_defs = stop_section_def destroy_section_def use_handle_def

text \<open>The destructor and \<^verbatim>\<open>stop\<close> never open the handle again.\<close>

definition main_over :: "main_pc \<Rightarrow> bool" where
  "main_over m \<longleftrightarrow> m \<in> {M_Destroy, M_Close, M_Exited}"

definition capture_inv :: "capture_sys \<Rightarrow> bool" where
  "capture_inv s \<longleftrightarrow> \<not> used_after_close s \<and> (closed s \<longrightarrow> main_pc s = M_Exited) \<and>
     (main_pc s \<in> {M_Close, M_Exited} \<longrightarrow> \<not> has_handle s) \<and>
     (\<not> has_handle s \<longrightarrow> main_pc s \<in> {M_Close, M_Exited}) \<and>
     (watcher_pc s = W_Break \<longrightarrow> running s) \<and> (watcher_pc s \<in> {W_Wait, W_Stop, W_Break, W_Clear} \<longrightarrow> running s) \<and>
     (main_pc s \<notin> {M_Test, M_Next} \<longrightarrow> \<not> running s)"

lemma capture_inv_start: "capture_inv capture_start"
  by (simp add: capture_inv_def capture_start_def)

lemma capture_inv_main: "capture_inv s \<Longrightarrow> main_step False s s' \<Longrightarrow> capture_inv s'"
  by (erule main_step_cases; erule part_stepE) (auto simp: capture_inv_def section_defs split: if_splits)

lemma capture_inv_watcher: "capture_inv s \<Longrightarrow> watcher_step s s' \<Longrightarrow> capture_inv s'"
  by (erule watcher_stepE) (auto simp: capture_inv_def section_defs split: if_splits)

lemma capture_inv_reach: "capture_reach False s \<Longrightarrow> capture_inv s"
  by (induction rule: capture_reach.induct) (auto intro: capture_inv_start capture_inv_main capture_inv_watcher)

lemma main_can_move: "\<not> running s \<Longrightarrow> main_pc s = M_Exited \<or> (\<exists>s'. main_step pf s s')"
proof -
  assume r: "\<not> running s"
  obtain b t where st: "stop_section s = (b, t)"
    by fastforce
  obtain b' t' where de: "destroy_section s = (b', t')"
    by fastforce
  show ?thesis
    using r st de by (cases "main_pc s"; cases b) (auto intro: main_steps)
qed

text \<open>How many steps of the main thread are left once \<^verbatim>\<open>running\<close> is false.\<close>

fun steps_left :: "main_pc \<Rightarrow> nat" where
  "steps_left M_Next = 6" | "steps_left M_Test = 5" | "steps_left M_Stop = 4" | "steps_left M_Break = 3"
| "steps_left M_Destroy = 2" | "steps_left M_Close = 1" | "steps_left M_Exited = 0"

lemma shutdown_step:
  "main_step pf s s' \<Longrightarrow> \<not> running s \<Longrightarrow> steps_left (main_pc s') < steps_left (main_pc s) \<and> \<not> running s'"
  by (erule main_step_cases; erule part_stepE) (auto simp: section_defs split: if_splits)

section \<open>Properties\<close>

text \<open>
  C13. Functional correctness of the capture. For every link type, every frame made of a link header, an IPv4 header with or
  without options, a TCP header with or without options, and a body, when captured in full, is decoded to
  the packet with the addresses and ports of the headers and exactly the body as payload.
\<close>

theorem capture_decodes_tcp:
  assumes "tcp_frame linktype l2 ih th" and "data = l2 @ ih @ th @ body"
  shows "nextPacket True True linktype now \<lparr>res = 1, delivered = Some (length data, data)\<rparr> =
    Inr (Some \<lparr>pkt_timestamp = now, payload = body, srcIp = inet_ntop (take 4 (drop 12 ih)),
      dstIp = inet_ntop (take 4 (drop 16 ih)), srcPort = be16 (th ! 0) (th ! 1), dstPort = be16 (th ! 2) (th ! 3)\<rparr>)"
  using decode_tcp_frame[OF assms(1)] unfolding assms(2) nextPacket_def by simp

definition sample_ip :: bytes where
  "sample_ip = [0x45, 0, 0, 52, 0, 0, 0, 0, 64, 6, 0, 0, 10, 0, 0, 2, 10, 0, 0, 1]"

definition sample_tcp :: bytes where
  "sample_tcp = [0x9C, 0x40, 0x01, 0xF6, 0, 0, 0, 0, 0, 0, 0, 0, 0x50, 0x18, 0, 0, 0, 0, 0, 0]"

theorem capture_decodes_tcp_witness:
  "nextPacket True True DLT_EN10MB 7
     \<lparr>res = 1, delivered = Some (57, replicate 14 0 @ sample_ip @ sample_tcp @ [1, 2, 3])\<rparr> =
   Inr (Some \<lparr>pkt_timestamp = 7, payload = [1, 2, 3], srcIp = inet_ntop [10, 0, 0, 2], dstIp = inet_ntop [10, 0, 0, 1],
     srcPort = 40000, dstPort = 502\<rparr>)"
proof -
  have "tcp_frame DLT_EN10MB (replicate 14 0) sample_ip sample_tcp"
    by code_simp
  from capture_decodes_tcp[OF this refl, of 7 "[1, 2, 3]"] show ?thesis
    by (simp add: sample_ip_def sample_tcp_def be16_def)
qed

text \<open>
  C27. Memory safety of the decoder and its limit. It never reads outside a frame that was captured in full; but the
  lengths it checks are those of the header, not of the captured bytes, so a TCP frame longer than what was
  captured is read out of bounds.
\<close>

theorem decoder_bounds:
  "(len \<le> length data \<longrightarrow> decode_frame linktype now len data \<noteq> Inl Out_of_bounds) \<and>
   (tcp_frame linktype l2 ih th \<and> length (l2 @ ih @ th) < len \<and> n < len \<longrightarrow>
    decode_frame linktype now len (take n (l2 @ ih @ th @ body)) = Inl Out_of_bounds)"
  using decode_complete decode_truncated by blast

theorem decoder_bounds_witness:
  "decode_frame DLT_EN10MB 0 70000 (take 65535 (replicate 14 0 @ sample_ip @ sample_tcp @ replicate 70000 0)) = Inl Out_of_bounds"
proof -
  have "tcp_frame DLT_EN10MB (replicate 14 0) sample_ip sample_tcp"
    by code_simp
  then show ?thesis
    by (intro decoder_bounds[THEN conjunct2, rule_format] conjI) (simp_all add: sample_ip_def sample_tcp_def)
qed

text \<open>
  C17. No use after close. If the main loop ends only because shutdown was requested, then in every
  interleaving of the main thread and the signal watcher libpcap is never called on a closed handle,
  and when the main thread has exited the watcher has finished.
\<close>

theorem no_use_after_close:
  assumes "capture_reach False s"
  shows "\<not> used_after_close s \<and> (main_pc s \<noteq> M_Exited \<or> \<not> has_handle s \<and> watcher_pc s = W_Done)"
  using capture_inv_reach[OF assms] by (cases "watcher_pc s") (auto simp: capture_inv_def)

theorem no_use_after_close_witness:
  "let s = capture_start\<lparr>watcher_pc := W_Stop, active := False, watcher_pc := W_Break\<rparr>
   in \<not> used_after_close (use_handle s\<lparr>watcher_pc := W_Clear\<rparr>)"
proof -
  let ?s1 = "capture_start\<lparr>watcher_pc := W_Stop\<rparr>"
  let ?s2 = "?s1\<lparr>active := False, watcher_pc := W_Break\<rparr>"
  have "capture_reach False ?s1"
    by (rule capture_reach.watcher[OF capture_reach.start signal]) (simp add: capture_start_def)
  then have "capture_reach False ?s2"
    by (rule capture_reach.watcher[OF _ w_stop_go]) (simp_all add: capture_start_def stop_section_def)
  then have "capture_reach False (use_handle ?s2\<lparr>watcher_pc := W_Clear\<rparr>)"
    by (rule capture_reach.watcher[OF _ w_breakloop]) simp
  from no_use_after_close[OF this] show ?thesis
    by simp
qed

text \<open>
  C39. The race behind a failing \<^verbatim>\<open>poll\<close>. If the loop may also end through the error branch of \<^verbatim>\<open>poll\<close>, there is an
  interleaving in which the watcher breaks the loop of a handle that the destructor has closed.
\<close>

theorem use_after_close_on_poll_error: "\<exists>s. capture_reach True s \<and> used_after_close s"
proof -
  let ?s1 = "capture_start\<lparr>watcher_pc := W_Stop\<rparr>"
  let ?s2 = "?s1\<lparr>active := False, watcher_pc := W_Break\<rparr>"
  let ?s3 = "?s2\<lparr>main_pc := M_Stop\<rparr>"
  let ?s4 = "?s3\<lparr>main_pc := M_Destroy\<rparr>"
  let ?s5 = "?s4\<lparr>has_handle := False, active := False, main_pc := M_Close\<rparr>"
  let ?s6 = "use_handle ?s5\<lparr>closed := True, main_pc := M_Exited\<rparr>"
  let ?s7 = "use_handle ?s6\<lparr>watcher_pc := W_Clear\<rparr>"
  have "capture_reach True ?s1"
    by (rule capture_reach.watcher[OF capture_reach.start signal]) (simp add: capture_start_def)
  then have "capture_reach True ?s2"
    by (rule capture_reach.watcher[OF _ w_stop_go]) (simp_all add: capture_start_def stop_section_def)
  then have "capture_reach True ?s3"
    by (rule capture_reach.main[OF _ in_loop[OF poll_error]]) (simp_all add: capture_start_def)
  then have "capture_reach True ?s4"
    by (rule capture_reach.main[OF _ in_stop[OF stop_idle]]) (simp_all add: capture_start_def stop_section_def)
  then have "capture_reach True ?s5"
    using capture_reach.main[OF _ in_destructor[OF destroy[of ?s4 True "?s4\<lparr>has_handle := False, active := False\<rparr>"]]]
    by (simp add: capture_start_def destroy_section_def)
  then have "capture_reach True ?s6"
    by (rule capture_reach.main[OF _ in_destructor[OF close_handle]]) simp
  then have "capture_reach True ?s7"
    by (rule capture_reach.watcher[OF _ w_breakloop]) (simp add: use_handle_def)
  moreover have "used_after_close ?s7"
    by (simp add: use_handle_def)
  ultimately show ?thesis
    by blast
qed

text \<open>
  C37. Shutdown is prompt. Once the watcher has cleared \<^verbatim>\<open>running\<close>, every step of the main thread brings it closer to its end, at
  most six steps away; \<^verbatim>\<open>running\<close> stays false; and until its end the main thread can always move.
\<close>

theorem shutdown_terminates:
  assumes "\<not> running s"
  shows "steps_left (main_pc s) \<le> 6 \<and>
    (\<forall>s'. main_step pf s s' \<longrightarrow> steps_left (main_pc s') < steps_left (main_pc s) \<and> \<not> running s') \<and>
    (main_pc s = M_Exited \<or> (\<exists>s'. main_step pf s s'))"
proof (intro conjI allI impI)
  show "steps_left (main_pc s) \<le> 6"
    by (cases "main_pc s") simp_all
  fix s' assume "main_step pf s s'"
  then show "steps_left (main_pc s') < steps_left (main_pc s)" "\<not> running s'"
    using shutdown_step assms by blast+
next
  show "main_pc s = M_Exited \<or> (\<exists>s'. main_step pf s s')"
    using assms main_can_move by blast
qed

theorem shutdown_terminates_witness:
  "\<exists>s'. main_step False (capture_start\<lparr>running := False\<rparr>) s'"
  using shutdown_terminates[of "capture_start\<lparr>running := False\<rparr>" False] by (simp add: capture_start_def)

end
