(* ===== verification/Interop.thy ===== *)
theory Interop
  imports Detection Capture Sim_Cli
begin

text \<open>
  Where the parts meet. First, PRISM's parsers on the frames the simulator's clients and servers put on the
  wire. Second, the plant: PRISM's enforcement engine and the PLC, driven by the requests of
  clients and the decisions of the risk model, with the engine's bytes delivered to the PLC.
\<close>

section \<open>Simulator frames in PRISM's parsers\<close>

lemma modbus_client_frame:
  "client_encode_mbap_pdu (client_PDU_init\<lparr>cl_fn := fn, cl_addr := addr, cl_value := val\<rparr>) =
   encode_mbap_pdu \<lparr>pdu_function = fn, pdu_address = addr, pdu_value = val\<rparr>"
  by (simp add: client_encode_mbap_pdu_def client_PDU_init_def encode_mbap_pdu_def) (simp add: hi8_def lo8_def)

lemma is_write_fc_iff: "is_write_fc fc \<longleftrightarrow> fc \<in> {5, 6, 15, 16}"
  by (auto simp: is_write_fc_def)

lemma kept_record_modbus:
  assumes "classify_protocol p = MODBUS"
  shows "kept_record p =
    (if length (payload p) < 12 then None
     else Some \<lparr>rec_timestamp = pkt_timestamp p, protocol = ''Modbus'', isRequest = (dstPort p = 502),
       isWrite = is_write_fc (payload p ! 7), functionCode = payload p ! 7, address = be16 (payload p ! 8) (payload p ! 9)\<rparr>)"
proof (cases "modbus_accepts p")
  case True
  then have "\<not> record_discarded (ModbusParser_parse p)"
    using modbus.discarded_iff by blast
  with True assms show ?thesis
    by (simp add: kept_record_def parse_by_def modbus_fields is_write_fc_iff Let_def) (simp add: modbus_accepts_def)
next
  case False
  then have "record_discarded (ModbusParser_parse p)"
    using modbus.discarded_iff by blast
  with False assms show ?thesis
    by (simp add: kept_record_def parse_by_def modbus_accepts_def)
qed

lemma kept_record_short_dnp3:
  assumes "classify_protocol p = DNP3" and "length (payload p) < 13" shows "kept_record p = None"
proof -
  have "srcPort p = 20000 \<or> dstPort p = 20000"
    using assms(1) by (auto simp: classify_protocol_def split: if_splits)
  then have "\<not> dnp3_accepts p"
    using assms(2) by (simp add: dnp3_accepts_def)
  then show ?thesis
    using assms(1) by (simp add: kept_record_def parse_by_def dnp3.discarded_iff)
qed

lemma kept_record_iec104:
  assumes "classify_protocol p = IEC104"
  shows "kept_record p = (if iec104_accepts p then Some (IEC104Parser_parse p) else None)"
  using assms by (simp add: kept_record_def parse_by_def iec104.discarded_iff Let_def)

lemma iec104_port: "classify_protocol p = IEC104 \<Longrightarrow> srcPort p = 2404 \<or> dstPort p = 2404"
  by (auto simp: classify_protocol_def split: if_splits)

text \<open>No parser keeps a payload of fewer than 12 bytes.\<close>

lemma short_payload_dropped:
  assumes "length (payload p) < 12" shows "kept_record p = None"
proof (cases "classify_protocol p")
  case UNKNOWN
  then show ?thesis by (simp add: kept_record_def)
next
  case MODBUS
  then show ?thesis using assms by (simp add: kept_record_modbus)
next
  case DNP3
  then show ?thesis using assms by (intro kept_record_short_dnp3) auto
next
  case IEC104
  then show ?thesis using assms by (simp add: kept_record_iec104 iec104_accepts_def)
qed

section \<open>The plant\<close>

record plant =
  engine_state :: enforcement_engine
  plc_state :: plc

datatype plant_action = Client bytes | Decide net_outcome risk_decision

text \<open>
  What the PLC does with bytes on a connection: one \<^verbatim>\<open>read\<close> of at most 256 bytes, handled if there are any.
\<close>

definition plc_receive :: "bytes \<Rightarrow> plc \<Rightarrow> plc" where
  "plc_receive v s = (if v = [] then s else plc_step (take 256 v) s)"

text \<open>Of a frame the engine sends, the PLC receives as many bytes as \<^verbatim>\<open>write\<close> accepted.\<close>

fun deliver :: "net_outcome \<Rightarrow> event \<Rightarrow> plc \<Rightarrow> plc" where
  "deliver io (Send fd b) s = plc_receive (take (nat (write_ret io)) b) s"
| "deliver io _ s = s"

fun plant_step :: "plant_action \<Rightarrow> plant \<Rightarrow> plant" where
  "plant_step (Client v) s = s\<lparr>plc_state := plc_receive v (plc_state s)\<rparr>"
| "plant_step (Decide io d) s =
     s\<lparr>engine_state := apply_engine (io, d) (engine_state s),
       plc_state := fold (deliver io) (apply_calls (io, d) (engine_state s)) (plc_state s)\<rparr>"

definition plant_new :: plant where
  "plant_new = \<lparr>engine_state = engine_new, plc_state = \<lparr>write_locked = False\<rparr>\<rparr>"

text \<open>A write the engine reports as complete wrote the whole frame; \<^verbatim>\<open>write\<close> never reports more.\<close>

lemma safety_pdu_encodes: "safety_pdu v = encode_mbap_pdu \<lparr>pdu_function = 5, pdu_address = 0xFFFF, pdu_value = v\<rparr>"
  by (simp add: safety_pdu_def encode_mbap_pdu_def hi8_def lo8_def)

lemma safety_pdu_engages: "engage_frame (safety_pdu 0xFF00)"
  by (simp add: engage_frame_def safety_frame_def safety_pdu_encodes mbap.dec_enc)

lemma length_safety_pdu: "length (safety_pdu v) = 12"
  by (simp add: safety_pdu_def)

lemma short_no_command: "length v < 12 \<Longrightarrow> \<not> engage_frame v \<and> \<not> release_frame v"
  by (simp add: engage_frame_def release_frame_def safety_frame_def decode_mbap_pdu_def PDU_init_def)

text \<open>The engine's connection leaves the lock as it was, or sets it when the whole frame was written.\<close>

lemma deliver_send:
  assumes "write_ret io \<le> 12"
  shows "write_locked (plc_receive (take (nat (write_ret io)) (safety_pdu 0xFF00)) s) \<longleftrightarrow>
    write_ret io = 12 \<or> write_locked s"
proof (cases "write_ret io = 12")
  case True
  then show ?thesis
    using safety_pdu_engages
    by (simp add: plc_receive_def length_safety_pdu plc_step_lock) (simp add: safety_pdu_def)
next
  case False
  let ?v = "take (nat (write_ret io)) (safety_pdu 0xFF00)"
  have "length ?v < 12"
    using False assms by (simp add: length_safety_pdu)
  moreover from this have "length (take 256 ?v) < 12"
    by simp
  ultimately show ?thesis
    using False short_no_command[of "take 256 ?v"] unfolding plc_receive_def by (simp add: plc_step_lock)
qed

lemma decide_lock:
  assumes "write_ret io \<le> 12"
  shows "write_locked (plc_state (plant_step (Decide io d) s)) \<longleftrightarrow>
    write_locked (plc_state s) \<or> \<not> locked (engine_state s) \<and> engages (io, d)"
  using deliver_send[OF assms]
  by (auto simp: apply_calls_def EnforcementEngine_apply_def sendSafetyCoil_def engages_def wants_lock_def net_ok_def
      Let_def split: risk_level.split prod.split bool.split)

lemma decide_engine: "locked (engine_state (plant_step (Decide io d) s)) \<longleftrightarrow> locked (engine_state s) \<or> engages (io, d)"
  by (simp add: apply_engine_locked)

interpretation plant_engine: latch plant_step "\<lambda>s. locked (engine_state s)"
proof
  fix a and s :: plant
  assume "locked (engine_state s)"
  then show "locked (engine_state (plant_step a s))"
    by (cases a) (simp_all add: apply_engine_locked)
qed

text \<open>Actions of clients, by what they do to the lock.\<close>

definition client_engages :: "plant_action \<Rightarrow> bool" where
  "client_engages a \<longleftrightarrow> (\<exists>v. a = Client v \<and> engage_frame (take 256 v))"

definition client_releases :: "plant_action \<Rightarrow> bool" where
  "client_releases a \<longleftrightarrow> (\<exists>v. a = Client v \<and> release_frame (take 256 v))"

text \<open>\<^verbatim>\<open>write\<close> never reports more bytes than it was given.\<close>

definition plausible :: "plant_action \<Rightarrow> bool" where
  "plausible a \<longleftrightarrow> (\<forall>io d. a = Decide io d \<longrightarrow> write_ret io \<le> 12)"

definition prism_engages :: "plant_action \<Rightarrow> bool" where
  "prism_engages a \<longleftrightarrow> (\<exists>io d. a = Decide io d \<and> engages (io, d))"

lemma client_lock:
  "write_locked (plc_state (plant_step (Client v) s)) \<longleftrightarrow>
    client_engages (Client v) \<or> write_locked (plc_state s) \<and> \<not> client_releases (Client v)"
  using short_no_command[of "[]"]
  by (auto simp: plc_receive_def plc_step_lock client_engages_def client_releases_def)

lemma plant_agrees:
  assumes "\<forall>a \<in> set acts. \<not> client_engages a \<and> \<not> client_releases a \<and> plausible a"
    and "write_locked (plc_state s) = locked (engine_state s)"
  shows "write_locked (plc_state (fold plant_step acts s)) = locked (engine_state (fold plant_step acts s)) \<and>
    locked (engine_state (fold plant_step acts s)) = (locked (engine_state s) \<or> (\<exists>a \<in> set acts. prism_engages a))"
  using assms
proof (induction acts arbitrary: s)
  case (Cons a acts)
  show ?case
  proof (cases a)
    case (Client v)
    then show ?thesis
      using Cons client_lock[of v s] by (simp add: prism_engages_def del: plant_step.simps) (simp add: prism_engages_def)
  next
    case (Decide io d)
    then have w: "write_ret io \<le> 12"
      using Cons.prems(1) by (simp add: plausible_def)
    have "prism_engages a = engages (io, d)"
      by (simp add: Decide prism_engages_def)
    then show ?thesis
      using Cons decide_lock[OF w, of d s] decide_engine[of io d s] by (auto simp: Decide simp del: plant_step.simps)
  qed
qed simp

lemma plant_stays_released:
  assumes "\<forall>a \<in> set acts. \<not> client_engages a \<and> plausible a"
    and "locked (engine_state s)" and "\<not> write_locked (plc_state s)"
  shows "\<not> write_locked (plc_state (fold plant_step acts s))"
  using assms
proof (induction acts arbitrary: s)
  case (Cons a acts)
  have e: "locked (engine_state (plant_step a s))"
    using Cons.prems(2) by (rule plant_engine.keep)
  have "\<not> write_locked (plc_state (plant_step a s))"
  proof (cases a)
    case (Client v)
    then show ?thesis
      using Cons.prems client_lock[of v s] by (simp del: plant_step.simps)
  next
    case (Decide io d)
    then show ?thesis
      using Cons.prems decide_lock[of io d s] by (simp add: plausible_def del: plant_step.simps)
  qed
  then show ?case
    using Cons e by simp
qed simp

end
