(* ===== verification/Wire.thy ===== *)
theory Wire
  imports Run_State Interop
begin

text \<open>
  From the wire to the lock: the frames of the simulator's Modbus client, captured, parsed and judged by PRISM, whose
  engine then commands the PLC. The pieces are those of the other theories; here they are put together.
\<close>

section \<open>Capturing frames\<close>

text \<open>
  The packets that \<^verbatim>\<open>nextPacket\<close> returns for what libpcap delivers, one call after the other; a read outside a frame is an
  error of the whole capture.
\<close>

fun captured :: "int \<Rightarrow> (env \<times> timestamp \<times> pcap_result) list \<Rightarrow> (capture_error, (env \<times> raw_packet) list) result" where
  "captured linktype [] = Inr []"
| "captured linktype ((en, now, pr) # fs) =
     bind_result (nextPacket True True linktype now pr) (\<lambda>r.
       bind_result (captured linktype fs) (\<lambda>xs. Inr (case r of None \<Rightarrow> xs | Some p \<Rightarrow> (en, p) # xs)))"

text \<open>A frame with a request of the Modbus client to port 502: when it was captured, what it asks, and its bytes.\<close>

record wire_frame =
  wf_env :: env
  wf_time :: timestamp
  wf_fn :: u8
  wf_addr :: u16
  wf_value :: u16
  wf_data :: bytes

definition carries_request :: "int \<Rightarrow> wire_frame \<Rightarrow> bool" where
  "carries_request linktype f \<longleftrightarrow>
    (\<exists>l2 ih th. tcp_frame linktype l2 ih th \<and> be16 (th ! 2) (th ! 3) = 502 \<and>
      wf_data f = l2 @ ih @ th @
        client_encode_mbap_pdu (client_PDU_init\<lparr>cl_fn := wf_fn f, cl_addr := wf_addr f, cl_value := wf_value f\<rparr>))"

definition capture_frames :: "int \<Rightarrow> wire_frame list \<Rightarrow> (capture_error, (env \<times> raw_packet) list) result" where
  "capture_frames linktype fs =
    captured linktype (map (\<lambda>f. (wf_env f, wf_time f, \<lparr>res = 1, delivered = Some (length (wf_data f), wf_data f)\<rparr>)) fs)"

definition request_record :: "wire_frame \<Rightarrow> parsed_record" where
  "request_record f = \<lparr>rec_timestamp = wf_time f, protocol = ''Modbus'', isRequest = True,
     isWrite = is_write_fc (wf_fn f), functionCode = wf_fn f, address = wf_addr f\<rparr>"

lemma request_packet:
  assumes "carries_request linktype f"
  obtains p where "nextPacket True True linktype now \<lparr>res = 1, delivered = Some (length (wf_data f), wf_data f)\<rparr> = Inr (Some p)"
    "kept_record p = Some (request_record f\<lparr>rec_timestamp := now\<rparr>)" "dstPort p = 502"
    "payload p = encode_mbap_pdu \<lparr>pdu_function = wf_fn f, pdu_address = wf_addr f, pdu_value = wf_value f\<rparr>"
proof -
  let ?m = "\<lparr>pdu_function = wf_fn f, pdu_address = wf_addr f, pdu_value = wf_value f\<rparr>"
  obtain l2 ih th where t: "tcp_frame linktype l2 ih th" "be16 (th ! 2) (th ! 3) = 502"
    and d: "wf_data f = l2 @ ih @ th @ encode_mbap_pdu ?m"
    using assms by (auto simp: carries_request_def modbus_client_frame)
  let ?p = "\<lparr>pkt_timestamp = now, payload = encode_mbap_pdu ?m, srcIp = inet_ntop (take 4 (drop 12 ih)),
      dstIp = inet_ntop (take 4 (drop 16 ih)), srcPort = be16 (th ! 0) (th ! 1), dstPort = 502\<rparr>"
  have n: "nextPacket True True linktype now \<lparr>res = 1, delivered = Some (length (wf_data f), wf_data f)\<rparr> = Inr (Some ?p)"
    using decode_tcp_frame[OF t(1), of now "encode_mbap_pdu ?m"] by (simp add: nextPacket_def d t(2))
  have "classify_protocol ?p = MODBUS"
    by (simp add: classify_protocol_def)
  then have "kept_record ?p = Some (request_record f\<lparr>rec_timestamp := now\<rparr>)"
    by (simp add: kept_record_modbus request_record_def) (simp add: encode_mbap_pdu_def byte_simps)
  from that[OF n this] show thesis
    by simp
qed

lemma requests_captured:
  assumes "\<forall>f \<in> set fs. carries_request linktype f"
  obtains xs where "capture_frames linktype fs = Inr xs" "map fst xs = map wf_env fs" "kept_records xs = map request_record fs"
  using assms
proof (induction fs arbitrary: thesis)
  case Nil
  then show ?case by (simp add: capture_frames_def map_filter_simps)
next
  case (Cons f fs)
  obtain xs where xs: "capture_frames linktype fs = Inr xs" "map fst xs = map wf_env fs" "kept_records xs = map request_record fs"
    using Cons.IH Cons.prems(2) by auto
  obtain p where p: "nextPacket True True linktype (wf_time f) \<lparr>res = 1, delivered = Some (length (wf_data f), wf_data f)\<rparr> = Inr (Some p)"
    "kept_record p = Some (request_record f\<lparr>rec_timestamp := wf_time f\<rparr>)"
    using request_packet[of linktype f "wf_time f"] Cons.prems(2) by auto
  have "request_record f\<lparr>rec_timestamp := wf_time f\<rparr> = request_record f"
    by (simp add: request_record_def)
  with Cons.prems(1)[of "(wf_env f, p) # xs"] xs p show ?case
    by (simp add: capture_frames_def map_filter_simps)
qed

section \<open>The decisions of a run on the plant\<close>

text \<open>What the run makes the enforcement engine do, as actions of the plant.\<close>

definition run_decisions :: "(env \<times> raw_packet) list \<Rightarrow> plant_action list" where
  "run_decisions xs = List.map_filter (\<lambda>(x, r). map_option (\<lambda>(w, d). Decide (net (fst x)) d) (analysed r))
     (zip xs (snd (prism_run xs prism_new)))"

fun is_decision :: "plant_action \<Rightarrow> bool" where
  "is_decision (Client v) = False"
| "is_decision (Decide io d) = True"

lemma length_prism_run: "length (snd (prism_run xs st)) = length xs"
  by (induction xs arbitrary: st) (simp_all add: prism_run_Cons)

lemma run_decisions_snoc:
  "run_decisions (xs @ [x]) = run_decisions xs @
    (case analysed (packet_out (fst x) (snd x) (fst (prism_run xs prism_new))) of
       None \<Rightarrow> [] | Some (w, d) \<Rightarrow> [Decide (net (fst x)) d])"
  by (simp add: run_decisions_def prism_run_append prism_run_Cons length_prism_run map_filter_snoc split: option.split)

text \<open>The engine of a run is the engine of the plant under these decisions.\<close>

lemma run_engine: "enforcer (fst (prism_run xs prism_new)) = engine_state (fold plant_step (run_decisions xs) plant_new)"
proof (induction xs rule: rev_induct)
  case Nil
  show ?case by (simp add: run_decisions_def prism_new_def plant_new_def map_filter_simps)
next
  case (snoc x xs)
  let ?st = "fst (prism_run xs prism_new)"
  have run: "fst (prism_run (xs @ [x]) prism_new) = packet_state (fst x) (snd x) ?st"
    by (simp add: prism_run_append prism_run_Cons)
  show ?case
  proof (cases "analysed (packet_out (fst x) (snd x) ?st)")
    case None
    then show ?thesis
      using snoc packet_quiet[OF None] by (simp add: run run_decisions_snoc)
  next
    case (Some wd)
    obtain w d where wd: "wd = (w, d)"
      by fastforce
    show ?thesis
      using packet_decision(3)[OF Some[unfolded wd]] snoc by (simp add: run run_decisions_snoc Some wd)
  qed
qed

lemma run_decisions_env: "Decide io d \<in> set (run_decisions xs) \<Longrightarrow> \<exists>x \<in> set xs. io = net (fst x)"
proof (induction xs rule: rev_induct)
  case (snoc x xs)
  then show ?case
    by (auto simp: run_decisions_snoc split: option.splits prod.splits)
qed (simp add: run_decisions_def map_filter_simps)

lemma run_decisions_only: "a \<in> set (run_decisions xs) \<Longrightarrow> is_decision a"
proof (induction xs rule: rev_induct)
  case (snoc x xs)
  then show ?case
    by (auto simp: run_decisions_snoc split: option.splits prod.splits)
qed (simp add: run_decisions_def map_filter_simps)

text \<open>
  The plant in which clients act between the decisions of a run: as long as no client moves the coil, the
  PLC is locked exactly when the engine of the run is.
\<close>

lemma plant_follows_run:
  assumes "\<forall>x \<in> set xs. net_ok (net (fst x))" and "filter is_decision acts = run_decisions xs"
    and "\<forall>a \<in> set acts. \<not> client_engages a \<and> \<not> client_releases a"
  shows "write_locked (plc_state (fold plant_step acts plant_new)) = locked (enforcer (fst (prism_run xs prism_new)))"
proof -
  have mem: "Decide io d \<in> set acts \<longleftrightarrow> Decide io d \<in> set (run_decisions xs)" for io d
  proof -
    have "Decide io d \<in> set (filter is_decision acts) \<longleftrightarrow> Decide io d \<in> set (run_decisions xs)"
      by (simp only: assms(2))
    then show ?thesis
      by simp
  qed
  have pl: "plausible a" if "a \<in> set acts" for a
    using that mem run_decisions_env assms(1) by (fastforce simp: plausible_def net_ok_def)
  have dec: "\<exists>io d. a = Decide io d" if "a \<in> set (run_decisions xs)" for a
    using run_decisions_only[OF that] by (cases a) simp_all
  have pl': "plausible a" "\<not> client_engages a" "\<not> client_releases a" if "a \<in> set (run_decisions xs)" for a
    using dec[OF that] pl mem that by (metis, metis client_engages_def plant_action.distinct(1), metis client_releases_def plant_action.distinct(1))
  have new: "write_locked (plc_state plant_new) = locked (engine_state plant_new)"
    by (simp add: plant_new_def engine_new_def)
  have ex: "(\<exists>a \<in> set acts. prism_engages a) = (\<exists>a \<in> set (run_decisions xs). prism_engages a)"
    unfolding prism_engages_def using mem by metis
  have "write_locked (plc_state (fold plant_step acts plant_new)) = (locked (engine_state plant_new) \<or> (\<exists>a \<in> set acts. prism_engages a))"
    using plant_agrees[of acts plant_new] assms(3) pl new by simp
  also have "\<dots> = locked (engine_state (fold plant_step (run_decisions xs) plant_new))"
    using plant_agrees[of "run_decisions xs" plant_new] pl' new ex by simp
  finally show ?thesis
    by (simp add: run_engine)
qed

section \<open>Properties\<close>

text \<open>
  C3. A simulated attack, from the wire to the refusal. Let the simulator's Modbus client send write requests with pauses of at
  most a second for at least six seconds, each in a TCP frame that is captured in full, whatever headers, options,
  addresses and values. Then the capture reads no byte out of bounds, PRISM's run over the packets ends with the lock engaged, and
  however the requests of harmless clients interleave with its decisions, the PLC refuses every further write.
\<close>

theorem simulated_attack_refused:
  assumes "\<forall>f \<in> set fs. carries_request linktype f \<and> is_write_fc (wf_fn f) \<and>
      hash_order_ok (hash (wf_env f)) \<and> net_ok (net (wf_env f))"
    and "length fs * 25 < 2 ^ 53" and "gaps_le (ns_of_ms 1000) (map request_record fs)"
    and "fs \<noteq> []" and "wf_time (hd fs) + ns_of_ms 6000 \<le> wf_time (last fs)"
  shows "\<exists>xs. capture_frames linktype fs = Inr xs \<and> locked (enforcer (fst (prism_run xs prism_new))) \<and>
    (\<forall>acts v. filter is_decision acts = run_decisions xs \<and> (\<forall>a \<in> set acts. \<not> client_engages a \<and> \<not> client_releases a) \<and>
       is_write_fc (pdu_function (decode_mbap_pdu v)) \<and> \<not> safety_frame v \<longrightarrow>
       plc_response v (plc_state (fold plant_step acts plant_new)) = encode_exception (pdu_function (decode_mbap_pdu v)) 1)"
proof -
  obtain xs where xs: "capture_frames linktype fs = Inr xs" "map fst xs = map wf_env fs" "kept_records xs = map request_record fs"
    using requests_captured assms(1) by metis
  have env: "\<forall>x \<in> set xs. hash_order_ok (hash (fst x)) \<and> net_ok (net (fst x))"
  proof
    fix x assume "x \<in> set xs"
    then have "fst x \<in> set (map wf_env fs)"
      by (simp flip: xs(2))
    then show "hash_order_ok (hash (fst x)) \<and> net_ok (net (fst x))"
      using assms(1) by auto
  qed
  have n: "length xs * 25 < 2 ^ 53"
    using assms(2) arg_cong[OF xs(2), of length] by simp
  have a: "request_record (hd fs) \<in> set (kept_records xs)" "request_record (last fs) \<in> set (kept_records xs)"
    using assms(4) by (simp_all add: xs(3))
  have u: "under_attack (rec_timestamp (request_record (hd fs))) (kept_records xs)"
    using assms(1) by (intro only_writes_attack) (auto simp: xs(3) request_record_def)
  obtain ys zs where y: "xs = ys @ zs" "locked (enforcer (fst (prism_run ys prism_new)))"
    using attack_answered[OF env n assms(3)[folded xs(3)] _ _ a(1) u a(2)] assms(5)
    by (auto simp: request_record_def ns_of_ms_def)
  have l: "locked (enforcer (fst (prism_run xs prism_new)))"
    using prism_lock.held_fold[of "fst (prism_run ys prism_new)" zs] y by (simp add: prism_run_fold)
  have "plc_response v (plc_state (fold plant_step acts plant_new)) = encode_exception (pdu_function (decode_mbap_pdu v)) 1"
    if "filter is_decision acts = run_decisions xs" "\<forall>a \<in> set acts. \<not> client_engages a \<and> \<not> client_releases a"
      "is_write_fc (pdu_function (decode_mbap_pdu v))" "\<not> safety_frame v" for acts v
    using plant_follows_run[OF _ that(1,2)] env l that(3,4) by (auto simp: plc_parts safety_frame_def Let_def)
  then show ?thesis
    using xs(1) l by blast
qed

definition flood_frame :: "timestamp \<Rightarrow> wire_frame" where
  "flood_frame t = \<lparr>wf_env = good_env, wf_time = t, wf_fn = 6, wf_addr = 10, wf_value = 7,
     wf_data = replicate 14 0 @ sample_ip @ sample_tcp @
       client_encode_mbap_pdu (client_PDU_init\<lparr>cl_fn := 6, cl_addr := 10, cl_value := 7\<rparr>)\<rparr>"

theorem simulated_attack_refused_witness:
  "\<exists>xs. capture_frames DLT_EN10MB (map (flood_frame \<circ> seconds) [0, 1, 2, 3, 4, 5, 6]) = Inr xs \<and>
     locked (enforcer (fst (prism_run xs prism_new)))"
proof -
  let ?fs = "map (flood_frame \<circ> seconds) [0, 1, 2, 3, 4, 5, 6]"
  have "tcp_frame DLT_EN10MB (replicate 14 0) sample_ip sample_tcp"
    by code_simp
  moreover have "be16 (sample_tcp ! 2) (sample_tcp ! 3) = 502"
    by (simp add: sample_tcp_def be16_def)
  ultimately have c: "carries_request DLT_EN10MB (flood_frame t)" for t
    unfolding carries_request_def flood_frame_def wire_frame.select_convs by blast
  have "\<forall>f \<in> set ?fs. carries_request DLT_EN10MB f \<and> is_write_fc (wf_fn f) \<and>
      hash_order_ok (hash (wf_env f)) \<and> net_ok (net (wf_env f))"
    by (simp add: c) (simp add: flood_frame_def is_write_fc_def good_env_def insertion_order_ok net_ok_def net_good_def)
  moreover have "gaps_le (ns_of_ms 1000) (map request_record ?fs)"
    by (simp add: flood_frame_def request_record_def ns_of_ms_def seconds_def)
  moreover have "length ?fs * 25 < 2 ^ 53" "?fs \<noteq> []" "wf_time (hd ?fs) + ns_of_ms 6000 \<le> wf_time (last ?fs)"
    by (simp_all add: flood_frame_def ns_of_ms_def seconds_def)
  ultimately show ?thesis
    using simulated_attack_refused[of ?fs DLT_EN10MB] by blast
qed

end
