(* ===== verification/Feature_Ranges.thy ===== *)
theory Feature_Ranges
  imports Feature_Extractor
begin

text \<open>
  The ranges of the eight features, and what they take: how much the entropy sum can lose to rounding. The computed address entropy
  stays below the logarithm of the number of addresses plus a small constant, by Gibbs' inequality with an error term for
  shares that are only nearly a distribution.
\<close>

section \<open>One term of the entropy\<close>

lemma ln2_lower: "2 / 3 \<le> ln (2 :: real)"
proof -
  have "exp (1 / 18 :: real) \<le> 1 + 1 / 18 + (1 / 18)\<^sup>2"
    by (rule exp_bound) simp_all
  then have "exp (1 / 18 :: real) ^ 12 \<le> (1 + 1 / 18 + (1 / 18)\<^sup>2) ^ 12"
    by (intro power_mono) simp_all
  also have "\<dots> \<le> 2"
    by (simp add: power2_eq_square power_divide)
  finally have "exp (2 / 3 :: real) \<le> 2"
    by (simp flip: exp_of_nat_mult)
  then show ?thesis
    by (subst ln_ge_iff) simp_all
qed

lemma p_log_p: "0 < p \<Longrightarrow> - (3 / 5) \<le> p * log 2 (p :: real)"
proof -
  assume p: "0 < p"
  have "ln (exp (- 1) / p) \<le> exp (- 1) / p - 1"
    using p by (intro ln_le_minus_one) simp
  then have "- 1 - ln p \<le> exp (- 1) / p - 1"
    using p by (simp add: ln_div)
  then have "- (p * ln p) \<le> exp (- 1)"
    using p by (simp add: field_simps)
  also have "\<dots> \<le> 2 / 5"
    using exp_lower_Taylor_quadratic[of 1] by (simp add: exp_minus field_simps)
  finally have "- (p * ln p) \<le> (3 / 5) * ln 2"
    using ln2_lower by simp
  then have "- ((3 / 5) * ln 2) \<le> p * ln p"
    by simp
  then have "- ((3 / 5) * ln 2) / ln 2 \<le> p * ln p / ln 2"
    by (intro divide_right_mono) simp_all
  then show ?thesis
    by (simp add: log_def)
qed

text \<open>Rounding the logarithm loses less than a sixty-fourth.\<close>

lemma flog2_ge:
  assumes "1 / 2 ^ 53 \<le> p" and "p \<le> 1" shows "log 2 p - 1 / 64 \<le> flog2 p"
proof -
  let ?m = "\<lfloor>64 * log 2 p\<rfloor>"
  have "0 < p"
    using assms(1) by (rule less_le_trans[rotated]) simp
  have "2 powr (- 53) = 1 / (2 ^ 53 :: real)"
    using powr_realpow[of 2 53] by (simp only: powr_minus inverse_eq_divide of_nat_numeral zero_less_numeral)
  then have "2 powr (- 53) \<le> p"
    using assms(1) by (simp only:)
  then have "- 53 \<le> log 2 p"
    using \<open>0 < p\<close> by (simp only: le_log_iff one_less_numeral_iff semiring_norm)
  moreover have "log 2 p \<le> 0"
    using assms less_le_trans[of 0 "1 / 2 ^ 53" p] by simp
  ultimately have m: "- 3392 \<le> ?m" "?m \<le> 0"
    by linarith+
  have "\<bar>m\<bar> < 2 ^ 53" if "- 3392 \<le> m" "m \<le> 0" for m :: int
    using that by (auto simp: abs_if)
  from this[OF m] have "\<bar>?m\<bar> < 2 ^ 53" .
  then have "rnd64 (of_int ?m / 2 ^ 6) = of_int ?m / 2 ^ 6"
    by (rule fl.dyadic) simp
  then have "of_int ?m / 64 \<le> flog2 p"
    by (intro fl.ge_exact) (simp_all, linarith)
  then show ?thesis
    by linarith
qed

lemma entropy_term_ge:
  assumes "1 / 2 ^ 53 \<le> p" and "p \<le> 1" shows "- (5 / 8) \<le> fmul p (flog2 p)"
proof -
  have p: "0 < p"
    using assms(1) by (rule less_le_trans[rotated]) simp
  have "p * log 2 p - p * (1 / 64) \<le> p * flog2 p"
    using mult_left_mono[OF flog2_ge[OF assms], of p] p by (simp add: right_diff_distrib)
  then have "- (5 / 8) \<le> p * flog2 p"
    using p_log_p[OF p] assms(2) by linarith
  then show ?thesis
    by (intro fl.ge_exact) simp_all
qed

lemma length_tally: "length (tally ks) = card (set ks)"
proof -
  have "length (tally ks) = card (fst ` set (tally ks))"
    using distinct_card[OF distinct_tally[of ks]] by simp
  also have "fst ` set (tally ks) = set ks"
    by (force simp: set_tally)
  finally show ?thesis .
qed

section \<open>An upper bound on the entropy\<close>

text \<open>Rounding moves a number of moderate size by at most \<^verbatim>\<open>2 ^ -40\<close>.\<close>

lemma rounding_close:
  assumes "\<bar>x\<bar> \<le> 4096" shows "rnd64 x \<le> x + 1 / 2 ^ 40" and "x - 1 / 2 ^ 40 \<le> rnd64 x"
proof -
  let ?y = "x * 1099511627776"
  have grid: "rnd64 (of_int m / 2 ^ 40) = of_int m / 2 ^ 40" if "\<bar>of_int m - ?y\<bar> \<le> 1" for m :: int
  proof -
    have "\<bar>m\<bar> < 9007199254740992"
      using that assms by linarith
    then show ?thesis
      by (intro fl.dyadic) simp_all
  qed
  have c: "?y \<le> of_int \<lceil>?y\<rceil>" "of_int \<lceil>?y\<rceil> \<le> ?y + 1" "of_int \<lfloor>?y\<rfloor> \<le> ?y" "?y - 1 \<le> of_int \<lfloor>?y\<rfloor>"
    by linarith+
  have "rnd64 x \<le> of_int \<lceil>?y\<rceil> / 2 ^ 40"
    using c(1,2) by (intro fl.le_exact grid) (simp_all add: field_simps)
  also have "\<dots> \<le> x + 1 / 2 ^ 40"
    using c(2) by (simp add: field_simps)
  finally show "rnd64 x \<le> x + 1 / 2 ^ 40" .
  have "x - 1 / 2 ^ 40 \<le> of_int \<lfloor>?y\<rfloor> / 2 ^ 40"
    using c(4) by (simp add: field_simps)
  also have "\<dots> \<le> rnd64 x"
    using c(3,4) by (intro fl.ge_exact grid) (simp_all add: field_simps)
  finally show "x - 1 / 2 ^ 40 \<le> rnd64 x" .
qed

lemma sum_bump: "sum_list (map snd (bump k m)) = Suc (sum_list (map snd m))"
  by (induction k m rule: bump.induct) auto

lemma sum_tally: "sum_list (map snd (tally ks)) = length ks"
  by (induction ks rule: rev_induct) (simp_all add: tally_snoc sum_bump, simp add: tally_def)

text \<open>What an address with the rounded share \<^verbatim>\<open>q\<close> adds to the entropy at most.\<close>

definition entropy_share :: "real \<Rightarrow> real" where
  "entropy_share q = q / 64 + 2 / 2 ^ 40 - q * log 2 q"

lemma entropy_share_nonneg: "0 < q \<Longrightarrow> q \<le> 1 \<Longrightarrow> 0 \<le> entropy_share q"
  using mult_nonneg_nonpos[of q "log 2 q"] by (simp add: entropy_share_def)

lemma entropy_step:
  assumes q: "1 / 2 ^ 53 \<le> q" "q \<le> 1" and e: "0 \<le> e" "e \<le> 64"
  shows "fsub e (fmul q (flog2 q)) \<le> e + entropy_share q"
proof -
  have pos: "0 < q"
    using q(1) by (rule less_le_trans[rotated]) simp
  have l: "log 2 q - 1 / 64 \<le> flog2 q" "flog2 q \<le> 0"
    using flog2_ge[OF q] pos q(2) by (simp_all add: fl.nonpos)
  have "- (5 / 8) \<le> fmul q (flog2 q)" "fmul q (flog2 q) \<le> 0"
    using entropy_term_ge[OF q] mult_nonneg_nonpos[of q "flog2 q"] pos l(2) by (simp_all add: fl.nonpos)
  moreover have "- (5 / 8) \<le> q * log 2 q"
    using p_log_p[OF pos] by simp
  moreover have lo: "q * log 2 q - q / 64 \<le> q * flog2 q" "q * flog2 q \<le> 0"
    using mult_left_mono[OF l(1), of q] pos mult_nonneg_nonpos[of q "flog2 q"] l(2) by (simp_all add: right_diff_distrib)
  ultimately have "\<bar>q * flog2 q\<bar> \<le> 4096" "\<bar>e - fmul q (flog2 q)\<bar> \<le> 4096"
    using q e by linarith+
  from rounding_close(2)[OF this(1)] rounding_close(1)[OF this(2)] lo(1) show ?thesis
    by (simp add: entropy_share_def)
qed

lemma entropy_loop_upper:
  assumes "0 \<le> e" and "e + (\<Sum>(k, v) \<leftarrow> m. entropy_share (fdiv (real v) tot)) \<le> 64"
    and "\<And>k v. (k, v) \<in> set m \<Longrightarrow> 1 / 2 ^ 53 \<le> fdiv (real v) tot \<and> fdiv (real v) tot \<le> 1"
  shows "entropy_loop tot e m \<le> e + (\<Sum>(k, v) \<leftarrow> m. entropy_share (fdiv (real v) tot))"
  using assms
proof (induction m arbitrary: e)
  case (Cons kv m)
  obtain k v where kv: "kv = (k, v)"
    by (cases kv)
  let ?q = "fdiv (real v) tot" and ?rest = "\<Sum>(k, v) \<leftarrow> m. entropy_share (fdiv (real v) tot)"
  have q: "1 / 2 ^ 53 \<le> ?q" "?q \<le> 1"
    using Cons.prems(3)[of k v] kv by auto
  have pos: "0 < ?q"
    using q(1) by (rule less_le_trans[rotated]) simp
  have "0 \<le> ?rest"
  proof (rule sum_list_nonneg, clarsimp)
    fix k v assume "(k, v) \<in> set m"
    then have p: "1 / 2 ^ 53 \<le> fdiv (real v) tot" "fdiv (real v) tot \<le> 1"
      using Cons.prems(3)[of k v] by auto
    have "0 < fdiv (real v) tot"
      using p(1) by (rule less_le_trans[rotated]) simp
    then show "0 \<le> entropy_share (fdiv (real v) tot)"
      using p(2) by (rule entropy_share_nonneg)
  qed
  moreover have "0 \<le> entropy_share ?q"
    using pos q(2) by (rule entropy_share_nonneg)
  ultimately have "e \<le> 64"
    using Cons.prems(2) by (simp add: kv)
  have step: "fsub e (fmul ?q (flog2 ?q)) \<le> e + entropy_share ?q"
    by (rule entropy_step[OF q Cons.prems(1) \<open>e \<le> 64\<close>])
  have "fmul ?q (flog2 ?q) \<le> 0"
    using pos q(2) by (intro fl.nonpos mult_nonneg_nonpos) simp_all
  then have "0 \<le> fsub e (fmul ?q (flog2 ?q))"
    using Cons.prems(1) by (intro fl.nonneg) simp
  then have "entropy_loop tot (fsub e (fmul ?q (flog2 ?q))) m \<le> fsub e (fmul ?q (flog2 ?q)) + ?rest"
    using Cons.prems(2,3) step by (intro Cons.IH) (auto simp: kv)
  with step pos show ?case
    by (simp add: kv Let_def)
qed simp

lemma entry_share:
  assumes ord: "hash_order_ok ord" and n: "length rs < 2 ^ 53" and m: "(a, v) \<in> set (addr_order ord (tally (map address rs)))"
  shows "1 / 2 ^ 53 \<le> fdiv (real v) (real (length rs)) \<and> fdiv (real v) (real (length rs)) \<le> 1"
proof -
  have v: "v \<le> length rs" "0 < v"
    using addr_entries(3,4)[OF ord m] by simp_all
  have nn: "real (length rs) \<le> 2 ^ 53" "0 < real (length rs)"
    using n v by (auto simp: less_imp_le)
  then have "1 / 2 ^ 53 \<le> 1 / real (length rs)"
    by (intro divide_left_mono) simp_all
  also have "\<dots> \<le> real v / real (length rs)"
    using v(2) nn by (intro divide_right_mono) simp_all
  finally have "1 / 2 ^ 53 \<le> fdiv (real v) (real (length rs))"
    using fl.dyadic[of 1 53] by (intro fl.ge_exact) simp_all
  moreover have "fdiv (real v) (real (length rs)) \<le> 1"
    using v(1) fdiv_ratio[of "real v" "real (length rs)"] by simp
  ultimately show ?thesis
    by blast
qed

text \<open>Gibbs' inequality, for shares that are only nearly a distribution.\<close>

lemma share_log:
  assumes "0 < q" and "0 < (K :: real)" shows "- (q * log 2 q) \<le> q * log 2 K + (1 / K - q) / ln 2"
proof -
  have "ln (1 / (K * q)) \<le> 1 / (K * q) - 1"
    using assms by (intro ln_le_minus_one) simp
  then have "q * (- ln K - ln q) \<le> q * (1 / (K * q) - 1)"
    using assms by (intro mult_left_mono) (simp_all add: ln_div ln_mult)
  also have "\<dots> = 1 / K - q"
    using assms by (simp add: field_simps)
  finally have "(- (q * ln q)) / ln 2 \<le> (q * ln K + (1 / K - q)) / ln 2"
    by (intro divide_right_mono) (simp_all add: algebra_simps)
  then show ?thesis
    by (simp add: log_def add_divide_distrib)
qed


lemma sum_shares:
  assumes "0 < (K :: real)" and "\<And>q. q \<in> set qs \<Longrightarrow> 0 < q"
  shows "(\<Sum>q \<leftarrow> qs. entropy_share q) \<le> sum_list qs * log 2 K + (length qs / K - sum_list qs) / ln 2 +
    sum_list qs / 64 + length qs * (2 / 2 ^ 40)"
  using assms(2)
proof (induction qs)
  case (Cons q qs)
  have "entropy_share q \<le> q * log 2 K + (1 / K - q) / ln 2 + q / 64 + 2 / 2 ^ 40"
    using share_log[of q K] Cons.prems[of q] assms(1) by (simp add: entropy_share_def)
  with Cons show ?case
    by (simp add: algebra_simps add_divide_distrib diff_divide_distrib)
qed simp

lemma sum_list_close:
  fixes f g :: "'a \<Rightarrow> real" and d :: real
  assumes "\<And>x. x \<in> set xs \<Longrightarrow> \<bar>f x - g x\<bar> \<le> d"
  shows "\<bar>(\<Sum>x \<leftarrow> xs. f x) - (\<Sum>x \<leftarrow> xs. g x)\<bar> \<le> length xs * d"
  using assms
proof (induction xs)
  case (Cons x xs)
  have "\<bar>f x - g x\<bar> \<le> d" "\<bar>(\<Sum>x \<leftarrow> xs. f x) - (\<Sum>x \<leftarrow> xs. g x)\<bar> \<le> length xs * d"
    using Cons by simp_all
  then show ?case
    by (simp add: algebra_simps)
qed simp

text \<open>The computed entropy exceeds the logarithm of the number of addresses by less than a thirty-second.\<close>

lemma shares_close:
  assumes ord: "hash_order_ok ord" and n: "length rs < 2 ^ 53" and ne: "rs \<noteq> []"
  shows "\<bar>(\<Sum>(a, v) \<leftarrow> addr_order ord (tally (map address rs)). fdiv (real v) (real (length rs))) - 1\<bar> \<le>
    card (address ` set rs) / 2 ^ 40"
proof -
  let ?m = "addr_order ord (tally (map address rs))" and ?n = "real (length rs)"
  have "mset ?m = mset (tally (map address rs))"
    using hash_order_perm(2)[OF ord] .
  then have "sum_list (map snd ?m) = sum_list (map snd (tally (map address rs)))" and len: "length ?m = card (address ` set rs)"
    using mset_eq_length[of ?m "tally (map address rs)"] by (metis mset_map sum_mset_sum_list, simp add: length_tally)
  then have "sum_list (map snd ?m) = length rs"
    by (simp add: sum_tally)
  moreover have "(\<Sum>(a, v) \<leftarrow> xs. real v / ?n) = real (sum_list (map snd xs)) / ?n" for xs :: "(u16 \<times> nat) list"
    by (induction xs) (auto simp: add_divide_distrib)
  ultimately have one: "(\<Sum>(a, v) \<leftarrow> ?m. real v / ?n) = 1"
    using ne by simp
  have "\<bar>(\<Sum>(a, v) \<leftarrow> ?m. fdiv (real v) ?n) - (\<Sum>(a, v) \<leftarrow> ?m. real v / ?n)\<bar> \<le> length ?m * (1 / 2 ^ 40)"
  proof (rule sum_list_close)
    fix x assume "x \<in> set ?m"
    then have "snd x \<le> length rs"
      using addr_entries(3)[OF ord, of "fst x" "snd x" "map address rs"] by simp
    then have "\<bar>real (snd x) / ?n\<bar> \<le> 4096"
      using ne by (simp add: divide_le_eq)
    from rounding_close[OF this] show "\<bar>(case x of (a, v) \<Rightarrow> fdiv (real v) ?n) - (case x of (a, v) \<Rightarrow> real v / ?n)\<bar> \<le> 1 / 2 ^ 40"
      unfolding split_beta by linarith
  qed
  then show ?thesis
    unfolding one len by simp
qed

lemma log_addresses_le:
  assumes "rs \<noteq> []" and "card (address ` set rs) \<le> 2 ^ k" shows "log 2 (card (address ` set rs)) \<le> k"
proof -
  have "0 < card (address ` set rs)"
    using assms(1) by (simp add: card_gt_0_iff)
  moreover have "real (card (address ` set rs)) \<le> 2 ^ k"
    using assms(2) by (metis of_nat_le_iff of_nat_numeral of_nat_power)
  ultimately show ?thesis
    by (simp add: log_le_iff powr_realpow)
qed

lemma card_addresses: "card (address ` set rs) \<le> 2 ^ 16"
proof -
  have "card (address ` set rs) \<le> card (UNIV :: u16 set)"
    by (intro card_mono) simp_all
  then show ?thesis
    by (simp add: card_word)
qed

lemmas log_addresses = log_addresses_le[OF _ card_addresses]

lemma near_one:
  fixes S L K :: real
  assumes "\<bar>S - 1\<bar> \<le> 1 / 2 ^ 24" and "0 \<le> L" "L \<le> 16" and "K \<le> 65536"
  shows "S * L + (1 - S) / ln 2 + S / 64 + K * (2 / 2 ^ 40) \<le> L + 1 / 32"
proof -
  have S: "S - 1 \<le> 1 / 16777216" "1 - S \<le> 1 / 16777216"
    using assms(1) unfolding abs_le_iff by simp_all
  have "(S - 1) * L \<le> 1 / 16777216 * 16"
    using S(1) assms(2,3) by (intro mult_mono) simp_all
  then have "S * L \<le> L + 1 / 1048576"
    by (simp add: left_diff_distrib)
  moreover have "(1 - S) / ln 2 \<le> 1 / 1024"
    using frac_le[of "1 / 16777216" "1 - S" "2 / 3" "ln 2"] S(2) ln2_lower by simp
  moreover have "K * (2 / 2 ^ 40) \<le> 1 / 8388608"
    using assms(4) by simp
  moreover have "S / 64 \<le> 1 / 64 + 1 / 1024"
    using S(1) by simp
  ultimately have "S * L + (1 - S) / ln 2 + S / 64 + K * (2 / 2 ^ 40) \<le> L + 1 / 1048576 + 1 / 1024 + (1 / 64 + 1 / 1024) + 1 / 8388608"
    by (intro add_mono)
  then show ?thesis
    by simp
qed

lemma entropy_upper:
  assumes ord: "hash_order_ok ord" and n: "length rs < 2 ^ 53" and ne: "rs \<noteq> []"
  shows "entropy_of ord rs \<le> log 2 (card (address ` set rs)) + 1 / 32"
proof -
  let ?m = "addr_order ord (tally (map address rs))" and ?n = "real (length rs)" and ?K = "card (address ` set rs)"
  let ?qs = "map (\<lambda>(a, v). fdiv (real v) ?n) ?m"
  have len: "length ?m = ?K"
    using mset_eq_length[OF hash_order_perm(2)[OF ord], of "tally (map address rs)"] by (simp add: length_tally)
  have share: "1 / 2 ^ 53 \<le> fdiv (real v) ?n \<and> fdiv (real v) ?n \<le> 1" if "(a, v) \<in> set ?m" for a v
    using entry_share[OF ord n that] .
  have K: "0 < ?K" "real ?K \<le> 65536"
    using ne card_addresses[of rs] by (simp_all add: card_gt_0_iff)
  have S: "\<bar>sum_list ?qs - 1\<bar> \<le> 1 / 2 ^ 24"
    using shares_close[OF ord n ne] K(2) by (simp add: divide_le_eq)
  have L: "0 \<le> log 2 ?K" "log 2 ?K \<le> 16"
    using K(1) log_addresses_le[OF ne, of 16] K(2) by simp_all
  have "(\<Sum>q \<leftarrow> ?qs. entropy_share q) \<le> sum_list ?qs * log 2 ?K + (1 - sum_list ?qs) / ln 2 + sum_list ?qs / 64 + ?K * (2 / 2 ^ 40)"
  proof -
    have "0 < q" if "q \<in> set ?qs" for q
    proof -
      from that have "1 / 2 ^ 53 \<le> q"
        using share by auto
      then show ?thesis
        by (rule less_le_trans[rotated]) simp
    qed
    from sum_shares[of "real ?K" ?qs, OF _ this] show ?thesis
      using K(1) ne by (simp only: length_map len divide_self_if of_nat_0_less_iff of_nat_eq_0_iff) simp
  qed
  also have "\<dots> \<le> log 2 ?K + 1 / 32"
    using S L K(2) by (rule near_one)
  finally have s: "(\<Sum>q \<leftarrow> ?qs. entropy_share q) \<le> log 2 ?K + 1 / 32" .
  have "entropy_loop ?n 0 ?m \<le> 0 + (\<Sum>(k, v) \<leftarrow> ?m. entropy_share (fdiv (real v) ?n))"
    using s L share by (intro entropy_loop_upper) (simp_all add: case_prod_unfold o_def)
  with s show ?thesis
    by (simp add: entropy_of_def case_prod_unfold o_def)
qed

section \<open>Properties\<close>

text \<open>
  C34. Ranges. In a nonempty window that the five-second window manager emits, the first feature is the number of records,
  the four ratios lie between 0 and 1, the entropy lies between 0 and the logarithm of the number of distinct
  addresses plus a thirty-second, which is at most 16 and a thirty-second, and the mean and the deviation of the inter-arrival times lie
  between 0 and 5 seconds, rounding included.
\<close>

theorem feature_ranges:
  assumes ord: "hash_order_ok ord" and ok: "window_ok (ns_of_ms 5000) win" and ne: "records win \<noteq> []"
    and n: "length (records win) * 25 < 2 ^ 53"
  shows "let v = feature_values (FeatureExtractor_compute ord win) in
    (\<forall>i \<in> {1, 2, 4, 7}. 0 \<le> v ! i \<and> v ! i \<le> 1) \<and> v ! 0 = real (length (records win)) \<and>
    0 \<le> v ! 3 \<and> v ! 3 \<le> log 2 (card (address ` set (records win))) + 1 / 32 \<and> v ! 3 \<le> 16 + 1 / 32 \<and>
    (\<forall>i \<in> {5, 6}. 0 \<le> v ! i \<and> v ! i \<le> 5)"
proof -
  let ?rs = "records win"
  have n': "length ?rs < 2 ^ 53" "length ?rs * 5\<^sup>2 < 2 ^ 53"
    using n by auto
  have gaps: "gaps_le 5000000000 ?rs"
    using window_ok_gaps[OF ok] by (simp add: ns_of_ms_def)
  have dev: "0 \<le> mean_ia ?rs \<and> mean_ia ?rs \<le> 5" "0 \<le> std_ia ?rs \<and> std_ia ?rs \<le> 5" if "1 < length ?rs"
    using deviation_bounds[OF gaps, of 5 0] that n' by simp_all
  have r: "0 \<le> ratio (most_common ks) (length ?rs) \<and> ratio (most_common ks) (length ?rs) \<le> 1"
    if "length ks = length ?rs" for ks :: "'k list"
    using ratio_bounds[OF most_common_le[of ks]] that by simp
  have w: "0 \<le> ratio (length (filter isWrite ?rs)) (length ?rs) \<and> ratio (length (filter isWrite ?rs)) (length ?rs) \<le> 1"
    by (intro ratio_bounds) simp
  show ?thesis
    unfolding compute_values[OF ord ne n'(1)] Let_def
    using dev w r[of "map functionCode ?rs"] r[of "map protocol ?rs"] r[of "map address ?rs"] entropy_nonneg[OF ord]
      entropy_upper[OF ord n'(1) ne] log_addresses[OF ne]
    by simp
qed

theorem feature_ranges_witness:
  "feature_values (FeatureExtractor_compute insertion_order (sample_window sample_four)) ! 3 \<le> 2 + 1 / 32"
proof -
  let ?w = "sample_window sample_four"
  have w: "window_ok (ns_of_ms 5000) ?w" "records ?w \<noteq> []" "length (records ?w) = 4"
    by (simp_all add: window_ok_def sample_window_def sample_four_def sample_record_def ns_of_ms_def)
  have "card (address ` set (records ?w)) \<le> 2 ^ 2"
    using card_image_le[of "set (records ?w)" address] card_length[of "records ?w"] w(3) by simp
  then have "log 2 (card (address ` set (records ?w))) \<le> 2"
    using log_addresses_le[OF w(2), of 2] by simp
  moreover have "length (records ?w) * 25 < 2 ^ 53"
    unfolding w(3) by simp
  ultimately show ?thesis
    using feature_ranges[OF insertion_order_ok w(1,2)] unfolding Let_def by fastforce
qed

end
