(* ===== verification/Tolerance.thy ===== *)
theory Tolerance
  imports Response Feature_Ranges
begin

text \<open>
  How many writes the program tolerates: from the upper bound on the entropy feature, a bound below which a window with some writes is
  not decided High.
\<close>

section \<open>Few writes\<close>

lemma hst_few_writes:
  assumes ok: "features_ok fv" and w: "feature_values fv ! 1 \<le> 3 / 64" and e: "feature_values fv ! 3 \<le> 5"
  shows "HalfSpaceTrees_score fv \<le> 10"
proof -
  let ?v = "feature_values fv"
  have nn: "0 \<le> ?v ! 1" "0 \<le> ?v ! 3" "0 \<le> ?v ! 2" "?v ! 2 \<le> 1"
    using ok by (auto simp: features_ok_def Let_def)
  have a: "fmul (?v ! 1) 50 \<le> 75 / 32"
    using w by (intro fl.le_exact) simp_all
  have b: "fmul (?v ! 2) (5 / 2) \<le> 5 / 2"
    using nn by (intro fl.le_exact) simp_all
  have "?v ! 3 * ?v ! 1 \<le> 5 * (3 / 64)"
    using w e nn by (intro mult_mono) simp_all
  then have "fmul (?v ! 3) (?v ! 1) \<le> 15 / 64"
    by (intro fl.le_exact) simp_all
  then have c: "fmul (fmul (?v ! 3) (?v ! 1)) 20 \<le> 75 / 16"
    by (intro fl.le_exact) simp_all
  have "fadd (fmul (?v ! 1) 50) (fmul (?v ! 2) (5 / 2)) \<le> 155 / 32"
    using a b by (intro fl.le_exact) simp_all
  then have "fadd (fadd (fmul (?v ! 1) 50) (fmul (?v ! 2) (5 / 2))) (fmul (fmul (?v ! 3) (?v ! 1)) 20) \<le> 10"
    using c by (intro fl.le_exact) simp_all
  then show ?thesis
    using ok by (simp add: HalfSpaceTrees_score_def features_ok_def Let_def)
qed

lemma few_of_writes:
  assumes "25 * k \<le> n" and "0 < n" shows "ratio k n \<le> 3 / 64"
proof -
  have "25 * real k \<le> real n"
    using assms(1) by (metis of_nat_le_iff of_nat_mult of_nat_numeral)
  then have "real k / real n \<le> 3 / 64"
    using assms(2) by (simp add: field_simps)
  then show ?thesis
    unfolding ratio_def by (intro fl.le_exact) simp_all
qed

lemma scores_few_writes:
  assumes ord: "hash_order_ok ord" and w: "window_ok (ns_of_ms 5000) w" "records w \<noteq> []" and n: "length (records w) * 25 < 2 ^ 53"
    and few: "25 * length (filter isWrite (records w)) \<le> length (records w)"
    and addrs: "card (address ` set (records w)) \<le> 16" and gaps: "gaps_le (ns_of_ms 250) (records w)"
  shows "hstScore (scores ord w) \<le> 10 \<and> burstScore (scores ord w) \<le> 10"
proof -
  have n': "length (records w) < 2 ^ 53"
    using n by simp
  note wr = write_ratio[OF ord w(2) n'] and ok = scores_ok[OF ord w n]
  have "feature_values (FeatureExtractor_compute ord w) ! 1 \<le> 3 / 64"
    unfolding wr(1) using few w(2) by (intro few_of_writes) simp_all
  moreover have "feature_values (FeatureExtractor_compute ord w) ! 3 = entropy_of ord (records w)"
    unfolding compute_values[OF ord w(2) n'] Let_def by simp
  moreover have "entropy_of ord (records w) \<le> 5"
    using entropy_upper[OF ord n' w(2)] log_addresses_le[of "records w" 4] w(2) addrs by simp
  ultimately have h: "HalfSpaceTrees_score (FeatureExtractor_compute ord w) \<le> 10"
    using hst_few_writes[OF ok] by simp
  have "0 \<le> std_ia (records w) \<and> std_ia (records w) \<le> 1 / 4" if "1 < length (records w)"
    using deviation_bounds(2)[of 250000000 "records w" 1 2] gaps that n by (simp add: ns_of_ms_def)
  then have "BurstDetector_score (FeatureExtractor_compute ord w) \<le> 3 / 2"
    using wr by (intro burst_small) simp_all
  with h show ?thesis
    by (simp add: scores_def RiskModel_fuse_def Let_def)
qed

section \<open>Properties\<close>

text \<open>
  C10. Occasional writes are tolerated. In every run, a window of which at most a twenty-fifth are writes, to at most sixteen
  distinct addresses in all and with gaps of at most a quarter of a second, is not decided High, whatever was decided before: the
  flag of the risk model is off after it, and the enforcement engine does nothing.
\<close>

theorem occasional_writes_tolerated:
  assumes "\<forall>x \<in> set xs. hash_order_ok (hash (fst x))"
    and "r \<in> set (snd (prism_run xs prism_new))" and "analysed r = Some (w, d)"
    and "length (records w) * 25 < 2 ^ 53"
    and "25 * length (filter isWrite (records w)) \<le> length (records w)"
    and "card (address ` set (records w)) \<le> 16" and "gaps_le (ns_of_ms 250) (records w)"
  shows "level d \<noteq> High \<and> \<not> escalate d \<and> \<not> restrictWrites d \<and> calls r = []"
proof -
  obtain en p st where x: "(en, p) \<in> set xs" "r = packet_out en p st" "window_ok (ns_of_ms 5000) w" "records w \<noteq> []"
    using run_analysed[OF assms(2,3)] by blast
  have ord: "hash_order_ok (hash en)"
    using assms(1) x(1) by force
  have an: "analysed (packet_out en p st) = Some (w, d)"
    using assms(3) x(2) by simp
  have "risk_probability (scores (hash en) w) \<le> 1 / 2"
    using scores_few_writes[OF ord x(3,4) assms(4-7)] by (intro risk_probability_off) auto
  then have "\<not> next_on (isOn (riskModel st)) (risk_probability (scores (hash en) w))"
    using tauOn_gt_half by (auto simp: next_on_cases)
  then have d: "level d \<noteq> High" "\<not> escalate d" "\<not> restrictWrites d"
    using packet_decision(1)[OF an] by (auto simp: evaluate_decision Let_def)
  moreover have "apply_calls (net en, d) (enforcer st) = []"
    using d(1) by (auto simp: apply_calls_def EnforcementEngine_apply_def split: risk_level.split)
  ultimately show ?thesis
    using packet_decision(4)[OF an] x(2) by simp
qed

definition polling_times :: "timestamp list" where
  "polling_times = map (\<lambda>i. i * 200000000) [1, 2, 3, 4, 5, 6, 7, 8, 9, 10, 11, 12, 13, 14, 15, 16, 17, 18, 19, 20, 21, 22, 23, 24]"

theorem occasional_writes_tolerated_witness:
  "\<exists>x w d. x \<in> set (snd (prism_run ((steady 5 [0] @ steady 3 polling_times) @ steady 3 [5000000000]) prism_new)) \<and>
     analysed x = Some (w, d) \<and> length (filter isWrite (records w)) = 1 \<and> level d \<noteq> High"
proof -
  let ?ys = "steady 5 [0] @ steady 3 polling_times" and ?p = "modbus_packet 5000000000 3 10"
  let ?rs = "sample_record 0 True 5 10 # map (\<lambda>t. sample_record t False 3 10) polling_times"
  let ?w = "\<lparr>startTime = 0, endTime = 5000000000, records = ?rs @ [sample_record 5000000000 False 3 10]\<rparr>"
  have k: "kept_records ?ys = ?rs" "kept_record ?p = Some (sample_record 5000000000 False 3 10)"
    using kept_steady[of 5 "[0]"] kept_steady[of 3 polling_times] by (simp_all add: map_filter_append kept_modbus sample_record_def)
  have "snd (WindowManager_addRecord (manager_after ?rs) (sample_record 5000000000 False 3 10) no_window) = (?w, True)"
    by code_simp
  then obtain wm where e: "WindowManager_addRecord (manager_after ?rs) (sample_record 5000000000 False 3 10) no_window = (wm, ?w, True)"
    by (metis prod.collapse)
  obtain x d where x: "x \<in> set (snd (prism_run (?ys @ [(good_env, ?p)]) prism_new))" "analysed x = Some (?w, d)"
    by (rule last_packet_analysed[OF k e, of good_env]) simp_all
  have xs: "?ys @ [(good_env, ?p)] = ?ys @ steady 3 [5000000000]"
    by (simp add: steady_def)
  have ord: "\<forall>x \<in> set (?ys @ [(good_env, ?p)]). hash_order_ok (hash (fst x))"
    unfolding xs using steady_env by auto
  have f: "length (filter isWrite (records ?w)) = 1" "length (records ?w) = 26"
    by (simp_all add: polling_times_def sample_record_def)
  have "address ` set (records ?w) = {10}"
    by (auto simp: polling_times_def sample_record_def)
  then have a: "card (address ` set (records ?w)) \<le> 16"
    by (simp only:) simp
  have g: "gaps_le (ns_of_ms 250) (records ?w)"
    by (simp add: polling_times_def sample_record_def ns_of_ms_def)
  have few: "length (records ?w) * 25 < 2 ^ 53" "25 * length (filter isWrite (records ?w)) \<le> length (records ?w)"
    unfolding f by simp_all
  have "level d \<noteq> High"
    using occasional_writes_tolerated[OF ord x few a g] by blast
  with x f(1) show ?thesis
    unfolding xs by blast
qed

end
