(* ===== verification/Program_Run.thy ===== *)
theory Program_Run
  imports Detection "HOL-Library.Sublist"
begin

text \<open>
  The program from start to end as one run over the packets that its loop takes from the capture: which packets these are, in what
  order, when the loop is left, and what the main thread logs.
\<close>

section \<open>The fallback loop\<close>

lemma fallback_loop_Cons:
  "fallback_loop (i # is) st =
    (if still_running i then
       (case next_packet i of None \<Rightarrow> fallback_loop is st
        | Some p \<Rightarrow> let rest = fallback_loop is (packet_state (packet_env i) p st)
                    in (fst rest, packet_out (packet_env i) p st # fst (snd rest), snd (snd rest)))
     else (st, [], True))"
  by (simp add: packet_state_def packet_out_def case_prod_unfold Let_def split: option.split)

declare fallback_loop.simps(2) [simp del]

text \<open>The loop takes every packet up to the first test that reads \<^verbatim>\<open>running\<close> as false.\<close>

definition fallback_packets :: "loop_input list \<Rightarrow> (env \<times> raw_packet) list" where
  "fallback_packets is = List.map_filter input_of (takeWhile still_running is)"

lemma fallback_is_run:
  "fallback_loop is st = (fst (prism_run (fallback_packets is) st), snd (prism_run (fallback_packets is) st), \<exists>i \<in> set is. \<not> still_running i)"
  unfolding fallback_packets_def
proof (induction "is" arbitrary: st)
  case (Cons i "is")
  then show ?case
    by (cases "next_packet i") (simp_all add: fallback_loop_Cons map_filter_simps input_of_def prism_run_Cons Let_def)
qed (simp add: map_filter_simps)

section \<open>The poll loop\<close>

text \<open>
  The iterations before the loop is left: \<^verbatim>\<open>running\<close> reads true, and \<^verbatim>\<open>poll\<close> succeeds or was interrupted. The packets the
  capture offers to the drain of an iteration are those up to the first test that fails or finds nothing.
\<close>

definition iterations :: "poll_input list \<Rightarrow> poll_input list" where
  "iterations = takeWhile (\<lambda>p. poll_running p \<and> (0 \<le> poll_rc p \<or> poll_eintr p))"

definition offered :: "poll_input \<Rightarrow> (env \<times> raw_packet) list" where
  "offered p = (if 0 < poll_rc p \<and> pollin p then List.map_filter input_of (takeWhile delivers (arrivals p)) else [])"

text \<open>
  What one drain takes of what is offered, from a given state: all of it, or the shortest prefix with 1024 packets on paths that
  count.
\<close>

definition drained_of :: "prism \<Rightarrow> (env \<times> raw_packet) list \<Rightarrow> (env \<times> raw_packet) list \<Rightarrow> bool" where
  "drained_of st offer xs \<longleftrightarrow> prefix xs offer \<and>
     (let rs = snd (prism_run xs st)
      in (xs = [] \<or> length (filter counted (butlast rs)) < 1024) \<and>
         (xs = offer \<or> length (filter counted rs) = 1024))"

lemma take_takeWhile: "\<forall>x \<in> set (take k xs). P x \<Longrightarrow> prefix (take k xs) (takeWhile P xs)"
proof (induction xs arbitrary: k)
  case (Cons x xs)
  then show ?case
    by (cases k) auto
qed simp

lemma take_eq_takeWhile:
  "\<forall>x \<in> set (take k xs). P x \<Longrightarrow> k = length xs \<or> k < length xs \<and> \<not> P (xs ! k) \<Longrightarrow> take k xs = takeWhile P xs"
proof (induction xs arbitrary: k)
  case (Cons x xs)
  then show ?case
    by (cases k) auto
qed simp

lemma drain_takes:
  obtains xs where "drain_loop 0 is st = prism_run xs st" "drained_of st (List.map_filter input_of (takeWhile delivers is)) xs"
proof -
  obtain k where k: "k \<le> length is" "\<forall>i \<in> set (take k is). delivers i"
    "drain_loop 0 is st = prism_run (List.map_filter input_of (take k is)) st"
    "k = 0 \<or> length (filter counted (butlast (snd (drain_loop 0 is st)))) < max_drain"
    "k = length is \<or> \<not> delivers (is ! k) \<or> length (filter counted (snd (drain_loop 0 is st))) = max_drain"
    using drain_prefix[OF le0, of "is" st] unfolding add_0 by blast
  have "prefix (List.map_filter input_of (take k is)) (List.map_filter input_of (takeWhile delivers is))"
    using take_takeWhile[OF k(2)] by (auto simp: prefix_def map_filter_append)
  moreover have "take k is = takeWhile delivers is" if "k = length is \<or> \<not> delivers (is ! k)"
    using that k(1,2) by (intro take_eq_takeWhile) auto
  moreover have "List.map_filter input_of (take k is) = []" if "k = 0"
    using that by (simp add: map_filter_simps)
  ultimately have "drained_of st (List.map_filter input_of (takeWhile delivers is)) (List.map_filter input_of (take k is))"
    unfolding drained_of_def Let_def k(3)[symmetric] using k(4,5) unfolding max_drain_def by metis
  with k(3) show thesis
    by (rule that)
qed

lemma poll_loop_Cons:
  "poll_loop (p # ps) st =
    (if poll_running p \<and> (0 \<le> poll_rc p \<or> poll_eintr p) then
       (let start = (if 0 < poll_rc p \<and> pollin p then drain_loop 0 (arrivals p) st else (st, []));
            rest = poll_loop ps (fst start)
        in (fst rest, snd start @ fst (snd rest), snd (snd rest)))
     else (st, [], True))"
  by (auto simp: case_prod_unfold Let_def)

declare poll_loop.simps(2) [simp del]

text \<open>Consecutive drains, each from the state the one before has left.\<close>

definition drains :: "prism \<Rightarrow> poll_input list \<Rightarrow> (env \<times> raw_packet) list list \<Rightarrow> bool" where
  "drains st ps chunks \<longleftrightarrow> length chunks = length ps \<and>
     (\<forall>i < length ps. drained_of (fst (prism_run (concat (take i chunks)) st)) (offered (ps ! i)) (chunks ! i))"

lemma drains_Cons:
  assumes "drained_of st (offered p) xs" and "drains (fst (prism_run xs st)) ps chunks"
  shows "drains st (p # ps) (xs # chunks)"
  using assms unfolding drains_def
  by (auto simp: less_Suc_eq_0_disj prism_run_append)

lemma poll_loop_takes:
  "\<exists>chunks. drains st (iterations ps) chunks \<and>
    poll_loop ps st = (fst (prism_run (concat chunks) st), snd (prism_run (concat chunks) st), iterations ps \<noteq> ps)"
proof (induction ps arbitrary: st)
  case Nil
  show ?case
    by (intro exI[of _ "[]"]) (simp add: drains_def iterations_def)
next
  case (Cons p ps)
  show ?case
  proof (cases "poll_running p \<and> (0 \<le> poll_rc p \<or> poll_eintr p)")
    case True
    let ?start = "if 0 < poll_rc p \<and> pollin p then drain_loop 0 (arrivals p) st else (st, [])"
    obtain xs where xs: "?start = prism_run xs st" "drained_of st (offered p) xs"
    proof (cases "0 < poll_rc p \<and> pollin p")
      case True
      then show ?thesis
        using that by (rule_tac drain_takes[of "arrivals p" st]) (auto simp: offered_def)
    next
      case False
      then show ?thesis
        by (intro that[of "[]"]) (auto simp: offered_def drained_of_def)
    qed
    obtain chunks where c: "drains (fst (prism_run xs st)) (iterations ps) chunks"
      "poll_loop ps (fst (prism_run xs st)) =
        (fst (prism_run (concat chunks) (fst (prism_run xs st))), snd (prism_run (concat chunks) (fst (prism_run xs st))), iterations ps \<noteq> ps)"
      using Cons.IH by blast
    have it: "iterations (p # ps) = p # iterations ps"
      using True by (simp add: iterations_def)
    show ?thesis
      using drains_Cons[OF xs(2) c(1)] True
      by (intro exI[of _ "xs # chunks"]) (simp add: poll_loop_Cons xs(1) c(2) it prism_run_append Let_def)
  next
    case False
    then show ?thesis
      by (intro exI[of _ "[]"]) (auto simp: poll_loop_Cons drains_def iterations_def)
  qed
qed

lemma drained_of_longer:
  assumes "drained_of st offer xs" and "drained_of st offer (xs @ z # zs)" shows False
proof -
  let ?run = "\<lambda>xs. snd (prism_run xs st)"
  have "xs \<noteq> offer"
    using assms(2) by (auto simp: drained_of_def dest: prefix_length_le)
  then have "length (filter counted (?run xs)) = 1024"
    using assms(1) by (simp add: drained_of_def Let_def)
  moreover have "\<exists>r rs. ?run (xs @ z # zs) = ?run xs @ r # rs"
    by (simp add: prism_run_append prism_run_Cons)
  then have "length (filter counted (?run xs)) \<le> length (filter counted (butlast (?run (xs @ z # zs))))"
    by (auto simp: butlast_append)
  ultimately show False
    using assms(2) by (simp add: drained_of_def Let_def)
qed

lemma drained_of_unique: "drained_of st offer xs \<Longrightarrow> drained_of st offer ys \<Longrightarrow> xs = ys"
proof -
  assume a: "drained_of st offer xs" "drained_of st offer ys"
  then have "prefix xs offer" "prefix ys offer"
    by (simp_all add: drained_of_def)
  then have "prefix xs ys \<or> prefix ys xs"
    by (rule prefix_same_cases)
  with a drained_of_longer[of st offer] show "xs = ys"
    unfolding prefix_def by (metis append_Nil2 neq_Nil_conv)
qed

lemma drains_unique:
  assumes "drains st ps cs" and "drains st ps ds" shows "cs = ds"
proof -
  have "take n cs = take n ds" if "n \<le> length ps" for n
    using that
  proof (induction n)
    case (Suc n)
    then have eq: "take n cs = take n ds"
      by simp
    have c: "drained_of (fst (prism_run (concat (take n cs)) st)) (offered (ps ! n)) (cs ! n)"
      and d: "drained_of (fst (prism_run (concat (take n ds)) st)) (offered (ps ! n)) (ds ! n)"
      using assms Suc.prems by (simp_all add: drains_def)
    have "cs ! n = ds ! n"
      using drained_of_unique[OF c[unfolded eq] d] .
    with Suc assms show ?case
      by (simp add: take_Suc_conv_app_nth drains_def)
  qed simp
  from this[of "length ps"] show ?thesis
    using assms by (simp add: drains_def)
qed

section \<open>Properties\<close>

text \<open>The packets that the program takes, and whether it leaves its loop.\<close>

definition packets_taken :: "int \<Rightarrow> poll_input list \<Rightarrow> loop_input list \<Rightarrow> (env \<times> raw_packet) list \<Rightarrow> bool" where
  "packets_taken pcapFd polls is xs \<longleftrightarrow>
     (if 0 \<le> pcapFd then \<exists>chunks. drains prism_new (iterations polls) chunks \<and> xs = concat chunks
      else xs = fallback_packets is)"

definition loop_left :: "int \<Rightarrow> poll_input list \<Rightarrow> loop_input list \<Rightarrow> bool" where
  "loop_left pcapFd polls is \<longleftrightarrow> (if 0 \<le> pcapFd then iterations polls \<noteq> polls else \<exists>i \<in> set is. \<not> still_running i)"

text \<open>
  C40. The program is a run. Started with an interface that opens, the program takes one definite sequence of packets. In the poll loop it is made of
  the drains of the iterations before \<^verbatim>\<open>running\<close> reads false or \<^verbatim>\<open>poll\<close> fails otherwise than by an interrupt; each drain of a readable
  descriptor takes, in order, all that the capture offers, or stops right after 1024 packets on paths that count, and the other
  iterations take nothing. In the fallback loop it is every packet before \<^verbatim>\<open>running\<close> reads false. The state and
  the log of the main thread are those of a plain run over these packets, after the line of the start and, in the
  fallback, a warning; once the loop has been left the line of the shutdown follows and the program returns 0, and until then it is
  running. So what holds of all runs holds of the program.
\<close>

theorem program_is_run:
  "\<exists>!xs. packets_taken pcapFd polls is xs \<and>
    (let (st, rs) = prism_run xs prism_new;
         ls = Info (''PRISM starting on interface '' @ iface) #
           (if 0 \<le> pcapFd then [] else [Warn ''pcap_get_selectable_fd returned -1; using timeout fallback.'']) @
           concat (map log_lines rs);
         result = prism_main (prog # iface # rest) 0 None pcapFd polls is
     in if loop_left pcapFd polls is then result = Finished st (ls @ [Info ''PRISM shutting down.'']) \<and> exit_code result = Some 0
        else result = Running st ls \<and> exit_code result = None)"
proof -
  have "\<exists>xs. packets_taken pcapFd polls is xs \<and>
    (if 0 \<le> pcapFd then poll_loop polls prism_new else fallback_loop is prism_new) =
      (fst (prism_run xs prism_new), snd (prism_run xs prism_new), loop_left pcapFd polls is)"
    using poll_loop_takes[of prism_new polls] fallback_is_run[of "is" prism_new]
    by (auto simp: packets_taken_def loop_left_def)
  then obtain xs where xs: "packets_taken pcapFd polls is xs"
    "(if 0 \<le> pcapFd then poll_loop polls prism_new else fallback_loop is prism_new) =
      (fst (prism_run xs prism_new), snd (prism_run xs prism_new), loop_left pcapFd polls is)"
    by blast
  have "ys = xs" if "packets_taken pcapFd polls is ys" for ys
    using that xs(1) drains_unique by (auto simp: packets_taken_def split: if_splits)
  moreover have "let (st, rs) = prism_run xs prism_new;
         ls = Info (''PRISM starting on interface '' @ iface) #
           (if 0 \<le> pcapFd then [] else [Warn ''pcap_get_selectable_fd returned -1; using timeout fallback.'']) @
           concat (map log_lines rs);
         result = prism_main (prog # iface # rest) 0 None pcapFd polls is
     in if loop_left pcapFd polls is then result = Finished st (ls @ [Info ''PRISM shutting down.'']) \<and> exit_code result = Some 0
        else result = Running st ls \<and> exit_code result = None"
    using xs(2) by (cases "0 \<le> pcapFd") (simp_all add: prism_main_def main_end_def split_beta Let_def)
  ultimately show ?thesis
    using xs(1) by blast
qed

end
