(* ===== verification/Capture_Device.thy ===== *)
theory Capture_Device
  imports Capture
begin

text \<open>
  The class \<^verbatim>\<open>PcapCapture\<close> of \<^verbatim>\<open>capture/pcap.cpp\<close> as a sequential object: constructor, destructor, \<^verbatim>\<open>stop\<close>,
  \<^verbatim>\<open>nextPacket\<close> and \<^verbatim>\<open>getSelectableFd\<close>. libpcap is a parameter: what it answers is an argument of the
  operation, and each operation also returns the calls it makes into libpcap, in order. A handle is a
  number.

  The step relation of \<^verbatim>\<open>Capture\<close> splits the same operations at their critical sections; the simulation lemmas
  below relate the two.
\<close>

section \<open>The object\<close>

datatype pcap_call =
    Open_live string int int int    \<comment> \<open>device, snapshot length, promiscuous, timeout in milliseconds\<close>
  | Datalink nat
  | Compile_filter nat string
  | Set_filter nat
  | Free_code nat
  | Next_ex nat
  | Break_loop nat
  | Selectable_fd nat
  | Close_pcap nat

record pcap_capture =
  cap_handle :: "nat option"
  cap_active :: bool
  cap_linktype :: int

text \<open>The default member initialisers.\<close>

definition PcapCapture_init :: pcap_capture where
  "PcapCapture_init = \<lparr>cap_handle = None, cap_active = False, cap_linktype = DLT_EN10MB\<rparr>"

text \<open>
  What libpcap answers while the constructor runs: the error text or the handle of \<^verbatim>\<open>pcap_open_live\<close>, and the results of
  \<^verbatim>\<open>pcap_datalink\<close> and \<^verbatim>\<open>pcap_compile\<close>. The result of \<^verbatim>\<open>pcap_setfilter\<close> is not looked at.
\<close>

record open_answers =
  open_live_ret :: "(string, nat) result"
  datalink_ret :: int
  compile_ret :: int

text \<open>The constructor: the exception text, or the object.\<close>

definition PcapCapture_new ::
  "open_answers \<Rightarrow> string \<Rightarrow> bool \<Rightarrow> (string, pcap_capture) result \<times> pcap_call list" where
  "PcapCapture_new a deviceName promiscuous =
    (let timeoutMs = 1000;
         open_call = Open_live deviceName 65535 (if promiscuous then 1 else 0) timeoutMs
     in case open_live_ret a of
          Inl errbuf \<Rightarrow> (Inl (''pcap_open_live failed: '' @ errbuf), [open_call])
        | Inr h \<Rightarrow>
            let filter_calls = (if compile_ret a = 0 then [Set_filter h, Free_code h] else [])
            in (Inr (PcapCapture_init\<lparr>cap_linktype := datalink_ret a, cap_handle := Some h, cap_active := True\<rparr>),
                [open_call, Datalink h, Compile_filter h ''ip''] @ filter_calls))"

definition PcapCapture_destroy :: "pcap_capture \<Rightarrow> pcap_capture \<times> pcap_call list" where
  "PcapCapture_destroy c =
    (c\<lparr>cap_handle := None, cap_active := False\<rparr>,
     (case cap_handle c of None \<Rightarrow> [] | Some h \<Rightarrow> [Close_pcap h]))"

definition PcapCapture_stop :: "pcap_capture \<Rightarrow> pcap_capture \<times> pcap_call list" where
  "PcapCapture_stop c =
    (case cap_handle c of
       None \<Rightarrow> (c, [])
     | Some h \<Rightarrow> if \<not> cap_active c then (c, []) else (c\<lparr>cap_active := False\<rparr>, [Break_loop h]))"

text \<open>\<^verbatim>\<open>nextPacket\<close> does not change the object; its guard decides whether \<^verbatim>\<open>pcap_next_ex\<close> is called.\<close>

definition PcapCapture_nextPacket ::
  "pcap_capture \<Rightarrow> timestamp \<Rightarrow> pcap_result \<Rightarrow> (capture_error, raw_packet option) result \<times> pcap_call list" where
  "PcapCapture_nextPacket c now pr =
    (nextPacket (cap_handle c \<noteq> None) (cap_active c) (cap_linktype c) now pr,
     (case cap_handle c of Some h \<Rightarrow> if cap_active c then [Next_ex h] else [] | None \<Rightarrow> []))"

definition PcapCapture_getSelectableFd :: "pcap_capture \<Rightarrow> int \<Rightarrow> int \<times> pcap_call list" where
  "PcapCapture_getSelectableFd c fd_ret =
    (case cap_handle c of None \<Rightarrow> (- 1, []) | Some h \<Rightarrow> (fd_ret, [Selectable_fd h]))"

section \<open>Sequences of operations\<close>

datatype capture_op = Op_stop | Op_next timestamp pcap_result | Op_fd int

fun capture_op_step :: "capture_op \<Rightarrow> pcap_capture \<Rightarrow> pcap_capture \<times> pcap_call list" where
  "capture_op_step Op_stop c = PcapCapture_stop c"
| "capture_op_step (Op_next now pr) c = (c, snd (PcapCapture_nextPacket c now pr))"
| "capture_op_step (Op_fd fd_ret) c = (c, snd (PcapCapture_getSelectableFd c fd_ret))"

fun capture_ops :: "capture_op list \<Rightarrow> pcap_capture \<Rightarrow> pcap_capture \<times> pcap_call list" where
  "capture_ops [] c = (c, [])"
| "capture_ops (x # xs) c =
     (let (c1, calls1) = capture_op_step x c; (c2, calls2) = capture_ops xs c1 in (c2, calls1 @ calls2))"

lemma capture_ops_Cons:
  "fst (capture_ops (x # xs) c) = fst (capture_ops xs (fst (capture_op_step x c)))"
  "snd (capture_ops (x # xs) c) = snd (capture_op_step x c) @ snd (capture_ops xs (fst (capture_op_step x c)))"
  by (simp_all add: case_prod_unfold Let_def)

declare capture_ops.simps(2) [simp del]

lemmas capture_object_defs = PcapCapture_stop_def PcapCapture_nextPacket_def PcapCapture_getSelectableFd_def
  PcapCapture_destroy_def

lemma op_step_handle: "cap_handle (fst (capture_op_step x c)) = cap_handle c"
  by (cases x) (auto simp: capture_object_defs split: option.split)

lemma ops_handle: "cap_handle (fst (capture_ops xs c)) = cap_handle c"
  by (induction xs arbitrary: c) (simp_all add: capture_ops_Cons op_step_handle)

lemma op_step_active: "cap_handle c = Some h \<Longrightarrow> cap_active (fst (capture_op_step x c)) = (cap_active c \<and> x \<noteq> Op_stop)"
  by (cases x) (auto simp: capture_object_defs)

text \<open>Once stopped, the object is never active again.\<close>

interpretation capture_stopped: latch "\<lambda>x c. fst (capture_op_step x c)" "\<lambda>c. \<not> cap_active c"
proof
  fix c and x :: capture_op
  show "\<not> cap_active c \<Longrightarrow> \<not> cap_active (fst (capture_op_step x c))"
    by (cases x) (auto simp: capture_object_defs split: option.split)
qed

text \<open>An inactive object only asks for the descriptor.\<close>

lemma ops_inactive:
  "cap_handle c = Some h \<Longrightarrow> \<not> cap_active c \<Longrightarrow> set (snd (capture_ops xs c)) \<subseteq> {Selectable_fd h}"
proof (induction xs arbitrary: c)
  case (Cons x xs)
  have "set (snd (capture_op_step x c)) \<subseteq> {Selectable_fd h}"
    using Cons.prems by (cases x) (auto simp: capture_object_defs)
  moreover have "set (snd (capture_ops xs (fst (capture_op_step x c)))) \<subseteq> {Selectable_fd h}"
    using Cons.prems op_step_handle op_step_active by (intro Cons.IH) auto
  ultimately show ?case
    by (simp add: capture_ops_Cons)
qed simp

text \<open>An active one fetches and asks until the first \<^verbatim>\<open>stop\<close>, which breaks the loop once.\<close>

lemma ops_active:
  assumes "cap_handle c = Some h" and "cap_active c"
  shows "\<exists>us vs. set us \<subseteq> {Next_ex h, Selectable_fd h} \<and> set vs \<subseteq> {Selectable_fd h} \<and>
    snd (capture_ops xs c) = us @ (if Op_stop \<in> set xs then [Break_loop h] else []) @ vs"
  using assms
proof (induction xs arbitrary: c)
  case Nil
  show ?case by (intro exI[of _ "[]"]) simp
next
  case (Cons x xs)
  show ?case
  proof (cases "x = Op_stop")
    case True
    let ?c = "fst (capture_op_step x c)"
    have "set (snd (capture_ops xs ?c)) \<subseteq> {Selectable_fd h}"
      using Cons.prems True by (intro ops_inactive) (auto simp: PcapCapture_stop_def)
    with Cons.prems True show ?thesis
      by (intro exI[of _ "[]"] exI[of _ "snd (capture_ops xs ?c)"]) (simp add: capture_ops_Cons PcapCapture_stop_def)
  next
    case False
    then have e: "fst (capture_op_step x c) = c" "set (snd (capture_op_step x c)) \<subseteq> {Next_ex h, Selectable_fd h}"
      using Cons.prems by (cases x; auto simp: capture_object_defs)+
    obtain us vs where "set us \<subseteq> {Next_ex h, Selectable_fd h} \<and> set vs \<subseteq> {Selectable_fd h} \<and>
        snd (capture_ops xs c) = us @ (if Op_stop \<in> set xs then [Break_loop h] else []) @ vs"
      using Cons.IH[OF Cons.prems] by blast
    with False e show ?thesis
      by (intro exI[of _ "snd (capture_op_step x c) @ us"] exI[of _ vs]) (auto simp: capture_ops_Cons)
  qed
qed

section \<open>The object and the step relation\<close>

text \<open>
  The guarded part of the state of \<^verbatim>\<open>Capture\<close> is an abstraction of the object. \<^verbatim>\<open>stop\<close> and the destructor are their critical sections followed by
  one call into libpcap when the section says so.
\<close>

definition represents :: "pcap_capture \<Rightarrow> capture_sys \<Rightarrow> bool" where
  "represents c s \<longleftrightarrow> has_handle s = (cap_handle c \<noteq> None) \<and> active s = cap_active c"

lemma stop_is_section:
  assumes "represents c s"
  shows "represents (fst (PcapCapture_stop c)) (snd (stop_section s))"
    and "snd (PcapCapture_stop c) = (if fst (stop_section s) then [Break_loop (the (cap_handle c))] else [])"
  using assms by (auto simp: represents_def PcapCapture_stop_def stop_section_def split: option.split)

lemma destroy_is_section:
  assumes "represents c s"
  shows "represents (fst (PcapCapture_destroy c)) (snd (destroy_section s))"
    and "snd (PcapCapture_destroy c) = (if fst (destroy_section s) then [Close_pcap (the (cap_handle c))] else [])"
  using assms by (auto simp: represents_def PcapCapture_destroy_def destroy_section_def split: option.split)

lemma new_represents: "PcapCapture_new a dev pm = (Inr c, calls) \<Longrightarrow> represents c capture_start"
  by (auto simp: PcapCapture_new_def represents_def capture_start_def Let_def split: sum.splits)

lemma next_enters: "represents c s \<Longrightarrow> snd (PcapCapture_nextPacket c now pr) \<noteq> [] \<longleftrightarrow> has_handle s \<and> active s"
  by (auto simp: represents_def PcapCapture_nextPacket_def split: option.split)

text \<open>Whatever frames arrive, only IPv4 packets come out of the decoder.\<close>

lemma decoded_is_ipv4:
  assumes "decode_frame linktype now len data = Inr (Some p)"
  shows "link_header linktype < length data \<and> drop_bit 4 (data ! link_header linktype) = 4 \<and>
    link_header linktype + 20 \<le> len \<and> pkt_timestamp p = now"
proof -
  let ?l = "link_header linktype"
  have len: "\<not> len < ?l + 20"
    using assms by (auto simp: decode_frame_def Let_def split: if_splits)
  obtain v where v: "byte_at data ?l = Inr v" "drop_bit 4 v = 4"
    using assms by (auto simp: decode_frame_def bind_result_Inr Let_def split: if_splits)
  have "pkt_timestamp p = now"
    using assms by (auto simp: decode_frame_def bind_result_Inr Let_def split: if_splits)
  with len v show ?thesis
    by (auto simp: byte_at_def split: if_splits)
qed

lemma next_active_packet:
  assumes "PcapCapture_nextPacket c now pr = (Inr (Some p), calls)"
  obtains h len data where "cap_handle c = Some h" "cap_active c" "delivered pr = Some (len, data)"
    "decode_frame (cap_linktype c) now len data = Inr (Some p)" "calls = [Next_ex h]"
  using assms
  by (auto simp: PcapCapture_nextPacket_def nextPacket_def split: if_splits option.splits)

section \<open>Properties\<close>

text \<open>
  C23. Opening the capture. The constructor throws exactly when libpcap cannot open the device; then the
  text names the failure, libpcap was called only once, and there is no handle to close. Otherwise the object is
  active on the handle it was given with the link type of the device, whatever becomes of the filter, and a filter is
  installed exactly when it compiles. That a missing filter is ignored is harmless: whatever frames arrive,
  each packet the object returns comes from a frame with an IPv4 header.
\<close>

theorem capture_open_outcomes:
  "(case PcapCapture_new a dev promisc of
      (Inl msg, calls) \<Rightarrow> (\<exists>errbuf. open_live_ret a = Inl errbuf \<and> msg = ''pcap_open_live failed: '' @ errbuf) \<and>
        calls = [Open_live dev 65535 (if promisc then 1 else 0) 1000]
    | (Inr c, calls) \<Rightarrow> open_live_ret a = Inr (the (cap_handle c)) \<and> cap_handle c \<noteq> None \<and> cap_active c \<and>
        cap_linktype c = datalink_ret a \<and>
        (Set_filter (the (cap_handle c)) \<in> set calls) = (compile_ret a = 0) \<and>
        (\<forall>now pr p. fst (PcapCapture_nextPacket c now pr) = Inr (Some p) \<longrightarrow>
           (\<exists>len data. delivered pr = Some (len, data) \<and> res pr = 1 \<and> pkt_timestamp p = now \<and>
              drop_bit 4 (data ! link_header (datalink_ret a)) = 4)))"
proof (cases "open_live_ret a")
  case (Inl errbuf)
  then show ?thesis
    by (simp add: PcapCapture_new_def Let_def)
next
  case (Inr h)
  have "\<exists>len data. delivered pr = Some (len, data) \<and> res pr = 1 \<and> pkt_timestamp p = now \<and>
      drop_bit 4 (data ! link_header lt) = 4"
    if "nextPacket True True lt now pr = Inr (Some p)" for lt now pr p
    using that decoded_is_ipv4[of lt now _ _ p] by (auto simp: nextPacket_def split: if_splits option.splits)
  with Inr show ?thesis
    by (simp add: PcapCapture_new_def PcapCapture_init_def PcapCapture_nextPacket_def Let_def)
qed

theorem capture_open_outcomes_witness:
  "fst (PcapCapture_new \<lparr>open_live_ret = Inl ''no such device'', datalink_ret = 1, compile_ret = 0\<rparr> ''eth9'' True) =
   Inl ''pcap_open_live failed: no such device''"
proof -
  let ?a = "\<lparr>open_live_ret = Inl ''no such device'', datalink_ret = 1, compile_ret = 0\<rparr> :: open_answers"
  obtain r calls where r: "PcapCapture_new ?a ''eth9'' True = (r, calls)"
    by fastforce
  show ?thesis
    using capture_open_outcomes[of ?a "''eth9''" True] unfolding r by (cases r) auto
qed

text \<open>
  C14. Discipline of the handle. After a successful construction, let any operations be called in any order, and
  then the destructor. The handle is closed exactly once, at the very end; all calls in between
  are on the open handle; its loop is broken exactly once if \<^verbatim>\<open>stop\<close> was called at all, and no packet is fetched
  after that; and nothing called on the destroyed object reaches libpcap.
\<close>

theorem capture_handle_discipline:
  assumes "PcapCapture_new a dev promisc = (Inr c, opening)" and "open_live_ret a = Inr h"
  shows "\<exists>us vs. snd (capture_ops ops c) = us @ (if Op_stop \<in> set ops then [Break_loop h] else []) @ vs \<and>
    set us \<subseteq> {Next_ex h, Selectable_fd h} \<and> set vs \<subseteq> {Selectable_fd h} \<and>
    snd (PcapCapture_destroy (fst (capture_ops ops c))) = [Close_pcap h] \<and>
    snd (capture_ops later (fst (PcapCapture_destroy (fst (capture_ops ops c))))) = []"
proof -
  have c: "cap_handle c = Some h" "cap_active c"
    using assms by (auto simp: PcapCapture_new_def Let_def)
  have dead: "snd (capture_ops xs d) = []" if "cap_handle d = None" for xs d
    using that
  proof (induction xs arbitrary: d)
    case (Cons x xs)
    moreover have "snd (capture_op_step x d) = []"
      using Cons.prems by (cases x) (auto simp: capture_object_defs)
    ultimately show ?case
      by (simp add: capture_ops_Cons op_step_handle)
  qed simp
  obtain us vs where "set us \<subseteq> {Next_ex h, Selectable_fd h}" "set vs \<subseteq> {Selectable_fd h}"
    "snd (capture_ops ops c) = us @ (if Op_stop \<in> set ops then [Break_loop h] else []) @ vs"
    using ops_active[OF c, of ops] by blast
  then show ?thesis
    by (intro exI[of _ us] exI[of _ vs]) (simp add: PcapCapture_destroy_def ops_handle c dead)
qed

theorem capture_handle_discipline_witness:
  "let c = \<lparr>cap_handle = Some 3, cap_active = True, cap_linktype = DLT_EN10MB\<rparr>;
       ops = [Op_fd 7, Op_next 0 \<lparr>res = 0, delivered = None\<rparr>, Op_stop, Op_stop, Op_next 1 \<lparr>res = 0, delivered = None\<rparr>]
   in snd (capture_ops ops c) = [Selectable_fd 3, Next_ex 3, Break_loop 3] \<and>
      snd (PcapCapture_destroy (fst (capture_ops ops c))) = [Close_pcap 3]"
proof -
  let ?a = "\<lparr>open_live_ret = Inr 3, datalink_ret = DLT_EN10MB, compile_ret = 0\<rparr> :: open_answers"
  let ?c = "\<lparr>cap_handle = Some 3, cap_active = True, cap_linktype = DLT_EN10MB\<rparr> :: pcap_capture"
  let ?ops = "[Op_fd 7, Op_next 0 \<lparr>res = 0, delivered = None\<rparr>, Op_stop, Op_stop, Op_next 1 \<lparr>res = 0, delivered = None\<rparr>]"
  have new: "PcapCapture_new ?a ''eth0'' True = (Inr ?c, snd (PcapCapture_new ?a ''eth0'' True))" "open_live_ret ?a = Inr 3"
    by (simp_all add: PcapCapture_new_def PcapCapture_init_def Let_def)
  have "snd (capture_ops ?ops ?c) = [Selectable_fd 3, Next_ex 3, Break_loop 3]"
    by (simp add: capture_ops_Cons capture_object_defs)
  moreover have "snd (PcapCapture_destroy (fst (capture_ops ?ops ?c))) = [Close_pcap 3]"
    using capture_handle_discipline[OF new, of ?ops "[]"] by blast
  ultimately show ?thesis
    by (simp add: Let_def)
qed

end
