(* ===== verification/Log_Lines.thy ===== *)
theory Log_Lines
  imports Pipeline
begin

text \<open>
  The logger under concurrency. The main thread and the signal watcher share one \<^verbatim>\<open>Logger\<close>. A call of \<^verbatim>\<open>Logger::log\<close> takes the mutex and
  writes its line to standard error in seven pieces, one per \<^verbatim>\<open><<\<close>; \<^verbatim>\<open>std::cerr\<close> is unbuffered, so each piece can reach the
  terminal by itself. The step relation has one step per lock operation and per piece, for any number of threads, each with a
  list of calls to make. The text of the time is computed before the lock is taken and is part of the call.
\<close>

section \<open>Steps\<close>

type_synonym timed_call = "string \<times> log_call"

fun level_text :: "log_call \<Rightarrow> string" where
  "level_text (Info msg) = ''INFO''"
| "level_text (Warn msg) = ''WARN''"
| "level_text (Error msg) = ''ERROR''"

fun message_text :: "log_call \<Rightarrow> string" where
  "message_text (Info msg) = msg"
| "message_text (Warn msg) = msg"
| "message_text (Error msg) = msg"

text \<open>The operands of \<^verbatim>\<open><<\<close>, in order.\<close>

definition line_pieces :: "timed_call \<Rightarrow> string list" where
  "line_pieces c = [''['', fst c, ''] '', level_text (snd c), '': '', message_text (snd c), [CHR 0x0A]]"

text \<open>The owner of the mutex with the pieces it has still to write, what was written, and the calls each thread has still to make.\<close>

record logger_sys =
  mutex_owner :: "nat option"
  pieces_left :: "string list"
  err_text :: string
  calls_left :: "nat \<Rightarrow> timed_call list"

inductive logger_step :: "logger_sys \<Rightarrow> logger_sys \<Rightarrow> bool" where
  take_lock: "mutex_owner s = None \<Longrightarrow> calls_left s t = c # cs \<Longrightarrow>
    logger_step s (s\<lparr>mutex_owner := Some t, pieces_left := line_pieces c, calls_left := (calls_left s)(t := cs)\<rparr>)"
| write_piece: "mutex_owner s = Some t \<Longrightarrow> pieces_left s = p # ps \<Longrightarrow>
    logger_step s (s\<lparr>pieces_left := ps, err_text := err_text s @ p\<rparr>)"
| drop_lock: "mutex_owner s = Some t \<Longrightarrow> pieces_left s = [] \<Longrightarrow> logger_step s (s\<lparr>mutex_owner := None\<rparr>)"

inductive_cases logger_stepE: "logger_step s s'"

lemmas logger_step_cases = logger_stepE [consumes 1, case_names take_lock write_piece drop_lock]

definition logger_start :: "string \<Rightarrow> (nat \<Rightarrow> timed_call list) \<Rightarrow> logger_sys" where
  "logger_start err progs = \<lparr>mutex_owner = None, pieces_left = [], err_text = err, calls_left = progs\<rparr>"

inductive logger_reach :: "string \<Rightarrow> (nat \<Rightarrow> timed_call list) \<Rightarrow> logger_sys \<Rightarrow> bool" for err progs where
  start: "logger_reach err progs (logger_start err progs)"
| step: "logger_reach err progs s \<Longrightarrow> logger_step s s' \<Longrightarrow> logger_reach err progs s'"

section \<open>Every history is a sequence of whole lines\<close>

text \<open>The sequential logger: the calls of a history, one after the other.\<close>

definition emit_all :: "(nat \<times> timed_call) list \<Rightarrow> string \<Rightarrow> string" where
  "emit_all hist err = fold (\<lambda>(t, now, c). emit now c) hist err"

definition calls_of :: "nat \<Rightarrow> (nat \<times> timed_call) list \<Rightarrow> timed_call list" where
  "calls_of t hist = map snd (filter (\<lambda>x. fst x = t) hist)"

lemma emit_pieces: "emit now c err = err @ concat (line_pieces (now, c))"
  by (cases c) (simp_all add: line_pieces_def Logger_info_def Logger_warn_def Logger_error_def Logger_log_def)

lemma emit_all_snoc: "emit_all (hist @ [(t, c)]) err = emit_all hist err @ concat (line_pieces c)"
  by (cases c) (simp add: emit_all_def emit_pieces)

lemma calls_of_snoc: "calls_of u (hist @ [(t, c)]) = calls_of u hist @ (if u = t then [c] else [])"
  by (simp add: calls_of_def)

text \<open>
  What the mutex ensures: there is a history of calls, in which each thread's calls come in its order, such that the text is what the
  sequential logger writes, up to the pieces of the last line that its owner has still to write.
\<close>

definition serialised :: "string \<Rightarrow> (nat \<Rightarrow> timed_call list) \<Rightarrow> (nat \<times> timed_call) list \<Rightarrow> logger_sys \<Rightarrow> bool" where
  "serialised err progs hist s \<longleftrightarrow>
     (\<forall>t. calls_of t hist @ calls_left s t = progs t) \<and>
     err_text s @ concat (pieces_left s) = emit_all hist err \<and>
     (mutex_owner s = None \<longrightarrow> pieces_left s = []) \<and>
     (\<forall>t. mutex_owner s = Some t \<longrightarrow> hist \<noteq> [] \<and> fst (last hist) = t \<and>
        (\<exists>ps. line_pieces (snd (last hist)) = ps @ pieces_left s))"

lemma serialised_start: "serialised err progs [] (logger_start err progs)"
  by (simp add: serialised_def logger_start_def calls_of_def emit_all_def)

lemma serialised_step:
  assumes "serialised err progs hist s" and "logger_step s s'"
  shows "\<exists>hist'. serialised err progs hist' s'"
  using assms(2)
proof (cases rule: logger_step_cases)
  case (take_lock t c cs)
  have "calls_of t hist @ c # cs = progs t"
    using assms(1) take_lock(3) by (metis serialised_def)
  then have "serialised err progs (hist @ [(t, c)]) s'"
    using assms(1) take_lock by (auto simp: serialised_def emit_all_snoc calls_of_snoc)
  then show ?thesis by blast
next
  case (write_piece t p ps)
  have "serialised err progs hist s'"
    using assms(1) write_piece by (auto simp: serialised_def)
  then show ?thesis by blast
next
  case (drop_lock t)
  have "serialised err progs hist s'"
    using assms(1) drop_lock by (auto simp: serialised_def)
  then show ?thesis by blast
qed

lemma reach_serialised: "logger_reach err progs s \<Longrightarrow> \<exists>hist. serialised err progs hist s"
  by (induction rule: logger_reach.induct) (use serialised_start serialised_step in blast)+

text \<open>Work left: every step reduces it, and as long as there is some, a step is possible.\<close>

definition work_left :: "nat set \<Rightarrow> logger_sys \<Rightarrow> nat" where
  "work_left T s = (\<Sum>t \<in> T. 9 * length (calls_left s t)) + length (pieces_left s) + (if mutex_owner s = None then 0 else 1)"

lemma step_reduces:
  assumes "finite T" and "\<forall>t. t \<notin> T \<longrightarrow> calls_left s t = []" and "logger_step s s'"
  shows "work_left T s' < work_left T s" and "\<forall>t. t \<notin> T \<longrightarrow> calls_left s' t = []"
proof -
  have "work_left T s' < work_left T s \<and> (\<forall>t. t \<notin> T \<longrightarrow> calls_left s' t = [])"
    using assms(3)
  proof (cases rule: logger_step_cases)
    case (take_lock t c cs)
    then have t: "t \<in> T"
      using assms(2) by force
    have "(\<Sum>u \<in> T. 9 * length (calls_left s u)) = 9 * length (calls_left s t) + (\<Sum>u \<in> T - {t}. 9 * length (calls_left s u))"
      using assms(1) t by (rule sum.remove)
    moreover have "(\<Sum>u \<in> T. 9 * length (((calls_left s)(t := cs)) u)) = 9 * length cs + (\<Sum>u \<in> T - {t}. 9 * length (calls_left s u))"
      using assms(1) t by (simp add: sum.remove)
    ultimately show ?thesis
      using take_lock assms(2) t by (auto simp: work_left_def line_pieces_def)
  next
    case (write_piece t p ps)
    then show ?thesis using assms(2) by (simp add: work_left_def)
  next
    case (drop_lock t)
    then show ?thesis using assms(2) by (simp add: work_left_def)
  qed
  then show "work_left T s' < work_left T s" "\<forall>t. t \<notin> T \<longrightarrow> calls_left s' t = []"
    by blast+
qed

lemma can_step:
  assumes "mutex_owner s \<noteq> None \<or> calls_left s t \<noteq> []" shows "\<exists>s'. logger_step s s'"
proof (cases "mutex_owner s")
  case None
  then show ?thesis
    using assms by (cases "calls_left s t") (auto intro: logger_step.take_lock)
next
  case (Some u)
  then show ?thesis
    by (cases "pieces_left s") (auto intro: logger_step.write_piece logger_step.drop_lock)
qed

section \<open>Properties\<close>

text \<open>
  C15. Log lines are never mixed. Whatever the threads log and however they interleave, at every moment there is a
  history of whole calls in which each thread's calls come in its own order, such that standard error holds the lines of the history as
  the sequential logger writes them, except that of the last line, while its thread holds the mutex, some pieces are
  still missing; when nobody holds the mutex every line is complete.
\<close>

theorem log_lines_never_mix:
  assumes "logger_reach err progs s"
  shows "\<exists>hist. (\<forall>t. calls_of t hist @ calls_left s t = progs t) \<and>
    err_text s @ concat (pieces_left s) = emit_all hist err \<and>
    (mutex_owner s = None \<longrightarrow> err_text s = emit_all hist err)"
  using reach_serialised[OF assms] by (auto simp: serialised_def)

definition two_loggers :: "nat \<Rightarrow> timed_call list" where
  "two_loggers t = (if t = 0 then [(''10:00:00'', Info ''PRISM shutting down.'')]
     else if t = 1 then [(''10:00:00'', watcher_line 0 2)] else [])"

text \<open>The line of the watcher is still missing when the main thread has finished.\<close>

lemma main_finished_first:
  "\<exists>s. logger_reach '''' two_loggers s \<and> calls_left s 0 = [] \<and> mutex_owner s = None \<and> calls_left s 1 \<noteq> []"
proof -
  let ?c = "(''10:00:00'', Info ''PRISM shutting down.'') :: timed_call"
  let ?l = "(two_loggers)(0 := [])"
  let ?s = "\<lambda>e ps. \<lparr>mutex_owner = Some 0, pieces_left = ps, err_text = e, calls_left = ?l\<rparr>"
  have "logger_step (logger_start '''' two_loggers) (?s '''' (line_pieces ?c))"
    using logger_step.take_lock[of "logger_start '''' two_loggers" 0 ?c "[]"]
    by (simp add: logger_start_def two_loggers_def)
  then have "logger_reach '''' two_loggers (?s '''' (line_pieces ?c))"
    by (rule logger_reach.step[OF logger_reach.start])
  moreover have "logger_reach '''' two_loggers (?s (e @ concat ps) [])" if "logger_reach '''' two_loggers (?s e ps)" for e ps
    using that
  proof (induction ps arbitrary: e)
    case (Cons p ps)
    have "logger_step (?s e (p # ps)) (?s (e @ p) ps)"
      using logger_step.write_piece[of "?s e (p # ps)" 0 p ps] by simp
    with Cons.prems have "logger_reach '''' two_loggers (?s (e @ p) ps)"
      by (rule logger_reach.step)
    from Cons.IH[OF this] show ?case
      by simp
  qed simp
  ultimately have "logger_reach '''' two_loggers (?s (concat (line_pieces ?c)) [])"
    by fastforce
  moreover have "logger_step (?s (concat (line_pieces ?c)) []) (?s (concat (line_pieces ?c)) []\<lparr>mutex_owner := None\<rparr>)"
    by (rule logger_step.drop_lock[of _ 0]) simp_all
  ultimately have "logger_reach '''' two_loggers (?s (concat (line_pieces ?c)) []\<lparr>mutex_owner := None\<rparr>)"
    by (rule logger_reach.step)
  then show ?thesis
    by (intro exI[of _ "?s (concat (line_pieces ?c)) []\<lparr>mutex_owner := None\<rparr>"]) (simp add: two_loggers_def)
qed

theorem log_lines_never_mix_witness:
  "\<exists>s hist. logger_reach '''' two_loggers s \<and> calls_of 0 hist = two_loggers 0 \<and> err_text s = emit_all hist ''''"
proof -
  obtain s where s: "logger_reach '''' two_loggers s" "calls_left s 0 = []" "mutex_owner s = None"
    using main_finished_first by blast
  from log_lines_never_mix[OF s(1)] s show ?thesis
    by (metis append_Nil2)
qed

text \<open>
  C38. Logging always finishes. For finitely many threads every step of the logger reduces the work left, and as long as some thread
  has a call to make or holds the mutex some step is possible: no interleaving deadlocks or runs forever.
\<close>

theorem logging_finishes:
  assumes "finite T" and "\<forall>t. t \<notin> T \<longrightarrow> calls_left s t = []"
  shows "(\<forall>s'. logger_step s s' \<longrightarrow> work_left T s' < work_left T s \<and> (\<forall>t. t \<notin> T \<longrightarrow> calls_left s' t = [])) \<and>
    (mutex_owner s \<noteq> None \<or> (\<exists>t \<in> T. calls_left s t \<noteq> []) \<longrightarrow> (\<exists>s'. logger_step s s'))"
  using step_reduces[OF assms] can_step by blast

theorem logging_finishes_witness: "\<exists>s'. logger_step (logger_start '''' two_loggers) s'"
proof -
  have "finite {0, 1 :: nat}" "\<forall>t. t \<notin> {0, 1} \<longrightarrow> calls_left (logger_start '''' two_loggers) t = []"
    by (simp_all add: logger_start_def two_loggers_def)
  from logging_finishes[OF this] show ?thesis
    by (simp add: logger_start_def two_loggers_def)
qed

end
