(* ===== verification/Spec2Isabelle.thy ===== *)
theory Spec2Isabelle
  imports Flow_Table Sim_Program Sim_Legacy Wire Tolerance Program_Run Capture_Device Log_Lines
begin

text \<open>
  A verification development for PRISM, an intrusion detector for industrial networks in C++, and for the
  protocol simulator \<^verbatim>\<open>PRISM_simulator\<close> that ships with it. PRISM captures packets, turns Modbus, DNP3 and
  IEC-104 messages into records, collects records in sliding windows, computes eight features per window,
  scores them with two detectors, fuses the scores into a risk decision with hysteresis, and on a High decision
  sends a safety coil to the PLC, whose server in the simulator then refuses writes.

  \<^bold>\<open>Theories and sources\<close> (paths under \<^verbatim>\<open>src/PRISM/src\<close> unless said otherwise)
  \<^item> \<^verbatim>\<open>Prelude\<close>: integer types, big-endian fields, results, and the locales \<^verbatim>\<open>codec\<close> (encoder and decoder) and
    \<^verbatim>\<open>latch\<close> (a flag no operation clears), with generic list lemmas.
  \<^item> \<^verbatim>\<open>Double\<close>: the type \<^verbatim>\<open>double\<close> as rounded real arithmetic, with the locale \<^verbatim>\<open>rounding\<close>.
  \<^item> \<^verbatim>\<open>Format\<close>, \<^verbatim>\<open>Sockets\<close>: printing of numbers and addresses; the POSIX calls as events, and the locale
    \<^verbatim>\<open>fd_neutral\<close> of operations that close what they open.
  \<^item> \<^verbatim>\<open>Prism_Types\<close>: the structs of \<^verbatim>\<open>include/prism.hpp\<close>, one record or datatype each, and the logger
    with its copy in \<^verbatim>\<open>utils/logger.cpp\<close>.
  \<^item> \<^verbatim>\<open>Flow_Table\<close>: \<^verbatim>\<open>parser/flow_table.cpp\<close>; the table reports the direction of the first packet of a flow.
  \<^item> \<^verbatim>\<open>Parsers\<close>: \<^verbatim>\<open>parser/proto_classifier.cpp\<close> and the three parsers, with the locale \<^verbatim>\<open>record_parser\<close> of what the
    main loop expects of them.
  \<^item> \<^verbatim>\<open>Window_Manager\<close>: \<^verbatim>\<open>window/window_manager.cpp\<close> (\<^verbatim>\<open>WindowManager_addRecord\<close>, \<^verbatim>\<open>evict\<close>), an abstract manager with
    unbounded history which it refines, the locale \<^verbatim>\<open>windowing\<close>, and where and when windows are emitted.
  \<^item> \<^verbatim>\<open>Feature_Extractor\<close>: \<^verbatim>\<open>feature/feat_miner.cpp\<close>, each loop a recursive function; meanings of the features.
    \<^verbatim>\<open>Feature_Ranges\<close>: their ranges, with the upper bound on the entropy under rounding.
  \<^item> \<^verbatim>\<open>Detectors\<close>, \<^verbatim>\<open>Risk_Model\<close>: \<^verbatim>\<open>detection/hst.cpp\<close>, \<^verbatim>\<open>detection/burst.cpp\<close>, \<^verbatim>\<open>risk/risk_model.cpp\<close>; score bounds, the
    hysteresis over runs, monotonicity; the locale \<^verbatim>\<open>detector\<close>.
  \<^item> \<^verbatim>\<open>Enforcement\<close>, \<^verbatim>\<open>Viz\<close>: \<^verbatim>\<open>enforcement/enforcer.cpp\<close>; \<^verbatim>\<open>utils/viz_utils.cpp\<close> and \<^verbatim>\<open>alert/alert_system.cpp\<close>.
  \<^item> \<^verbatim>\<open>Pipeline\<close>: \<^verbatim>\<open>main.cpp\<close>, the per-packet body, both loops and the program from start to end, with every log line.
  \<^item> \<^verbatim>\<open>Detection\<close>, \<^verbatim>\<open>Window_Timing\<close>, \<^verbatim>\<open>Response\<close>, \<^verbatim>\<open>Tolerance\<close>, \<^verbatim>\<open>Run_State\<close>: what the program decides about runs of traffic, how soon
    an attack is answered and how soon the alarm recedes, how many writes are tolerated, and the
    well-typedness of the state in every run; \<^verbatim>\<open>Program_Run\<close>: which packets the program takes in either loop, and when it ends. They
    add no code, only statements over \<^verbatim>\<open>Pipeline\<close>.
  \<^item> \<^verbatim>\<open>Capture\<close>: \<^verbatim>\<open>capture/pcap.cpp\<close>, the frame decoder, and the life cycle of the handle as a step relation over the main
    thread and the signal watcher. \<^verbatim>\<open>Capture_Device\<close>: the same class as an object with its libpcap calls, from
    the constructor to the destructor; each operation is simulated by the step relation.
  \<^item> \<^verbatim>\<open>Log_Lines\<close>: the logger shared by the two threads, as a step relation in which taking the mutex is a step of its own.
  \<^item> \<^verbatim>\<open>Sim_Modbus\<close>, \<^verbatim>\<open>Sim_Dnp3\<close>, \<^verbatim>\<open>Sim_Iec104\<close>, \<^verbatim>\<open>Sim_Cli\<close>, \<^verbatim>\<open>Sim_Program\<close>: the simulator under \<^verbatim>\<open>src/PRISM_simulator\<close>, codec, servers,
    clients, command line and process; \<^verbatim>\<open>Sim_Legacy\<close>: its older copy under \<^verbatim>\<open>simulator\<close>, and how the two relate.
  \<^item> \<^verbatim>\<open>Interop\<close>, \<^verbatim>\<open>Wire\<close> and this theory: PRISM's parsers on the simulator's frames, the plant of engine and PLC, and the way from
    a captured frame to a refused write.

  \<^bold>\<open>How the state corresponds.\<close> An object is a record with the fields of its class, a member function a HOL
  function from the old state and its arguments to the new state and results. What the program cannot
  know is an argument: the answers of the kernel (\<^verbatim>\<open>net_outcome\<close>, \<^verbatim>\<open>conn\<close>, \<^verbatim>\<open>client_io\<close> and the like), the iteration order
  of \<^verbatim>\<open>std::unordered_map\<close> (\<^verbatim>\<open>hash_order\<close>, only assumed to be a permutation), frames of libpcap with the
  claimed length and the captured bytes, and the time. Loops over data are structural recursion. The endless
  loops of the servers and of \<^verbatim>\<open>main\<close> are functions of the list of what they receive, so a statement about
  all lists is one about all finite prefixes of an execution; no fuel is used. \<^verbatim>\<open>prism_main\<close> says whether its loop has been
  left (\<^verbatim>\<open>Finished\<close>) or the inputs are used up before (\<^verbatim>\<open>Running\<close>).

  \<^bold>\<open>Machine numbers.\<close> \<^verbatim>\<open>uint8_t\<close> and \<^verbatim>\<open>uint16_t\<close> are words, time stamps are integers in nanoseconds (a 64-bit count that
  does not overflow within centuries), counters are naturals (the \<^verbatim>\<open>int\<close> counters of the feature maps agree with them below 2^31 records per window), and a \<^verbatim>\<open>double\<close> is the real number it
  denotes, rounded after every operation to binary64 with ties to even and gradual underflow. Statements on features
  carry the bound below which counting in doubles is exact, \<^verbatim>\<open>2 ^ 53\<close> divided by what the bound multiplies. \<^verbatim>\<open>exp\<close>, \<^verbatim>\<open>log2\<close> and
  \<^verbatim>\<open>sqrt\<close> are taken to be correctly rounded.

  \<^bold>\<open>What the properties show.\<close> A window with a third of writes is decided High and leads to the lock
  (\<^verbatim>\<open>write_attacks_lock\<close>), at the latest six seconds and one gap after an attack has begun
  (\<^verbatim>\<open>attack_answered_in_time\<close>); traffic without writes and with gaps up to a quarter of a second never does
  (\<^verbatim>\<open>quiet_traffic_never_locks\<close>), a window with few writes to few addresses does not either
  (\<^verbatim>\<open>occasional_writes_tolerated\<close>), and the alarm is off six and a quarter seconds after the last write
  (\<^verbatim>\<open>alarm_recedes_in_time\<close>); but reads with irregular gaps lock (\<^verbatim>\<open>jitter_locks\<close>). A run is the composition of
  the window specification, the features, the scores and the risk model (\<^verbatim>\<open>program_composes\<close>), and its state
  stays well typed; the program takes one definite sequence of packets (\<^verbatim>\<open>program_is_run\<close>). The windows are the ones of the
  specification, hold what they should and lag on sparse traffic. The engine engages once; as long as no client moves the
  coil the PLC's lock and PRISM's belief agree, and after a release PRISM never locks again. Frames of the simulator's client,
  captured in full, end in a locked PLC that refuses writes (\<^verbatim>\<open>simulated_attack_refused\<close>). The
  capture decodes every complete TCP frame, reads out of bounds on truncated ones, closes its handle once, and the handle is safe unless \<^verbatim>\<open>poll\<close>
  fails. Log lines of the two threads never mix, and no interleaving of them deadlocks.
  The simulator's DNP3 frames are invisible to PRISM and its IEC-104 addresses are misread.

  \<^bold>\<open>Not modelled.\<close> What happens inside libpcap, the kernel and the hash maps, whose answers are arguments; memory exhaustion; the empty
  \<^verbatim>\<open>types.cpp\<close>; the interleaving of the watcher's log line with the log of \<^verbatim>\<open>prism_main\<close> (the line is \<^verbatim>\<open>watcher_line\<close>, and
  \<^verbatim>\<open>Log_Lines\<close> treats the two threads); the Go web API, the test script and the deployment files, which are not C++.
\<close>

section \<open>Properties that span components\<close>

text \<open>
  C7. The write lock as a whole. Start PRISM and the PLC, let clients send anything but safety-coil
  commands, and let the risk model take any decisions with any answers of the network: then the PLC is locked
  exactly when PRISM's engine believes so, and both hold exactly when some restricting High decision
  could reach the PLC. Then every write request of a client is refused with an exception.
\<close>

theorem plant_lock_matches_engine:
  assumes "\<forall>a \<in> set acts. \<not> client_engages a \<and> \<not> client_releases a \<and> plausible a"
  shows "let s = fold plant_step acts plant_new in
    write_locked (plc_state s) = locked (engine_state s) \<and>
    locked (engine_state s) = (\<exists>a \<in> set acts. prism_engages a) \<and>
    (\<forall>v. locked (engine_state s) \<and> is_write_fc (pdu_function (decode_mbap_pdu v)) \<and> \<not> safety_frame v \<longrightarrow>
      plc_response v (plc_state s) = encode_exception (pdu_function (decode_mbap_pdu v)) 1)"
proof -
  have "write_locked (plc_state plant_new) = locked (engine_state plant_new)"
    by (simp add: plant_new_def engine_new_def)
  from plant_agrees[OF assms this]
  have ag: "write_locked (plc_state (fold plant_step acts plant_new)) = locked (engine_state (fold plant_step acts plant_new))"
    "locked (engine_state (fold plant_step acts plant_new)) = (\<exists>a \<in> set acts. prism_engages a)"
    by (auto simp: plant_new_def engine_new_def)
  have "plc_response v s = encode_exception (pdu_function (decode_mbap_pdu v)) 1"
    if "write_locked s" "is_write_fc (pdu_function (decode_mbap_pdu v))" "\<not> safety_frame v" for v s
    using that by (auto simp: plc_parts safety_frame_def Let_def)
  with ag show ?thesis
    unfolding Let_def by auto
qed

definition write_request :: bytes where
  "write_request = encode_mbap_pdu \<lparr>pdu_function = 6, pdu_address = 10, pdu_value = 7\<rparr>"

theorem plant_lock_matches_engine_witness:
  "plc_response write_request (plc_state (fold plant_step [Client write_request, Decide net_good high_decision] plant_new)) =
   encode_exception 6 1"
proof -
  have w: "decode_mbap_pdu write_request = \<lparr>pdu_function = 6, pdu_address = 10, pdu_value = 7\<rparr>"
    by (simp add: write_request_def mbap.dec_enc)
  have "take 256 write_request = write_request"
    by (simp add: write_request_def encode_mbap_pdu_def)
  then have a: "\<forall>a \<in> set [Client write_request, Decide net_good high_decision].
      \<not> client_engages a \<and> \<not> client_releases a \<and> plausible a"
    by (simp add: client_engages_def client_releases_def plausible_def engage_frame_def release_frame_def safety_frame_def w
        net_good_def)
  have "prism_engages (Decide net_good high_decision)"
    by (simp add: prism_engages_def engages_def wants_lock_def net_ok_def net_good_def high_decision_def)
  then show ?thesis
    using plant_lock_matches_engine[OF a] w
    by (simp add: Let_def is_write_fc_def safety_frame_def del: fold_simps plant_step.simps)
qed

text \<open>
  C19. A release is final. Once the engine has engaged and the PLC has been released, PRISM never locks
  it again: whatever decisions follow and whatever the network does, the PLC stays unlocked until a client
  engages the coil itself.
\<close>

theorem release_is_final:
  assumes "locked (engine_state s)" and "client_releases (Client v)"
    and "\<forall>a \<in> set acts. \<not> client_engages a \<and> plausible a"
  shows "\<not> write_locked (plc_state (fold plant_step (Client v # acts) s))"
proof -
  have "\<not> client_engages (Client v)"
    using assms(2) engage_not_release by (auto simp: client_engages_def client_releases_def)
  then have "\<not> write_locked (plc_state (plant_step (Client v) s))"
    using assms(2) client_lock[of v s] by simp
  moreover have "locked (engine_state (plant_step (Client v) s))"
    using assms(1) by (rule plant_engine.keep)
  ultimately show ?thesis
    using plant_stays_released[OF assms(3), of "plant_step (Client v) s"] by simp
qed

definition release_request :: bytes where
  "release_request = encode_mbap_pdu \<lparr>pdu_function = 5, pdu_address = 0xFFFF, pdu_value = 0\<rparr>"

theorem release_is_final_witness:
  "\<not> write_locked (plc_state (fold plant_step [Client release_request, Decide net_good high_decision]
      (plant_new\<lparr>engine_state := \<lparr>locked = True\<rparr>\<rparr>)))"
proof -
  have "take 256 release_request = release_request"
    by (simp add: release_request_def encode_mbap_pdu_def)
  then have "client_releases (Client release_request)"
    by (simp add: client_releases_def release_frame_def safety_frame_def release_request_def mbap.dec_enc)
  then show ?thesis
    by (intro release_is_final) (simp_all add: client_engages_def plausible_def net_good_def)
qed

text \<open>
  PRISM sees the simulator's Modbus traffic. A packet to port 502 that carries the client's frame is kept as a request with the
  client's function code and address, and as a write exactly for the function codes the PLC locks; the
  PLC decodes the same request from it. Of the answers on the way back PRISM keeps an echo, as a response with the same fields,
  and drops every exception, so refusals are invisible to it.
\<close>

lemma modbus_traffic_seen:
  assumes "payload p = client_encode_mbap_pdu (client_PDU_init\<lparr>cl_fn := fn, cl_addr := addr, cl_value := val\<rparr>)"
    and "dstPort p = 502" and "srcPort q = 502" and "dstPort q \<noteq> 502" and "payload q = plc_response (payload p) s"
  shows "kept_record p = Some \<lparr>rec_timestamp = pkt_timestamp p, protocol = ''Modbus'', isRequest = True,
      isWrite = is_write_fc fn, functionCode = fn, address = addr\<rparr> \<and>
    decode_mbap_pdu (payload p) = \<lparr>pdu_function = fn, pdu_address = addr, pdu_value = val\<rparr> \<and>
    kept_record q = (if write_locked s \<and> is_write_fc fn \<and> \<not> (addr = 0xFFFF \<and> fn = 5) then None
      else Some \<lparr>rec_timestamp = pkt_timestamp q, protocol = ''Modbus'', isRequest = False,
        isWrite = is_write_fc fn, functionCode = fn, address = addr\<rparr>)"
proof -
  let ?m = "\<lparr>pdu_function = fn, pdu_address = addr, pdu_value = val\<rparr>"
  have p: "payload p = encode_mbap_pdu ?m" "decode_mbap_pdu (payload p) = ?m"
    using assms(1) by (simp_all add: modbus_client_frame mbap.dec_enc)
  have c: "classify_protocol p = MODBUS" "classify_protocol q = MODBUS"
    using assms(2,3) by (simp_all add: classify_protocol_def)
  have r: "plc_response (payload p) s =
      (if write_locked s \<and> is_write_fc fn \<and> \<not> (addr = 0xFFFF \<and> fn = 5) then encode_exception fn 1 else encode_mbap_pdu ?m)"
    by (auto simp: plc_parts p(2) Let_def)
  have "kept_record p = Some \<lparr>rec_timestamp = pkt_timestamp p, protocol = ''Modbus'', isRequest = True,
      isWrite = is_write_fc fn, functionCode = fn, address = addr\<rparr>"
    using assms(2) by (simp add: kept_record_modbus[OF c(1)] p(1)) (simp add: encode_mbap_pdu_def byte_simps)
  moreover have "kept_record q = (if write_locked s \<and> is_write_fc fn \<and> \<not> (addr = 0xFFFF \<and> fn = 5) then None
      else Some \<lparr>rec_timestamp = pkt_timestamp q, protocol = ''Modbus'', isRequest = False,
        isWrite = is_write_fc fn, functionCode = fn, address = addr\<rparr>)"
    using assms(4) unfolding kept_record_modbus[OF c(2)] assms(5) r
    by (simp add: encode_exception_def encode_mbap_pdu_def byte_simps)
  ultimately show ?thesis
    using p(2) by blast
qed

lemma modbus_traffic_seen_witness:
  "let p = \<lparr>pkt_timestamp = 1, payload = client_encode_mbap_pdu (client_PDU_init\<lparr>cl_fn := 6, cl_addr := 10, cl_value := 7\<rparr>),
             srcIp = '''', dstIp = '''', srcPort = 40000, dstPort = 502\<rparr>;
       q = \<lparr>pkt_timestamp = 2, payload = plc_response (payload p) \<lparr>write_locked = True\<rparr>,
             srcIp = '''', dstIp = '''', srcPort = 502, dstPort = 40000\<rparr>
   in kept_record q = None"
  unfolding Let_def
  using modbus_traffic_seen[where fn = 6 and addr = 10 and val = 7 and p = "\<lparr>pkt_timestamp = 1, payload = client_encode_mbap_pdu (client_PDU_init\<lparr>cl_fn := 6, cl_addr := 10, cl_value := 7\<rparr>),
             srcIp = '''', dstIp = '''', srcPort = 40000, dstPort = 502\<rparr>" and s = "\<lparr>write_locked = True\<rparr>"
      and q = "\<lparr>pkt_timestamp = 2, payload = plc_response (client_encode_mbap_pdu (client_PDU_init\<lparr>cl_fn := 6, cl_addr := 10, cl_value := 7\<rparr>)) \<lparr>write_locked = True\<rparr>,
             srcIp = '''', dstIp = '''', srcPort = 502, dstPort = 40000\<rparr>"]
  by (simp add: is_write_fc_def)

text \<open>
  C29. PRISM does not see the simulator's DNP3 traffic. Every packet on the DNP3 port that carries a frame of the simulator's client, or
  its echo by the simulator's server, is dropped by the parser, for every function code and in both directions.
\<close>

theorem dnp3_simulator_invisible:
  assumes "classify_protocol p = DNP3"
    and "payload p = dnp3_build_frame func \<or>
      (\<exists>fd srv c. Send fd (payload p) \<in> set (fst (dnp3_serve srv (c, Some (dnp3_build_frame func)))))"
  shows "kept_record p = None"
proof -
  have "payload p = dnp3_build_frame func"
    using assms(2) by (auto simp: dnp3_serve_def sys_read_def dnp3_frame Let_def split: if_splits)
  then show ?thesis
    by (intro kept_record_short_dnp3 assms(1)) (simp add: dnp3_frame)
qed

theorem dnp3_simulator_invisible_witness:
  "kept_record \<lparr>pkt_timestamp = 1, payload = dnp3_build_frame 2, srcIp = '''', dstIp = '''', srcPort = 40000, dstPort = 20000\<rparr> = None"
  by (rule dnp3_simulator_invisible[of _ 2]) (simp_all add: classify_protocol_def)

text \<open>
  C30. PRISM misreads the simulator's IEC-104 addresses. A packet with a frame of the simulator's client is kept as a request with
  its type identifier, and as a write exactly for the types 45 to 50; but the address recorded combines the
  low byte of the information object address with the ASDU address 1, and equals the address sent only if that is 257.
\<close>

theorem iec104_addresses_misread:
  assumes "classify_protocol p = IEC104" and "payload p = iec104_build_frame t ioa" and "t \<noteq> 0"
  shows "kept_record p = Some \<lparr>rec_timestamp = pkt_timestamp p, protocol = ''IEC104'', isRequest = True,
      isWrite = (45 \<le> t \<and> t \<le> 50), functionCode = t, address = be16 (lo8 ioa) 1\<rparr> \<and>
    (be16 (lo8 ioa) 1 = ioa) = (ioa = 257)"
proof -
  have a: "iec104_accepts p"
    using iec104_port[OF assms(1)] assms(2,3) by (simp add: iec104_accepts_def iec104_frame)
  have "be16 (lo8 ioa) 1 = ioa \<longleftrightarrow> lo8 ioa = hi8 ioa \<and> lo8 ioa = 1"
    by (metis be16_split hi8_be16 lo8_be16)
  also have "\<dots> \<longleftrightarrow> be16 (hi8 ioa) (lo8 ioa) = be16 1 1"
    by (auto simp: be16_inject)
  also have "\<dots> \<longleftrightarrow> ioa = 257"
  proof -
    have "be16 1 1 = 257"
      by (simp add: be16_def)
    then show ?thesis
      by (simp only: be16_split)
  qed
  finally show ?thesis
    by (simp add: kept_record_iec104[OF assms(1)] a iec104_fields assms(2)) (simp add: iec104_frame)
qed

theorem iec104_addresses_misread_witness:
  "map_option address (kept_record \<lparr>pkt_timestamp = 1, payload = iec104_build_frame 45 16, srcIp = '''', dstIp = '''',
     srcPort = 40000, dstPort = 2404\<rparr>) = Some 4097"
  using iec104_addresses_misread[of "\<lparr>pkt_timestamp = 1, payload = iec104_build_frame 45 16, srcIp = '''', dstIp = '''',
     srcPort = 40000, dstPort = 2404\<rparr>" 45 16]
  by (simp add: classify_protocol_def be16_def lo8_def)

end
